(* ===== verification/Prelude.thy ===== *)
theory Prelude
  imports Main "HOL-Library.Word" "HOL-Library.List_Lexorder"
begin

text \<open>
  Shared vocabulary of the development: byte strings and nilable slices, the collections of
  facts the component theories feed to the simplifier, and generic lemmas on lists, sorted
  lists and association maps.
\<close>

unbundle bit_operations_syntax

section \<open>Types\<close>

type_synonym byte = "8 word"
type_synonym bytes = "byte list"

text \<open>A Go \<open>[]byte\<close> whose nil-ness is observed by the code: \<open>None\<close> is nil.\<close>
type_synonym slice = "bytes option"

type_synonym int64 = "64 word"
type_synonym uint64 = "64 word"
type_synonym uint32 = "32 word"
type_synonym uint16 = "16 word"

named_theorems codec "lengths and inverses of the binary encodings"
named_theorems frame "fields that an operation leaves unchanged"
named_theorems inv_intro "preservation of component invariants"

section \<open>Slices\<close>

text \<open>The contents read through a possibly nil slice: \<open>len(nil)\<close> is 0.\<close>

definition contents :: "slice \<Rightarrow> bytes" where
  "contents s = (case s of None \<Rightarrow> [] | Some b \<Rightarrow> b)"

lemma contents_simps [simp]: "contents None = []" "contents (Some b) = b"
  by (simp_all add: contents_def)

text \<open>The Go slice expression \<open>b[lo:hi]\<close> within bounds.\<close>

definition subslice :: "'a list \<Rightarrow> nat \<Rightarrow> nat \<Rightarrow> 'a list" where
  "subslice b lo hi = take (hi - lo) (drop lo b)"

text \<open>
  The slice expression and the index with Go's run-time check: \<open>None\<close> is the panic. The upper
  bound is the length, where Go allows the capacity; a slice this check accepts does not panic.
\<close>

definition go_slice :: "'a list \<Rightarrow> nat \<Rightarrow> nat \<Rightarrow> 'a list option" where
  "go_slice b lo hi = (if lo \<le> hi \<and> hi \<le> length b then Some (subslice b lo hi) else None)"

definition go_index :: "'a list \<Rightarrow> nat \<Rightarrow> 'a option" where
  "go_index b i = (if i < length b then Some (b ! i) else None)"

text \<open>The effect on the backing array of \<open>copy(dst[off:], src)\<close>.\<close>

definition copy_at :: "nat \<Rightarrow> 'a list \<Rightarrow> 'a list \<Rightarrow> 'a list" where
  "copy_at off src dst =
     take off dst @ take (length dst - off) src @ drop (off + length src) dst"

lemma length_subslice [simp]: "hi \<le> length b \<Longrightarrow> length (subslice b lo hi) = hi - lo"
  by (simp add: subslice_def)

lemma go_slice_within [simp]: "lo \<le> hi \<Longrightarrow> hi \<le> length b \<Longrightarrow> go_slice b lo hi = Some (subslice b lo hi)"
  by (simp add: go_slice_def)

lemma go_index_within [simp]: "i < length b \<Longrightarrow> go_index b i = Some (b ! i)"
  by (simp add: go_index_def)

lemma go_slice_Some_iff:
  "go_slice b lo hi = Some c \<longleftrightarrow> lo \<le> hi \<and> hi \<le> length b \<and> c = subslice b lo hi"
  by (auto simp: go_slice_def)

lemma subslice_append_left:
  "hi \<le> length xs \<Longrightarrow> subslice (xs @ ys) lo hi = subslice xs lo hi"
  by (cases "lo \<le> length xs") (auto simp: subslice_def)

lemma subslice_append_right:
  "length xs \<le> lo \<Longrightarrow> subslice (xs @ ys) lo hi = subslice ys (lo - length xs) (hi - length xs)"
  by (simp add: subslice_def)

lemma subslice_first [simp]: "length xs = n \<Longrightarrow> subslice (xs @ ys) 0 n = xs"
  by (simp add: subslice_def)

lemma subslice_second [simp]:
  "length xs = n \<Longrightarrow> n + length ys = m \<Longrightarrow> subslice (xs @ ys @ zs) n m = ys"
  by (auto simp: subslice_def)

lemma subslice_full: "subslice xs 0 (length xs) = xs"
  by (simp add: subslice_def)

lemma length_copy_at [simp]: "off \<le> length dst \<Longrightarrow> length (copy_at off src dst) = length dst"
  by (auto simp: copy_at_def)

text \<open>
  A copy that starts at the end of a finished prefix extends the prefix: the step by which an
  encoder that fills a buffer field by field is shown to build the concatenation of its fields.
\<close>

lemma copy_at_extends:
  assumes "length pre = off" "off + length src \<le> length rest + off"
  shows "copy_at off src (pre @ rest) = pre @ src @ drop (length src) rest"
  using assms by (auto simp: copy_at_def)

section \<open>Words\<close>

lemma unat_bound: "unat (w :: 'a::len word) < 2 ^ LENGTH('a)"
  by (rule unsigned_less)

lemma xor_cancel_right: "(a :: 'a::len word) XOR c = b XOR c \<Longrightarrow> a = b"
  by (metis xor.assoc xor.right_neutral xor_self_eq)

lemma xor_cancel_left: "c XOR (a :: 'a::len word) = c XOR b \<Longrightarrow> a = b"
  by (metis xor.commute xor_cancel_right)

section \<open>Lists\<close>

lemma take_append_exact [simp]: "length xs = n \<Longrightarrow> take n (xs @ ys) = xs"
  by simp

lemma drop_append_exact [simp]: "length xs = n \<Longrightarrow> drop n (xs @ ys) = ys"
  by simp

lemma map_of_key_map:
  "map_of (map (\<lambda>e. (f e, e)) es) k = find (\<lambda>e. f e = k) es"
  by (induction es) auto

lemma find_append:
  "find P (xs @ ys) = (case find P xs of None \<Rightarrow> find P ys | Some x \<Rightarrow> Some x)"
  by (induction xs) auto

lemma find_None_set: "find P xs = None \<longleftrightarrow> (\<forall>x\<in>set xs. \<not> P x)"
  by (auto simp: find_None_iff)

lemma find_Some_mem: "find P xs = Some x \<Longrightarrow> x \<in> set xs \<and> P x"
  by (auto simp: find_Some_iff in_set_conv_nth)

lemma find_concat:
  "find P (concat xss) =
     (case find (\<lambda>xs. find P xs \<noteq> None) xss of None \<Rightarrow> None | Some xs \<Rightarrow> find P xs)"
  by (induction xss) (auto simp: find_append split: option.splits)

lemma strict_sorted_distinct:
  "sorted_wrt (<) (map f xs) \<Longrightarrow> distinct (map f (xs :: 'a list) :: 'b::linorder list)"
  by (simp add: strict_sorted_iff)

lemma strict_sorted_find:
  assumes "sorted_wrt (<) (map f xs)" "x \<in> set xs"
  shows "find (\<lambda>e. f e = (f x :: 'b::linorder)) xs = Some x"
  using assms
proof (induction xs)
  case (Cons y ys)
  then show ?case by (cases "x = y") auto
qed simp

end
