(* ===== verification/Manifest.thy ===== *)
theory Manifest
  imports Prelude
begin

text \<open>
  The manifest as the engine and the compactor see it. Its code (\<open>core.Manifest\<close>) is not part of
  the repository's files, so its methods are a record of functions on an unknown state that the
  definitions using them take as an argument; \<open>manifest_laws\<close> says what the callers rely on.
\<close>

section \<open>The interface\<close>

record TableMeta =
  tmID :: uint64
  tmLevel :: int

record VersionEdit =
  AddedTables :: "TableMeta list"
  DeletedTables :: "uint64 list"

record 'm Manifest =
  mfNextID :: "'m \<Rightarrow> uint64 \<times> 'm"
  mfGetLevelTables :: "'m \<Rightarrow> int \<Rightarrow> uint64 list"
  mfGetAllLevels :: "'m \<Rightarrow> (int \<times> uint64 list) list"
  mfLogAndApply :: "VersionEdit \<Rightarrow> 'm \<Rightarrow> bool \<times> 'm"

text \<open>\<open>levels[l]\<close> of a Go map: the nil slice when there is no entry.\<close>

definition level_of :: "(int \<times> uint64 list) list \<Rightarrow> int \<Rightarrow> uint64 list" where
  "level_of levels l = (case map_of levels l of None \<Rightarrow> [] | Some ts \<Rightarrow> ts)"

section \<open>What the callers rely on\<close>

definition apply_edit :: "VersionEdit \<Rightarrow> (int \<Rightarrow> uint64 list) \<Rightarrow> int \<Rightarrow> uint64 list" where
  "apply_edit edit tables l =
     filter (\<lambda>t. t \<notin> set (DeletedTables edit)) (tables l) @
     map tmID (filter (\<lambda>t. tmLevel t = l) (AddedTables edit))"

text \<open>
  \<open>used m\<close> are the ids the manifest has given out. \<open>NextID\<close> is fresh as long as there is
  an id left; an edit is applied as a whole or not at all: a successful \<open>LogAndApply\<close> removes the deleted tables and appends the added ones to
  their levels; the map of all levels agrees with the levels.
\<close>

definition manifest_laws :: "'m Manifest \<Rightarrow> ('m \<Rightarrow> uint64 set) \<Rightarrow> bool" where
  "manifest_laws M used \<longleftrightarrow>
     (\<forall>m nid m'. mfNextID M m = (nid, m') \<longrightarrow>
        mfGetLevelTables M m' = mfGetLevelTables M m \<and>
        (used m \<noteq> UNIV \<longrightarrow> nid \<notin> used m) \<and> used m' = insert nid (used m)) \<and>
     (\<forall>edit m m'. mfLogAndApply M edit m = (True, m') \<longrightarrow>
        mfGetLevelTables M m' = apply_edit edit (mfGetLevelTables M m) \<and>
        (tmID ` set (AddedTables edit) \<subseteq> used m \<longrightarrow> used m' = used m)) \<and>
     (\<forall>edit m m'. mfLogAndApply M edit m = (False, m') \<longrightarrow>
        mfGetLevelTables M m' = mfGetLevelTables M m \<and> used m' = used m) \<and>
     (\<forall>m l. level_of (mfGetAllLevels M m) l = mfGetLevelTables M m l)"

lemma manifest_NextID:
  assumes "manifest_laws M used" "mfNextID M m = (nid, m')"
  shows "mfGetLevelTables M m' = mfGetLevelTables M m" "used m' = insert nid (used m)"
    "used m \<noteq> UNIV \<Longrightarrow> nid \<notin> used m"
  using assms unfolding manifest_laws_def by blast+

lemma manifest_apply:
  assumes "manifest_laws M used" "mfLogAndApply M edit m = (True, m')"
  shows "mfGetLevelTables M m' = apply_edit edit (mfGetLevelTables M m)"
    "tmID ` set (AddedTables edit) \<subseteq> used m \<Longrightarrow> used m' = used m"
  using assms unfolding manifest_laws_def by blast+

lemma manifest_refused:
  assumes "manifest_laws M used" "mfLogAndApply M edit m = (False, m')"
  shows "mfGetLevelTables M m' = mfGetLevelTables M m" "used m' = used m"
  using assms unfolding manifest_laws_def by blast+

lemma manifest_levels:
  "manifest_laws M used \<Longrightarrow> level_of (mfGetAllLevels M m) = mfGetLevelTables M m"
  unfolding manifest_laws_def by (intro ext) blast

section \<open>The laws can hold\<close>

text \<open>A manifest kept in memory: a counter and the list of live tables.\<close>

record mem_manifest =
  mmNext :: nat
  mmTables :: "TableMeta list"

definition mem_used :: "mem_manifest \<Rightarrow> uint64 set" where
  "mem_used m = word_of_nat ` {..<mmNext m}"

definition mem_tables :: "mem_manifest \<Rightarrow> int \<Rightarrow> uint64 list" where
  "mem_tables m l = map tmID (filter (\<lambda>t. tmLevel t = l) (mmTables m))"

definition mem_manifest :: "mem_manifest Manifest" where
  "mem_manifest =
     \<lparr>mfNextID = (\<lambda>m. (word_of_nat (mmNext m), m\<lparr>mmNext := Suc (mmNext m)\<rparr>)),
      mfGetLevelTables = mem_tables,
      mfGetAllLevels = (\<lambda>m. map (\<lambda>l. (l, mem_tables m l)) (remdups (map tmLevel (mmTables m)))),
      mfLogAndApply = (\<lambda>edit m. (True, m\<lparr>mmTables :=
        filter (\<lambda>t. tmID t \<notin> set (DeletedTables edit)) (mmTables m) @ AddedTables edit\<rparr>))\<rparr>"

lemma mem_fresh:
  assumes "mem_used m \<noteq> UNIV"
  shows "word_of_nat (mmNext m) \<notin> mem_used m"
proof
  assume "word_of_nat (mmNext m) \<in> mem_used m"
  then obtain i where i: "i < mmNext m" "(word_of_nat (mmNext m) :: uint64) = word_of_nat i"
    by (auto simp: mem_used_def)
  have "2 ^ 64 \<le> mmNext m"
  proof (rule ccontr)
    assume "\<not> 2 ^ 64 \<le> mmNext m"
    then have "mmNext m = unat (word_of_nat (mmNext m) :: uint64)" by (simp add: unat_of_nat)
    also have "\<dots> = unat (word_of_nat i :: uint64)" by (simp only: i(2))
    also have "\<dots> \<le> i" by (simp add: unat_of_nat)
    finally show False using i(1) by simp
  qed
  moreover have "(w :: uint64) \<in> word_of_nat ` {..<mmNext m}" if "2 ^ 64 \<le> mmNext m" for w
  proof (rule image_eqI)
    show "w = word_of_nat (unat w)" by simp
    show "unat w \<in> {..<mmNext m}" using unat_bound [of w] that by simp
  qed
  ultimately show False using assms by (auto simp: mem_used_def)
qed

lemma mem_manifest_laws: "manifest_laws mem_manifest mem_used"
proof -
  have "level_of (mfGetAllLevels mem_manifest m) l = mem_tables m l" for m l
  proof (cases "l \<in> tmLevel ` set (mmTables m)")
    case False
    then have "mem_tables m l = []" by (auto simp: mem_tables_def filter_empty_conv)
    with False show ?thesis by (auto simp: mem_manifest_def level_of_def map_of_map_restrict restrict_map_def)
  next
    case True
    then show ?thesis by (auto simp: mem_manifest_def level_of_def map_of_map_restrict restrict_map_def)
  qed
  moreover have "mem_used (m\<lparr>mmNext := Suc (mmNext m)\<rparr>) = insert (word_of_nat (mmNext m)) (mem_used m)" for m
    by (simp add: mem_used_def lessThan_Suc)
  moreover have "mem_tables (m\<lparr>mmTables := filter (\<lambda>t. tmID t \<notin> set (DeletedTables edit)) (mmTables m) @
      AddedTables edit\<rparr>) = apply_edit edit (mem_tables m)" for edit m
    by (intro ext) (simp add: mem_tables_def apply_edit_def filter_map comp_def conj_commute)
  ultimately show ?thesis
    using mem_fresh by (auto simp: manifest_laws_def mem_manifest_def mem_tables_def mem_used_def fun_eq_iff)
qed

end
