(* ===== verification/GoLib.thy ===== *)
theory GoLib
  imports Prelude
begin

text \<open>
  The parts of Go's standard library the source computes with: \<open>bytes.Compare\<close>,
  \<open>encoding/binary\<close> (big endian), \<open>hash/crc32\<close> (IEEE), \<open>hash/fnv\<close> (64a).
\<close>

section \<open>bytes.Compare\<close>

fun bytes_compare :: "bytes \<Rightarrow> bytes \<Rightarrow> int" where
  "bytes_compare [] [] = 0"
| "bytes_compare [] (y # ys) = -1"
| "bytes_compare (x # xs) [] = 1"
| "bytes_compare (x # xs) (y # ys) =
     (if x < y then -1 else if y < x then 1 else bytes_compare xs ys)"

text \<open>The three-way comparison is the lexicographic order; its guards become \<open><\<close> and \<open>=\<close>.\<close>

lemma bytes_compare_less [simp]: "bytes_compare a b < 0 \<longleftrightarrow> a < b"
  by (induction a b rule: bytes_compare.induct) auto

lemma bytes_compare_greater [simp]: "0 < bytes_compare a b \<longleftrightarrow> b < a"
  by (induction a b rule: bytes_compare.induct) auto

lemma bytes_compare_eq [simp]: "bytes_compare a b = 0 \<longleftrightarrow> a = b"
  by (induction a b rule: bytes_compare.induct) auto

lemma bytes_compare_le [simp]: "bytes_compare a b \<le> 0 \<longleftrightarrow> a \<le> b"
  by (metis bytes_compare_greater linorder_not_less)

lemma bytes_compare_ge [simp]: "0 \<le> bytes_compare a b \<longleftrightarrow> b \<le> a"
  by (metis bytes_compare_less linorder_not_less)

section \<open>encoding/binary, big endian\<close>

primrec be_enc :: "nat \<Rightarrow> nat \<Rightarrow> bytes" where
  "be_enc 0 n = []"
| "be_enc (Suc k) n = be_enc k (n div 256) @ [word_of_nat n]"

text \<open>For the evaluation of closed encodings.\<close>

lemma be_enc_numeral:
  "be_enc (numeral k) n = be_enc (pred_numeral k) (n div 256) @ [word_of_nat n]"
  by (metis be_enc.simps(2) numeral_eq_Suc)

definition be_dec :: "bytes \<Rightarrow> nat" where
  "be_dec bs = foldl (\<lambda>a b. a * 256 + unat b) 0 bs"

lemma length_be_enc [simp, codec]: "length (be_enc k n) = k"
  by (induction k arbitrary: n) auto

lemma be_dec_Nil [simp]: "be_dec [] = 0"
  by (simp add: be_dec_def)

lemma be_dec_snoc [simp]: "be_dec (bs @ [b]) = be_dec bs * 256 + unat b"
  by (simp add: be_dec_def)

lemma be_dec_enc [codec]: "be_dec (be_enc k n) = n mod 256 ^ k"
proof (induction k arbitrary: n)
  case (Suc k)
  have "n mod 256 ^ Suc k = 256 * (n div 256 mod 256 ^ k) + n mod 256"
    by (simp add: mod_mult2_eq)
  then show ?case using Suc by (simp add: unat_of_nat)
qed simp

lemma be_dec_bound: "be_dec bs < 256 ^ length bs"
proof (induction bs rule: rev_induct)
  case (snoc b bs)
  have "unat b < 256" using unat_bound [of b] by simp
  with snoc show ?case by simp
qed simp

lemma be_enc_dec [codec]: "length bs = k \<Longrightarrow> be_enc k (be_dec bs) = bs"
proof (induction bs arbitrary: k rule: rev_induct)
  case (snoc b bs)
  have b: "unat b < 256" using unat_bound [of b] by simp
  then have "(be_dec bs * 256 + unat b) div 256 = be_dec bs" by simp
  moreover have "(word_of_nat (be_dec bs * 256) :: byte) = 0"
    unfolding word_of_nat_eq_0_iff by simp
  then have "word_of_nat (be_dec bs * 256 + unat b) = b" by (simp del: of_nat_mult)
  ultimately show ?case using snoc by (auto)
qed simp

definition PutUint64 :: "uint64 \<Rightarrow> bytes" where "PutUint64 w = be_enc 8 (unat w)"
definition PutUint32 :: "uint32 \<Rightarrow> bytes" where "PutUint32 w = be_enc 4 (unat w)"
definition PutUint16 :: "uint16 \<Rightarrow> bytes" where "PutUint16 w = be_enc 2 (unat w)"
definition Uint64 :: "bytes \<Rightarrow> uint64" where "Uint64 bs = word_of_nat (be_dec bs)"
definition Uint32 :: "bytes \<Rightarrow> uint32" where "Uint32 bs = word_of_nat (be_dec bs)"
definition Uint16 :: "bytes \<Rightarrow> uint16" where "Uint16 bs = word_of_nat (be_dec bs)"

text \<open>\<open>binary.BigEndian.Uint32\<close> with the check of its own: a shorter slice panics.\<close>

definition go_Uint32 :: "bytes \<Rightarrow> uint32 option" where
  "go_Uint32 b = (if length b < 4 then None else Some (Uint32 (take 4 b)))"

lemma length_Put [simp, codec]:
  "length (PutUint64 a) = 8" "length (PutUint32 b) = 4" "length (PutUint16 c) = 2"
  by (simp_all add: PutUint64_def PutUint32_def PutUint16_def)

lemma Uint64_Put [simp, codec]: "Uint64 (PutUint64 w) = w"
  using unat_bound [of w] by (simp add: Uint64_def PutUint64_def be_dec_enc)

lemma Uint32_Put [simp, codec]: "Uint32 (PutUint32 w) = w"
  using unat_bound [of w] by (simp add: Uint32_def PutUint32_def be_dec_enc)

lemma Uint16_Put [simp, codec]: "Uint16 (PutUint16 w) = w"
  using unat_bound [of w] by (simp add: Uint16_def PutUint16_def be_dec_enc)

lemma Put_Uint64 [codec]: "length bs = 8 \<Longrightarrow> PutUint64 (Uint64 bs) = bs"
  using be_dec_bound [of bs] by (simp add: Uint64_def PutUint64_def unat_of_nat be_enc_dec)

lemma Put_Uint32 [codec]: "length bs = 4 \<Longrightarrow> PutUint32 (Uint32 bs) = bs"
  using be_dec_bound [of bs] by (simp add: Uint32_def PutUint32_def unat_of_nat be_enc_dec)

lemma Put_Uint16 [codec]: "length bs = 2 \<Longrightarrow> PutUint16 (Uint16 bs) = bs"
  using be_dec_bound [of bs] by (simp add: Uint16_def PutUint16_def unat_of_nat be_enc_dec)

lemma unat_of_nat32: "n < 2 ^ 32 \<Longrightarrow> unat (word_of_nat n :: uint32) = n"
  by (simp add: unat_of_nat)

lemma unat_of_nat16: "n < 2 ^ 16 \<Longrightarrow> unat (word_of_nat n :: uint16) = n"
  by (simp add: unat_of_nat)

section \<open>hash/crc32 with the IEEE polynomial\<close>

text \<open>
  The reflected CRC of \<open>crc32.ChecksumIEEE\<close>, bit by bit: the library's table is this step
  precomputed for each byte.
\<close>

definition crc_bit :: "uint32 \<Rightarrow> uint32" where
  "crc_bit c = (if bit c 0 then drop_bit 1 c XOR 0xEDB88320 else drop_bit 1 c)"

definition crc_byte :: "uint32 \<Rightarrow> byte \<Rightarrow> uint32" where
  "crc_byte c b = (crc_bit ^^ 8) (c XOR ucast b)"

definition ChecksumIEEE :: "bytes \<Rightarrow> uint32" where
  "ChecksumIEEE bs = NOT (foldl crc_byte (NOT 0) bs)"

lemma crc_bit_inj: "crc_bit c = crc_bit d \<Longrightarrow> c = d"
proof -
  assume eq: "crc_bit c = crc_bit d"
  have top: "bit (crc_bit x) 31 \<longleftrightarrow> bit x 0" for x
    by (simp add: crc_bit_def bit_simps impossible_bit)
  from eq have b0: "bit c 0 \<longleftrightarrow> bit d 0" by (metis top)
  then have "drop_bit 1 c = drop_bit 1 d"
    using eq by (auto simp: crc_bit_def split: if_splits dest: xor_cancel_right)
  then have "bit c (Suc n) \<longleftrightarrow> bit d (Suc n)" for n
    by (metis bit_drop_bit_eq comp_apply plus_1_eq_Suc)
  then have "bit c n \<longleftrightarrow> bit d n" for n
    using b0 by (cases n) simp_all
  then show "c = d" by (simp add: bit_eq_iff)
qed

lemma crc_bits_inj: "(crc_bit ^^ n) c = (crc_bit ^^ n) d \<Longrightarrow> c = d"
  by (induction n) (auto dest: crc_bit_inj)

lemma crc_byte_inj_state: "crc_byte c b = crc_byte d b \<Longrightarrow> c = d"
proof -
  assume "crc_byte c b = crc_byte d b"
  then have "c XOR ucast b = d XOR ucast b" unfolding crc_byte_def by (rule crc_bits_inj)
  then show "c = d" by (rule xor_cancel_right)
qed

lemma crc_byte_inj_byte: "crc_byte c a = crc_byte c b \<Longrightarrow> a = b"
proof -
  assume "crc_byte c a = crc_byte c b"
  then have "c XOR ucast a = c XOR ucast b" unfolding crc_byte_def by (rule crc_bits_inj)
  then have eq: "(ucast a :: uint32) = ucast b" by (rule xor_cancel_left)
  show "a = b"
  proof (rule bit_word_eqI)
    fix n assume "n < LENGTH(8)"
    then show "bit a n \<longleftrightarrow> bit b n"
      using arg_cong [OF eq, of "\<lambda>w. bit w n"] by (simp add: bit_ucast_iff)
  qed
qed

lemma crc_fold_inj_state: "foldl crc_byte c bs = foldl crc_byte d bs \<Longrightarrow> c = d"
  by (induction bs arbitrary: c d) (auto dest: crc_byte_inj_state)

text \<open>Two payloads that differ in exactly one byte have different checksums.\<close>

lemma crc_detects_one_byte:
  assumes "a \<noteq> b"
  shows "ChecksumIEEE (xs @ a # ys) \<noteq> ChecksumIEEE (xs @ b # ys)"
proof
  assume "ChecksumIEEE (xs @ a # ys) = ChecksumIEEE (xs @ b # ys)"
  then have "NOT (NOT (foldl crc_byte (NOT 0) (xs @ a # ys))) =
             NOT (NOT (foldl crc_byte (NOT 0) (xs @ b # ys)))"
    unfolding ChecksumIEEE_def by simp
  then have "foldl crc_byte (NOT 0) (xs @ a # ys) = foldl crc_byte (NOT 0) (xs @ b # ys)"
    by simp
  then have "crc_byte (foldl crc_byte (NOT 0) xs) a = crc_byte (foldl crc_byte (NOT 0) xs) b"
    by (auto dest: crc_fold_inj_state)
  then show False using assms by (auto dest: crc_byte_inj_byte)
qed

section \<open>hash/fnv, 64-bit FNV-1a\<close>

definition fnv64a :: "bytes \<Rightarrow> uint64" where
  "fnv64a bs = foldl (\<lambda>h b. (h XOR ucast b) * 1099511628211) 14695981039346656037 bs"

end
