(* ===== verification/Entry.thy ===== *)
theory Entry
  imports GoLib "HOL-Library.Monad_Syntax"
begin

text \<open>
  \<open>pkg/core/entry.go\<close>: the entry of the LSM tree, its size accounting, its comparison and its
  binary encoding. Buffers are modelled by their contents up to their capacity, so that the
  in-place encoders can be compared with the concatenation of the fields they should produce.
\<close>

section \<open>Entries\<close>

datatype core_error = ErrKeyNotFound | ErrKeyDeleted | ErrEmptyKey | ErrDatabaseClosed

definition OpPut :: byte where "OpPut = 1"
definition OpDelete :: byte where "OpDelete = 2"

text \<open>
  The nil-ness of a value is observable (a decoded empty value is nil); that of a key is not,
  every use of a key goes through its length, a comparison or a copy.
\<close>

record Entry =
  Key :: bytes
  Value :: slice
  Timestamp :: int64
  Type :: byte

definition CloneBytes :: "slice \<Rightarrow> slice" where
  "CloneBytes b =
     (case b of None \<Rightarrow> None | Some bs \<Rightarrow> Some (copy_at 0 bs (replicate (length bs) 0)))"

definition NewPutEntry :: "int64 \<Rightarrow> bytes \<Rightarrow> slice \<Rightarrow> Entry" where
  "NewPutEntry now key val =
     \<lparr>Key = contents (CloneBytes (Some key)), Value = CloneBytes val,
      Timestamp = now, Type = OpPut\<rparr>"

definition NewPutEntryDirect :: "int64 \<Rightarrow> bytes \<Rightarrow> slice \<Rightarrow> Entry" where
  "NewPutEntryDirect now key val = \<lparr>Key = key, Value = val, Timestamp = now, Type = OpPut\<rparr>"

definition NewDeleteEntry :: "int64 \<Rightarrow> bytes \<Rightarrow> Entry" where
  "NewDeleteEntry now key =
     \<lparr>Key = contents (CloneBytes (Some key)), Value = None, Timestamp = now, Type = OpDelete\<rparr>"

definition IsTombstone :: "Entry \<Rightarrow> bool" where
  "IsTombstone e \<longleftrightarrow> Type e = OpDelete"

definition Size :: "Entry \<Rightarrow> nat" where
  "Size e = length (Key e) + length (contents (Value e)) + 16"

definition Compare :: "Entry \<Rightarrow> Entry \<Rightarrow> int" where
  "Compare e other =
     (let cmp = bytes_compare (Key e) (Key other)
      in if cmp \<noteq> 0 then cmp
         else if sint (Timestamp e) > sint (Timestamp other) then -1
         else if sint (Timestamp e) < sint (Timestamp other) then 1
         else 0)"

section \<open>Encoding\<close>

definition EncodedSize :: "Entry \<Rightarrow> nat" where
  "EncodedSize e = 15 + length (Key e) + length (contents (Value e))"

text \<open>\<open>dst = dst[:n]\<close> when the capacity allows it, a fresh zeroed buffer otherwise.\<close>

definition reuse_or_make :: "bytes \<Rightarrow> nat \<Rightarrow> bytes" where
  "reuse_or_make dst n = (if n \<le> length dst then take n dst else replicate n 0)"

definition EncodeTo :: "bytes \<Rightarrow> Entry \<Rightarrow> bytes" where
  "EncodeTo dst e =
     (let needed = EncodedSize e;
          d0 = reuse_or_make dst needed;
          d1 = copy_at 0 (PutUint64 (Timestamp e)) d0;
          d2 = copy_at 8 [Type e] d1;
          d3 = copy_at 9 (PutUint16 (word_of_nat (length (Key e)))) d2;
          d4 = copy_at 11 (PutUint32 (word_of_nat (length (contents (Value e))))) d3;
          d5 = copy_at 15 (Key e) d4
      in copy_at (15 + length (Key e)) (contents (Value e)) d5)"

definition EncodeFrameTo :: "bytes \<Rightarrow> Entry \<Rightarrow> bytes" where
  "EncodeFrameTo dst e =
     (let pLen = EncodedSize e;
          total = 8 + pLen;
          d0 = reuse_or_make dst total;
          d1 = copy_at 8 (PutUint64 (Timestamp e)) d0;
          d2 = copy_at 16 [Type e] d1;
          d3 = copy_at 17 (PutUint16 (word_of_nat (length (Key e)))) d2;
          d4 = copy_at 19 (PutUint32 (word_of_nat (length (contents (Value e))))) d3;
          d5 = copy_at 23 (Key e) d4;
          d6 = copy_at (23 + length (Key e)) (contents (Value e)) d5;
          checksum = ChecksumIEEE (subslice d6 8 total);
          d7 = copy_at 0 (PutUint32 checksum) d6
      in copy_at 4 (PutUint32 (word_of_nat pLen)) d7)"

definition Encode :: "Entry \<Rightarrow> bytes" where
  "Encode e = EncodeTo [] e"

text \<open>
  Decoding. A slice or an index out of range is the error \<open>DecodePanic\<close>; the first definition
  reads the fixed part \<open>data[0:15]\<close>, the second the key and the value behind it.
\<close>

datatype decode_error = InsufficientHeader | BufferTruncated | DecodePanic

definition read_header :: "bytes \<Rightarrow> (uint64 \<times> byte \<times> nat \<times> nat) option" where
  "read_header data =
     do {
       ts \<leftarrow> go_slice data 0 8;
       opType \<leftarrow> go_index data 8;
       kLen \<leftarrow> go_slice data 9 11;
       vLen \<leftarrow> go_slice data 11 15;
       Some (Uint64 ts, opType, unat (Uint16 kLen), unat (Uint32 vLen))
     }"

definition read_body :: "bytes \<Rightarrow> nat \<Rightarrow> nat \<Rightarrow> (bytes \<times> slice) option" where
  "read_body data kLen vLen =
     do {
       key \<leftarrow> go_slice data 15 (15 + kLen);
       val \<leftarrow> (if vLen > 0 then map_option Some (go_slice data (15 + kLen) (15 + kLen + vLen))
              else Some None);
       Some (key, val)
     }"

definition DecodeEntry :: "bytes \<Rightarrow> decode_error + Entry" where
  "DecodeEntry data =
     (if length data < 15 then Inl InsufficientHeader
      else case read_header data of
        None \<Rightarrow> Inl DecodePanic
      | Some (ts, opType, kLen, vLen) \<Rightarrow>
          if length data < 15 + kLen + vLen then Inl BufferTruncated
          else (case read_body data kLen vLen of
            None \<Rightarrow> Inl DecodePanic
          | Some (key, val) \<Rightarrow>
              Inr \<lparr>Key = copy_at 0 key (replicate kLen 0),
                   Value = map_option (\<lambda>v. copy_at 0 v (replicate vLen 0)) val,
                   Timestamp = ts, Type = opType\<rparr>))"

definition DecodeEntryZeroCopy :: "bytes \<Rightarrow> decode_error + Entry" where
  "DecodeEntryZeroCopy data =
     (if length data < 15 then Inl InsufficientHeader
      else case read_header data of
        None \<Rightarrow> Inl DecodePanic
      | Some (ts, opType, kLen, vLen) \<Rightarrow>
          if length data < 15 + kLen + vLen then Inl BufferTruncated
          else (case read_body data kLen vLen of
            None \<Rightarrow> Inl DecodePanic
          | Some (key, val) \<Rightarrow> Inr \<lparr>Key = key, Value = val, Timestamp = ts, Type = opType\<rparr>))"

section \<open>Lemmas\<close>

lemma copy_fresh [simp]: "length src = n \<Longrightarrow> copy_at 0 src (replicate n z) = src"
  by (simp add: copy_at_def)

lemma CloneBytes_id [simp]: "CloneBytes b = b"
  by (simp add: CloneBytes_def split: option.splits)

lemma NewPutEntry_simps [simp]:
  "Key (NewPutEntry t k v) = k" "Value (NewPutEntry t k v) = v"
  "Timestamp (NewPutEntry t k v) = t" "Type (NewPutEntry t k v) = OpPut"
  by (simp_all add: NewPutEntry_def)

lemma NewDeleteEntry_simps [simp]:
  "Key (NewDeleteEntry t k) = k" "Value (NewDeleteEntry t k) = None"
  "Timestamp (NewDeleteEntry t k) = t" "Type (NewDeleteEntry t k) = OpDelete"
  by (simp_all add: NewDeleteEntry_def)

lemma IsTombstone_new [simp]:
  "\<not> IsTombstone (NewPutEntry t k v)" "IsTombstone (NewDeleteEntry t k)"
  by (simp_all add: IsTombstone_def OpPut_def OpDelete_def)

lemma NewPutEntryDirect_eq: "NewPutEntryDirect t k v = NewPutEntry t k v"
  by (simp add: NewPutEntryDirect_def NewPutEntry_def)

text \<open>The fields of an encoded entry, in order.\<close>

definition entry_layout :: "Entry \<Rightarrow> bytes" where
  "entry_layout e =
     PutUint64 (Timestamp e) @ [Type e] @ PutUint16 (word_of_nat (length (Key e))) @
     PutUint32 (word_of_nat (length (contents (Value e)))) @ Key e @ contents (Value e)"

lemma length_entry_layout [simp, codec]: "length (entry_layout e) = EncodedSize e"
  by (simp add: entry_layout_def EncodedSize_def)

lemma length_reuse_or_make [simp]: "length (reuse_or_make dst n) = n"
  by (simp add: reuse_or_make_def)

text \<open>One field written after a finished prefix.\<close>

lemma copy_at_step:
  assumes "d = pre @ rest" "length pre = off" "length src \<le> length rest"
  shows "copy_at off src d = (pre @ src) @ drop (length src) rest"
  using assms by (simp add: copy_at_extends)

lemma fill_fields:
  assumes "length d = off + EncodedSize e"
  shows "copy_at (off + 15 + length (Key e)) (contents (Value e))
          (copy_at (off + 15) (Key e)
            (copy_at (off + 11) (PutUint32 (word_of_nat (length (contents (Value e)))))
              (copy_at (off + 9) (PutUint16 (word_of_nat (length (Key e))))
                (copy_at (off + 8) [Type e]
                  (copy_at off (PutUint64 (Timestamp e)) d))))) = take off d @ entry_layout e"
proof -
  define n where "n = EncodedSize e"
  have n: "n = 15 + length (Key e) + length (contents (Value e))"
    by (simp add: n_def EncodedSize_def)
  obtain pre rest where d: "d = pre @ rest" and pre: "length pre = off" and rest: "length rest = n"
    using assms by (metis append_take_drop_id length_append length_drop diff_add_inverse
        add_diff_cancel_right' n_def)
  note step = copy_at_step [OF refl]
  have "copy_at (off + 15 + length (Key e)) (contents (Value e))
          (copy_at (off + 15) (Key e)
            (copy_at (off + 11) (PutUint32 (word_of_nat (length (contents (Value e)))))
              (copy_at (off + 9) (PutUint16 (word_of_nat (length (Key e))))
                (copy_at (off + 8) [Type e]
                  (copy_at off (PutUint64 (Timestamp e)) (pre @ rest)))))) =
        (((((pre @ PutUint64 (Timestamp e)) @ [Type e]) @
          PutUint16 (word_of_nat (length (Key e)))) @
          PutUint32 (word_of_nat (length (contents (Value e))))) @ Key e) @ contents (Value e)"
    using pre rest n by (simp add: step del: append_assoc)
  then show ?thesis by (simp add: d pre entry_layout_def)
qed

lemma EncodeTo_layout: "EncodeTo dst e = entry_layout e"
  using fill_fields [of "reuse_or_make dst (EncodedSize e)" 0 e]
  by (simp add: EncodeTo_def Let_def)

lemma Encode_layout: "Encode e = entry_layout e"
  by (simp add: Encode_def EncodeTo_layout)

lemma length_Encode [simp, codec]: "length (Encode e) = EncodedSize e"
  by (simp add: Encode_layout)

text \<open>The frame of the write-ahead log: checksum, payload length, payload.\<close>

definition frame_layout :: "Entry \<Rightarrow> bytes" where
  "frame_layout e =
     PutUint32 (ChecksumIEEE (entry_layout e)) @ PutUint32 (word_of_nat (EncodedSize e)) @
     entry_layout e"

lemma EncodeFrameTo_layout: "EncodeFrameTo dst e = frame_layout e"
proof -
  define d0 where "d0 = reuse_or_make dst (8 + EncodedSize e)"
  have len: "length d0 = 8 + EncodedSize e" by (simp add: d0_def)
  have fill: "copy_at (23 + length (Key e)) (contents (Value e))
          (copy_at 23 (Key e)
            (copy_at 19 (PutUint32 (word_of_nat (length (contents (Value e)))))
              (copy_at 17 (PutUint16 (word_of_nat (length (Key e))))
                (copy_at 16 [Type e] (copy_at 8 (PutUint64 (Timestamp e)) d0))))) =
        take 8 d0 @ entry_layout e"
    using fill_fields [OF len] by simp
  obtain a b where ab: "take 8 d0 = a @ b" "length a = 4" "length b = 4"
    by (rule that [OF append_take_drop_id [symmetric], of 4]) (use len in auto)
  have sub: "subslice (take 8 d0 @ entry_layout e) 8 (8 + EncodedSize e) = entry_layout e"
    using len by (simp add: subslice_append_right subslice_full flip: length_entry_layout)
  show ?thesis
    unfolding EncodeFrameTo_def Let_def d0_def [symmetric] fill sub
    using ab by (simp add: copy_at_def frame_layout_def)
qed

lemma length_frame_layout [simp, codec]: "length (frame_layout e) = 8 + EncodedSize e"
  by (simp add: frame_layout_def)

lemma frame_layout_nonempty [simp]: "frame_layout e \<noteq> []"
  using length_frame_layout [of e] by (metis add_is_0 list.size(3) zero_neq_numeral)

section \<open>Decoding\<close>

text \<open>The sizes the header fields can hold; \<open>Put\<close> does not check them.\<close>

definition encodable :: "Entry \<Rightarrow> bool" where
  "encodable e \<longleftrightarrow> length (Key e) < 2 ^ 16 \<and> length (contents (Value e)) < 2 ^ 32"

text \<open>An empty value is read back as nil.\<close>

definition nil_empty :: "Entry \<Rightarrow> Entry" where
  "nil_empty e = (if contents (Value e) = [] then e\<lparr>Value := None\<rparr> else e)"

lemma nil_empty_simps [simp]:
  "Key (nil_empty e) = Key e" "contents (Value (nil_empty e)) = contents (Value e)"
  "Timestamp (nil_empty e) = Timestamp e" "Type (nil_empty e) = Type e"
  "IsTombstone (nil_empty e) = IsTombstone e" "encodable (nil_empty e) = encodable e"
  "nil_empty (nil_empty e) = nil_empty e"
  by (simp_all add: nil_empty_def IsTombstone_def encodable_def)

lemma entry_layout_nil_empty [simp]: "entry_layout (nil_empty e) = entry_layout e"
  by (simp add: entry_layout_def)

lemma read_header_eq:
  "15 \<le> length data \<Longrightarrow> read_header data =
     Some (Uint64 (subslice data 0 8), data ! 8, unat (Uint16 (subslice data 9 11)),
       unat (Uint32 (subslice data 11 15)))"
  by (simp add: read_header_def)

lemma read_body_eq:
  "15 + k + v \<le> length data \<Longrightarrow> read_body data k v =
     Some (subslice data 15 (15 + k), if v > 0 then Some (subslice data (15 + k) (15 + k + v)) else None)"
  by (simp add: read_body_def)

text \<open>No slice and no index of the decoders is out of range; this is what they compute.\<close>

lemma DecodeEntryZeroCopy_eq:
  "DecodeEntryZeroCopy data =
     (if length data < 15 then Inl InsufficientHeader
      else
        let k = unat (Uint16 (subslice data 9 11));
            v = unat (Uint32 (subslice data 11 15))
        in if length data < 15 + k + v then Inl BufferTruncated
           else Inr \<lparr>Key = subslice data 15 (15 + k),
                     Value = (if v > 0 then Some (subslice data (15 + k) (15 + k + v)) else None),
                     Timestamp = Uint64 (subslice data 0 8), Type = data ! 8\<rparr>)"
  by (simp add: DecodeEntryZeroCopy_def read_header_eq read_body_eq Let_def)

lemma DecodeEntry_zero_copy: "DecodeEntry data = DecodeEntryZeroCopy data"
  by (simp add: DecodeEntry_def DecodeEntryZeroCopy_def read_header_eq read_body_eq Let_def)

lemma DecodeEntry_no_panic: "DecodeEntry data \<noteq> Inl DecodePanic"
  by (auto simp: DecodeEntry_zero_copy DecodeEntryZeroCopy_eq Let_def)

text \<open>The header fields of encoded bytes, whatever follows them.\<close>

lemma header_of_layout:
  "Uint64 (subslice (entry_layout e @ z) 0 8) = Timestamp e"
  "(entry_layout e @ z) ! 8 = Type e"
  "Uint16 (subslice (entry_layout e @ z) 9 11) = word_of_nat (length (Key e))"
  "Uint32 (subslice (entry_layout e @ z) 11 15) = word_of_nat (length (contents (Value e)))"
  by (simp_all add: entry_layout_def subslice_def nth_append)

lemma body_of_layout:
  assumes "15 \<le> lo"
  shows "subslice (entry_layout e @ z) lo hi =
     subslice (Key e @ contents (Value e) @ z) (lo - 15) (hi - 15)"
proof -
  define hdr where "hdr = PutUint64 (Timestamp e) @ [Type e] @
    PutUint16 (word_of_nat (length (Key e))) @
    PutUint32 (word_of_nat (length (contents (Value e))))"
  have "length hdr = 15" "entry_layout e @ z = hdr @ (Key e @ contents (Value e) @ z)"
    by (simp_all add: hdr_def entry_layout_def)
  then show ?thesis using assms by (simp only: subslice_append_right)
qed

lemma header_nonzero:
  assumes "encodable e"
  shows "unat (word_of_nat (length (Key e)) :: uint16) = length (Key e)"
    "unat (word_of_nat (length (contents (Value e))) :: uint32) = length (contents (Value e))"
  using assms by (simp_all add: encodable_def unat_of_nat)

lemma decode_encode_append:
  assumes "encodable e"
  shows "DecodeEntry (entry_layout e @ z) = Inr (nil_empty e)"
proof -
  have "contents (Value e) \<noteq> [] \<Longrightarrow> Value e = Some (contents (Value e))"
    by (cases "Value e") auto
  moreover have "15 \<le> length (entry_layout e @ z)" by (simp add: EncodedSize_def)
  ultimately show ?thesis
    unfolding DecodeEntry_zero_copy
    by (simp add: DecodeEntryZeroCopy_eq header_of_layout header_nonzero [OF assms]
        body_of_layout nil_empty_def EncodedSize_def Let_def)
qed

section \<open>Comparison\<close>

lemma Compare_less:
  "Compare e f < 0 \<longleftrightarrow>
     Key e < Key f \<or> Key e = Key f \<and> sint (Timestamp f) < sint (Timestamp e)"
  by (auto simp: Compare_def Let_def)

lemma Compare_antisym: "Compare f e = - Compare e f"
proof -
  have "bytes_compare b a = - bytes_compare a b" for a b
    by (induction a b rule: bytes_compare.induct) auto
  note neg = this [of "Key f" "Key e"]
  show ?thesis unfolding Compare_def Let_def neg by auto
qed

section \<open>Properties\<close>

text \<open>
  C40. Round trip. An entry whose key and value fit the header fields, encoded into any reused
  buffer and followed by any bytes, decodes to the same entry (an empty value as nil).
\<close>

theorem entry_round_trip:
  assumes "length (Key e) < 2 ^ 16" "length (contents (Value e)) < 2 ^ 32"
  shows "DecodeEntry (EncodeTo dst e @ z) = Inr (nil_empty e) \<and>
    DecodeEntryZeroCopy (EncodeTo dst e @ z) = Inr (nil_empty e)"
  using decode_encode_append [of e z] assms
  by (simp add: EncodeTo_layout encodable_def flip: DecodeEntry_zero_copy)

theorem entry_round_trip_witness:
  "DecodeEntry (EncodeTo [9, 9, 9] (NewDeleteEntry 5 [107]) @ [1]) = Inr (NewDeleteEntry 5 [107])"
proof -
  have "length (Key (NewDeleteEntry 5 [107])) < 2 ^ 16"
    "length (contents (Value (NewDeleteEntry 5 [107]))) < 2 ^ 32" by simp_all
  from entry_round_trip [OF this, of "[9, 9, 9]" "[1]"] show ?thesis
    by (simp add: nil_empty_def NewDeleteEntry_def)
qed

text \<open>The bytes behind the fields of a decoded entry.\<close>

lemma split_header:
  assumes "15 \<le> length data"
  shows "take 15 data = subslice data 0 8 @ [data ! 8] @ subslice data 9 11 @ subslice data 11 15"
proof -
  have "take 15 data = subslice data 0 8 @ subslice data 8 9 @ subslice data 9 11 @ subslice data 11 15"
    by (rule nth_equalityI) (use assms in \<open>auto simp: subslice_def nth_append less_diff_conv\<close>)
  moreover have "subslice data 8 9 = [data ! 8]"
    using assms by (simp add: subslice_def take_Suc_conv_app_nth hd_drop_conv_nth take_Suc)
  ultimately show ?thesis by simp
qed

lemma body_split:
  assumes "a \<le> b" "b \<le> c"
  shows "subslice data a b @ subslice data b c = subslice data a c"
proof -
  obtain x y where "b = a + x" "c = a + x + y"
    using assms by (metis le_iff_add)
  then show ?thesis by (simp add: subslice_def take_add add.commute)
qed

text \<open>
  Decoding is sound. Whenever a buffer decodes to an entry, the entry fits the header fields
  and the buffer starts with exactly its encoding, so distinct encodings never share a decoding.
\<close>

lemma entry_decode_sound:
  assumes "DecodeEntry data = Inr e"
  shows "length (Key e) < 2 ^ 16 \<and> length (contents (Value e)) < 2 ^ 32 \<and>
    EncodedSize e \<le> length data \<and> Encode e = take (EncodedSize e) data"
proof -
  define k where "k = unat (Uint16 (subslice data 9 11))"
  define v where "v = unat (Uint32 (subslice data 11 15))"
  have len: "15 + k + v \<le> length data"
    and e: "e = \<lparr>Key = subslice data 15 (15 + k),
                Value = (if v > 0 then Some (subslice data (15 + k) (15 + k + v)) else None),
                Timestamp = Uint64 (subslice data 0 8), Type = data ! 8\<rparr>"
    using assms unfolding DecodeEntry_zero_copy DecodeEntryZeroCopy_eq
    by (auto simp: Let_def k_def v_def split: if_splits)
  have kv: "length (Key e) = k" "length (contents (Value e)) = v"
    "contents (Value e) = subslice data (15 + k) (15 + k + v)"
    using len by (auto simp: e subslice_def)
  have "k < 2 ^ 16" "v < 2 ^ 32"
    using unat_bound [of "Uint16 (subslice data 9 11)"] unat_bound [of "Uint32 (subslice data 11 15)"]
    by (simp_all add: k_def v_def)
  moreover have "entry_layout e = take (15 + k + v) data"
  proof -
    have "entry_layout e = take 15 data @ subslice data 15 (15 + k) @
        subslice data (15 + k) (15 + k + v)"
      unfolding entry_layout_def kv using len
      by (subst split_header) (auto simp: e k_def v_def codec)
    also have "\<dots> = subslice data 0 15 @ subslice data 15 (15 + k + v)"
      by (subst body_split) (simp_all add: subslice_def)
    also have "\<dots> = take (15 + k + v) data"
      by (subst body_split) (simp_all add: subslice_def)
    finally show ?thesis .
  qed
  ultimately show ?thesis
    using len kv by (simp add: Encode_layout EncodedSize_def)
qed

lemma entry_decode_sound_witness:
  "Encode (NewPutEntry 7 [107] (Some [118])) = take 17 (Encode (NewPutEntry 7 [107] (Some [118])) @ [3])"
proof -
  have "DecodeEntry (Encode (NewPutEntry 7 [107] (Some [118])) @ [3]) =
      Inr (NewPutEntry 7 [107] (Some [118]))"
    using decode_encode_append [of "NewPutEntry 7 [107] (Some [118])" "[3]"]
    by (simp add: encodable_def nil_empty_def Encode_layout)
  from entry_decode_sound [OF this] show ?thesis by (simp add: EncodedSize_def)
qed

text \<open>
  The key length is stored in 16 bits without a check. The encoding of an entry with a longer
  key decodes without error, to an entry whose key is a proper prefix of the key that was written.
\<close>

lemma entry_long_key_truncated:
  assumes "2 ^ 16 \<le> length (Key e)" "length (contents (Value e)) < 2 ^ 32"
  shows "\<exists>e'. DecodeEntry (Encode e) = Inr e' \<and>
    Key e' = take (length (Key e) mod 2 ^ 16) (Key e) \<and> Key e' \<noteq> Key e"
proof -
  let ?k = "length (Key e) mod 2 ^ 16" and ?v = "length (contents (Value e))"
  have k: "unat (word_of_nat (length (Key e)) :: uint16) = ?k" by (simp add: unat_of_nat)
  have v: "unat (word_of_nat ?v :: uint32) = ?v" using assms(2) by (rule unat_of_nat32)
  have le: "?k < length (Key e)" 
    using assms(1) mod_less_divisor [of "2 ^ 16" "length (Key e)", OF zero_less_power [OF zero_less_numeral]]
    by linarith
  have "DecodeEntryZeroCopy (entry_layout e @ []) =
      Inr \<lparr>Key = subslice (entry_layout e @ []) 15 (15 + ?k),
           Value = (if ?v > 0 then Some (subslice (entry_layout e @ []) (15 + ?k) (15 + ?k + ?v)) else None),
           Timestamp = Timestamp e, Type = Type e\<rparr>"
    using le unfolding DecodeEntryZeroCopy_eq header_of_layout k v Let_def
    by (simp add: EncodedSize_def)
  moreover have "subslice (entry_layout e @ []) 15 (15 + ?k) = take ?k (Key e)"
    by (subst body_of_layout) (use le in \<open>simp_all add: subslice_def\<close>)
  moreover have "take ?k (Key e) \<noteq> Key e" using le by (metis length_take min.strict_order_iff min.commute nat_neq_iff)
  ultimately show ?thesis by (simp add: Encode_layout DecodeEntry_zero_copy)
qed

lemma entry_long_key_truncated_witness:
  "\<exists>e'. DecodeEntry (Encode (NewPutEntry 1 (replicate 65536 107) None)) = Inr e' \<and> Key e' = []"
proof -
  have "2 ^ 16 \<le> length (Key (NewPutEntry 1 (replicate 65536 107) None))"
    "length (contents (Value (NewPutEntry 1 (replicate 65536 107) None))) < 2 ^ 32" by simp_all
  from entry_long_key_truncated [OF this] show ?thesis by auto
qed

end
