(* ===== verification/Block.thy ===== *)
theory Block
  imports Entry
begin

text \<open>
  \<open>pkg/sstable/block.go\<close>: data blocks. Decoding makes two passes over the payload, one that
  counts the entries and checks their lengths, one that fills the preallocated array. Every slice
  and index is checked as Go's run time checks it; one out of range is the error \<open>BlockPanic\<close>,
  which is proved not to occur.
\<close>

section \<open>Operations\<close>

datatype block_error =
  BlockCorrupt | BlockChecksumMismatch | BlockEntryHeader | BlockEntryTruncated | BlockPanic

definition block_append :: "bytes \<Rightarrow> Entry \<Rightarrow> bytes" where
  "block_append payload entry =
     (let data = Encode entry
      in payload @ PutUint32 (word_of_nat (length data)) @ data)"

definition Block_Encode :: "Entry list \<Rightarrow> bytes" where
  "Block_Encode es =
     (let payload = foldl block_append [] es
      in payload @ PutUint32 (ChecksumIEEE payload))"

text \<open>The first pass.\<close>

function count_entries :: "bytes \<Rightarrow> nat \<Rightarrow> nat \<Rightarrow> block_error + nat" where
  "count_entries payload off count =
     (if off < length payload
      then if off + 4 > length payload then Inl BlockCorrupt
           else case go_slice payload off (off + 4) of
                  None \<Rightarrow> Inl BlockPanic
                | Some lenBytes \<Rightarrow>
                    let off' = off + (4 + unat (Uint32 lenBytes))
                    in if off' > length payload then Inl BlockCorrupt
                       else count_entries payload off' (count + 1)
      else Inr count)"
  by pat_completeness auto
termination by (relation "measure (\<lambda>(p, off, c). length p - off)") auto

declare count_entries.simps [simp del]

text \<open>One entry of the second pass: \<open>core.DecodeEntryZeroCopy\<close>, written out in the loop.\<close>

definition decode_slot :: "bytes \<Rightarrow> block_error + Entry" where
  "decode_slot entryBytes =
     (if length entryBytes < 15 then Inl BlockEntryHeader
      else case do {
             kLen \<leftarrow> go_slice entryBytes 9 11;
             vLen \<leftarrow> go_slice entryBytes 11 15;
             Some (unat (Uint16 kLen), unat (Uint32 vLen))
           } of
        None \<Rightarrow> Inl BlockPanic
      | Some (kLen, vLen) \<Rightarrow>
          if length entryBytes < 15 + kLen + vLen then Inl BlockEntryTruncated
          else (case do {
             ts \<leftarrow> go_slice entryBytes 0 8;
             opType \<leftarrow> go_index entryBytes 8;
             (key, val) \<leftarrow> read_body entryBytes kLen vLen;
             Some \<lparr>Key = key, Value = val, Timestamp = Uint64 ts, Type = opType\<rparr>
           } of
             None \<Rightarrow> Inl BlockPanic
           | Some e \<Rightarrow> Inr e))"

text \<open>
  The second pass, into the preallocated array \<open>buf\<close>. It repeats none of the first pass's checks.
\<close>

function fill_entries :: "bytes \<Rightarrow> nat \<Rightarrow> nat \<Rightarrow> Entry list \<Rightarrow> block_error + Entry list" where
  "fill_entries payload off idx buf =
     (if off < length payload
      then case go_slice payload off (off + 4) of
             None \<Rightarrow> Inl BlockPanic
           | Some lenBytes \<Rightarrow>
               let entryLen = unat (Uint32 lenBytes);
                   off1 = off + 4
               in (case go_slice payload off1 (off1 + entryLen) of
                     None \<Rightarrow> Inl BlockPanic
                   | Some entryBytes \<Rightarrow>
                       (case decode_slot entryBytes of
                          Inl err \<Rightarrow> Inl err
                        | Inr e \<Rightarrow>
                            if idx \<ge> length buf then Inl BlockPanic
                            else fill_entries payload (off1 + entryLen) (idx + 1) (buf[idx := e])))
      else Inr buf)"
  by pat_completeness auto
termination by (relation "measure (\<lambda>(p, off, i, b). length p - off)") auto

declare fill_entries.simps [simp del]

definition zero_entry :: Entry where
  "zero_entry = \<lparr>Key = [], Value = None, Timestamp = 0, Type = 0\<rparr>"

text \<open>
  The difference of the lengths is exact behind the first guard; without the guard the four
  trailing bytes are not there and \<open>go_Uint32\<close> panics, as \<open>data[:-1]\<close> does.
\<close>

definition DecodeBlock :: "bytes \<Rightarrow> block_error + Entry list" where
  "DecodeBlock data =
     (if length data < 4 then Inl BlockCorrupt
      else
        let payloadLen = length data - 4
        in case do {
             payload \<leftarrow> go_slice data 0 payloadLen;
             trailer \<leftarrow> go_slice data payloadLen (length data);
             expectedChecksum \<leftarrow> go_Uint32 trailer;
             Some (payload, expectedChecksum)
           } of
             None \<Rightarrow> Inl BlockPanic
           | Some (payload, expectedChecksum) \<Rightarrow>
               if ChecksumIEEE payload \<noteq> expectedChecksum then Inl BlockChecksumMismatch
               else (case count_entries payload 0 0 of
                  Inl err \<Rightarrow> Inl err
                | Inr count \<Rightarrow> fill_entries payload 0 0 (replicate count zero_entry)))"

section \<open>The checks\<close>

text \<open>What the three parts compute once their slices are known to be in range.\<close>

lemma count_entries_step:
  "count_entries p off c =
     (if off < length p
      then if off + 4 > length p then Inl BlockCorrupt
           else let off' = off + (4 + unat (Uint32 (subslice p off (off + 4))))
                in if off' > length p then Inl BlockCorrupt else count_entries p off' (c + 1)
      else Inr c)"
  by (subst count_entries.simps) simp

lemma fill_entries_step:
  "off + 4 + unat (Uint32 (subslice p off (off + 4))) \<le> length p \<Longrightarrow>
   fill_entries p off i b =
     (let n = unat (Uint32 (subslice p off (off + 4)))
      in case decode_slot (subslice p (off + 4) (off + 4 + n)) of
           Inl err \<Rightarrow> Inl err
         | Inr e \<Rightarrow> if i \<ge> length b then Inl BlockPanic
             else fill_entries p (off + 4 + n) (i + 1) (b[i := e]))"
  by (subst fill_entries.simps) (simp add: Let_def)

lemma DecodeBlock_eq:
  "DecodeBlock data =
     (if length data < 4 then Inl BlockCorrupt
      else
        let payload = take (length data - 4) data
        in if ChecksumIEEE payload \<noteq> Uint32 (drop (length data - 4) data) then Inl BlockChecksumMismatch
           else (case count_entries payload 0 0 of
                  Inl err \<Rightarrow> Inl err
                | Inr count \<Rightarrow> fill_entries payload 0 0 (replicate count zero_entry)))"
  by (simp add: DecodeBlock_def go_Uint32_def subslice_def Let_def)

section \<open>The layout\<close>

definition storable :: "Entry \<Rightarrow> bool" where
  "storable e \<longleftrightarrow> encodable e \<and> EncodedSize e < 2 ^ 32"

definition slot :: "Entry \<Rightarrow> bytes" where
  "slot e = PutUint32 (word_of_nat (EncodedSize e)) @ entry_layout e"

lemma length_slot [simp, codec]: "length (slot e) = 4 + EncodedSize e"
  by (simp add: slot_def)

lemma slot_nil_empty [simp]: "slot (nil_empty e) = slot e"
  by (simp add: slot_def EncodedSize_def)

lemma storable_nil_empty [simp]: "storable (nil_empty e) = storable e"
  by (simp add: storable_def EncodedSize_def)

lemma foldl_block_append: "foldl block_append p es = p @ concat (map slot es)"
  by (induction es arbitrary: p) (simp_all add: block_append_def Encode_layout slot_def Let_def)

lemma Block_Encode_layout:
  "Block_Encode es = concat (map slot es) @ PutUint32 (ChecksumIEEE (concat (map slot es)))"
  by (simp add: Block_Encode_def foldl_block_append Let_def)

lemma length_Block_Encode: "length (Block_Encode es) = (\<Sum>e\<leftarrow>es. 4 + EncodedSize e) + 4"
  by (simp add: Block_Encode_layout length_concat comp_def)

lemma decode_slot_zero_copy:
  "decode_slot b = (case DecodeEntryZeroCopy b of
     Inl InsufficientHeader \<Rightarrow> Inl BlockEntryHeader
   | Inl BufferTruncated \<Rightarrow> Inl BlockEntryTruncated
   | Inl DecodePanic \<Rightarrow> Inl BlockPanic
   | Inr e \<Rightarrow> Inr e)"
  by (simp add: decode_slot_def DecodeEntryZeroCopy_eq read_body_eq Let_def)

lemma decode_slot_no_panic: "decode_slot b \<noteq> Inl BlockPanic"
  by (auto simp: decode_slot_zero_copy DecodeEntry_no_panic [unfolded DecodeEntry_zero_copy]
      split: sum.splits decode_error.splits)

lemma decode_slot_layout: "storable e \<Longrightarrow> decode_slot (entry_layout e) = Inr (nil_empty e)"
  using decode_encode_append [of e "[]"]
  by (simp add: decode_slot_zero_copy storable_def flip: DecodeEntry_zero_copy)

lemma slot_header:
  assumes "storable e"
  shows "unat (Uint32 (subslice (pre @ slot e @ post) (length pre) (length pre + 4))) = EncodedSize e"
    "subslice (pre @ slot e @ post) (length pre + 4) (length pre + 4 + EncodedSize e) = entry_layout e"
proof -
  have "subslice (pre @ slot e @ post) (length pre) (length pre + 4) =
      PutUint32 (word_of_nat (EncodedSize e))"
    by (simp add: slot_def subslice_append_right)
  then show "unat (Uint32 (subslice (pre @ slot e @ post) (length pre) (length pre + 4))) = EncodedSize e"
    using assms by (simp add: storable_def unat_of_nat32)
  show "subslice (pre @ slot e @ post) (length pre + 4) (length pre + 4 + EncodedSize e) = entry_layout e"
    by (simp add: slot_def subslice_append_right)
qed

lemma count_entries_slots:
  "\<forall>e\<in>set es. storable e \<Longrightarrow>
   count_entries (pre @ concat (map slot es)) (length pre) c = Inr (c + length es)"
proof (induction es arbitrary: pre c)
  case Nil
  then show ?case by (subst count_entries.simps) simp
next
  case (Cons e es)
  have "count_entries (pre @ slot e @ concat (map slot es)) (length pre) c =
      count_entries ((pre @ slot e) @ concat (map slot es)) (length (pre @ slot e)) (c + 1)"
    using slot_header(1) [of e pre "concat (map slot es)"] Cons.prems
    by (subst count_entries_step) (simp add: Let_def add.assoc)
  then show ?case using Cons.IH [of "pre @ slot e" "c + 1"] Cons.prems by simp
qed

lemma fill_entries_slots:
  "\<forall>e\<in>set es. storable e \<Longrightarrow>
   fill_entries (pre @ concat (map slot es)) (length pre) (length done)
     (done @ replicate (length es) zero_entry) = Inr (done @ map nil_empty es)"
proof (induction es arbitrary: pre "done")
  case Nil
  then show ?case by (subst fill_entries.simps) simp
next
  case (Cons e es)
  have st: "storable e" using Cons.prems by simp
  have "fill_entries (pre @ slot e @ concat (map slot es)) (length pre) (length done)
        (done @ replicate (length (e # es)) zero_entry) =
      fill_entries ((pre @ slot e) @ concat (map slot es)) (length (pre @ slot e))
        (length (done @ [nil_empty e])) ((done @ [nil_empty e]) @ replicate (length es) zero_entry)"
    using slot_header [OF st, of pre "concat (map slot es)"]
    by (subst fill_entries_step) (simp_all add: Let_def add.assoc decode_slot_layout [OF st])
  then show ?case using Cons.IH [of "pre @ slot e" "done @ [nil_empty e]"] Cons.prems by simp
qed

lemma DecodeBlock_Encode:
  assumes "\<forall>e\<in>set es. storable e"
  shows "DecodeBlock (Block_Encode es) = Inr (map nil_empty es)"
  using count_entries_slots [OF assms, of "[]" 0] fill_entries_slots [OF assms, of "[]" "[]"]
  by (simp add: DecodeBlock_eq Block_Encode_layout Let_def)

section \<open>Properties\<close>

text \<open>
  C36. Block round trip. A block of entries whose lengths fit their headers is decoded
  to the same entries in the same order, an empty value becoming nil; decoding checks the
  checksum and both passes agree.
\<close>

theorem block_round_trip:
  assumes "\<forall>e\<in>set es. length (Key e) < 2 ^ 16 \<and> length (contents (Value e)) < 2 ^ 32 - 2 ^ 17"
  shows "DecodeBlock (Block_Encode es) = Inr (map nil_empty es)"
proof (rule DecodeBlock_Encode)
  show "\<forall>e\<in>set es. storable e"
    using assms by (auto simp: storable_def encodable_def EncodedSize_def)
qed

theorem block_round_trip_witness:
  "DecodeBlock (Block_Encode [NewPutEntry 3 [1] (Some []), NewDeleteEntry 4 [2]]) =
    Inr [NewPutEntry 3 [1] None, NewDeleteEntry 4 [2]]"
proof -
  have "\<forall>e\<in>set [NewPutEntry 3 [1] (Some []), NewDeleteEntry 4 [2]].
      length (Key e) < 2 ^ 16 \<and> length (contents (Value e)) < 2 ^ 32 - 2 ^ 17" by simp
  from block_round_trip [OF this] show ?thesis
    by (simp add: nil_empty_def NewPutEntry_def NewDeleteEntry_def)
qed

lemma count_no_panic: "count_entries p off c \<noteq> Inl BlockPanic"
  by (induction p off c rule: count_entries.induct) (subst count_entries_step, auto simp: Let_def)

text \<open>The second pass never leaves what the first one has checked.\<close>

lemma fill_after_count:
  "count_entries p off c = Inr n \<Longrightarrow> n - c \<le> length buf - idx \<Longrightarrow> idx \<le> length buf \<Longrightarrow>
   fill_entries p off idx buf \<noteq> Inl BlockPanic \<and> c \<le> n \<and>
   (\<forall>es. fill_entries p off idx buf = Inr es \<longrightarrow> length es = length buf)"
proof (induction p off c arbitrary: idx buf rule: count_entries.induct)
  case (1 p off c)
  define len where "len = unat (Uint32 (subslice p off (off + 4)))"
  show ?case
  proof (cases "off < length p")
    case False
    then have "fill_entries p off idx buf = Inr buf" "count_entries p off c = Inr c"
      by (simp_all add: fill_entries.simps count_entries.simps)
    then show ?thesis using 1(2) by simp
  next
    case True
    have c: "off + 4 \<le> length p" "off + 4 + len \<le> length p"
        "count_entries p (off + 4 + len) (c + 1) = Inr n"
      using 1(2) True
      by (subst (asm) count_entries_step, simp add: len_def Let_def not_less add.assoc split: if_splits)+
    have unfold: "fill_entries p off idx buf =
        (case decode_slot (subslice p (off + 4) (off + 4 + len)) of
           Inl err \<Rightarrow> Inl err
         | Inr e \<Rightarrow> if idx \<ge> length buf then Inl BlockPanic
             else fill_entries p (off + 4 + len) (idx + 1) (buf[idx := e]))"
      using c(2) by (subst fill_entries_step) (simp_all add: Let_def flip: len_def)
    have IH: "n - (c + 1) \<le> length b - i \<Longrightarrow> i \<le> length b \<Longrightarrow>
        fill_entries p (off + 4 + len) i b \<noteq> Inl BlockPanic \<and> c + 1 \<le> n \<and>
        (\<forall>es. fill_entries p (off + 4 + len) i b = Inr es \<longrightarrow> length es = length b)" for i b
      using 1(1) [OF True _ go_slice_within refl, where idx = i and buf = b] c by (simp add: len_def add.assoc)
    have le: "c + 1 \<le> n" using IH [of "replicate (n - (c + 1)) zero_entry" 0] by simp
    show ?thesis
    proof (cases "decode_slot (subslice p (off + 4) (off + 4 + len))")
      case (Inl err)
      then have "err \<noteq> BlockPanic" using decode_slot_no_panic by metis
      then show ?thesis using Inl le by (simp add: unfold)
    next
      case (Inr e)
      have "idx < length buf" using 1(3) le by linarith
      then have eq: "fill_entries p off idx buf =
          fill_entries p (off + 4 + len) (idx + 1) (buf[idx := e])"
        unfolding unfold Inr by simp
      have "n - (c + 1) \<le> length (buf[idx := e]) - (idx + 1)" "idx + 1 \<le> length (buf[idx := e])"
        using 1(3) \<open>idx < length buf\<close> by simp_all
      from IH [OF this] show ?thesis unfolding eq by simp
    qed
  qed
qed

text \<open>
  C38. Decoding arbitrary bytes. Whatever the bytes are, damaged or not, decoding a block
  returns a block or one of the errors: no slice and no index, of the payload, of an entry's bytes
  or of the preallocated array, is out of range, so decoding does not panic. The second pass relies
  on the first one for its offsets and on the two length checks of each entry.
\<close>

theorem block_decode_never_panics: "DecodeBlock data \<noteq> Inl BlockPanic"
proof -
  have "fill_entries p 0 0 (replicate n zero_entry) \<noteq> Inl BlockPanic" if "count_entries p 0 0 = Inr n" for p n
    using fill_after_count [OF that, of "replicate n zero_entry" 0] by simp
  then show ?thesis using count_no_panic by (auto simp: DecodeBlock_eq Let_def split: sum.splits)
qed

text \<open>
  C37. Bit rot. Changing any one byte of an encoded block, in an entry, in a length or in
  the checksum itself, makes decoding report a checksum mismatch.
\<close>

theorem block_detects_changed_byte:
  assumes "Block_Encode es = xs @ a # ys" "a \<noteq> b"
  shows "DecodeBlock (xs @ b # ys) = Inl BlockChecksumMismatch"
proof -
  define p where "p = concat (map slot es)"
  define t where "t = PutUint32 (ChecksumIEEE p)"
  have enc: "p @ t = xs @ a # ys" using assms(1) by (simp add: Block_Encode_layout p_def t_def)
  have len: "length t = 4" "length (xs @ b # ys) = length p + 4"
    using arg_cong [OF enc, of length] by (simp_all add: t_def)
  have "ChecksumIEEE (take (length p) (xs @ b # ys)) \<noteq> Uint32 (drop (length p) (xs @ b # ys))"
  proof (cases "length xs < length p")
    case True
    obtain us where us: "p = xs @ a # us" "ys = us @ t"
    proof -
      have "take (length p) (p @ t) = take (length p) (xs @ a # ys)" using enc by simp
      then have "p = xs @ a # take (length p - length xs - 1) ys"
        using True by (simp add: take_Cons')
      moreover have "t = drop (length p) (xs @ a # ys)" by (simp flip: enc)
      then have "t = drop (length p - length xs - 1) ys" using True by (simp add: drop_Cons')
      ultimately show ?thesis using that by (metis append_take_drop_id)
    qed
    have "Uint32 t = ChecksumIEEE (xs @ a # us)" by (simp add: t_def flip: us(1))
    moreover have "ChecksumIEEE (xs @ b # us) \<noteq> ChecksumIEEE (xs @ a # us)"
      using crc_detects_one_byte assms(2) by metis
    moreover have "length p = length (xs @ b # us)" by (simp add: us(1))
    ultimately show ?thesis by (simp add: us(2))
  next
    case False
    obtain vs where vs: "xs = p @ vs" "t = vs @ a # ys"
    proof -
      have "p = take (length p) xs" using arg_cong [OF enc, of "take (length p)"] False by simp
      moreover have "t = drop (length p) xs @ a # ys"
        using arg_cong [OF enc, of "drop (length p)"] False by simp
      ultimately show ?thesis using that by (metis append_take_drop_id)
    qed
    have l4: "length (vs @ b # ys) = 4" using len(1) by (simp add: vs)
    have "Uint32 (vs @ b # ys) \<noteq> ChecksumIEEE p"
    proof
      assume "Uint32 (vs @ b # ys) = ChecksumIEEE p"
      then have "vs @ b # ys = t" using Put_Uint32 [OF l4] by (simp add: t_def)
      then show False using assms(2) by (simp add: vs)
    qed
    then show ?thesis by (simp add: vs(1))
  qed
  then show ?thesis using len(2) by (simp add: DecodeBlock_eq Let_def)
qed

theorem block_detects_changed_byte_witness:
  "DecodeBlock ([0, 0, 0, 16] @ 1 # tl (Encode (NewPutEntry 0 [7] None)) @
      PutUint32 (ChecksumIEEE (slot (NewPutEntry 0 [7] None)))) = Inl BlockChecksumMismatch"
proof (rule block_detects_changed_byte)
  show "Block_Encode [NewPutEntry 0 [7] None] = [0, 0, 0, 16] @ 0 # tl (Encode (NewPutEntry 0 [7] None)) @
      PutUint32 (ChecksumIEEE (slot (NewPutEntry 0 [7] None)))"
    by (simp add: Block_Encode_layout slot_def EncodedSize_def Encode_layout entry_layout_def
        PutUint32_def PutUint64_def be_enc_numeral)
qed simp

end
