(* ===== verification/Bloom.thy ===== *)
theory Bloom
  imports GoLib
begin

text \<open>
  \<open>pkg/sstable/bloom.go\<close>: the Bloom filter. Words keep their 64 and 32 bits, so the probe
  positions wrap as in the code. The two results of floating-point arithmetic in the constructor
  are its arguments; everything is proved for any of their values. Division by zero and an index
  out of range are \<open>None\<close>.
\<close>

section \<open>Operations\<close>

record BloomFilter =
  bfBitmap :: bytes
  bfBits :: uint64
  bfK :: uint32

text \<open>
  \<open>m_ceil n\<close> is \<open>uint64(math.Ceil(m))\<close>, and \<open>k_round bits n\<close> is
  \<open>uint32(math.Round(float64(bits) / float64(n) * math.Ln2))\<close>.
\<close>

definition NewBloomFilter :: "(int \<Rightarrow> uint64) \<Rightarrow> (uint64 \<Rightarrow> int \<Rightarrow> uint32) \<Rightarrow> int \<Rightarrow> BloomFilter" where
  "NewBloomFilter m_ceil k_round n0 =
     (let n = (if n0 \<le> 0 then 1000 else n0);
          bits0 = m_ceil n;
          bits1 = (if bits0 mod 8 \<noteq> 0 then (bits0 div 8 + 1) * 8 else bits0);
          bits = (if bits1 < 64 then 64 else bits1);
          k0 = k_round bits n;
          k1 = (if k0 < 1 then 1 else k0);
          k = (if k1 > 30 then 30 else k1)
      in \<lparr>bfBitmap = replicate (unat (bits div 8)) 0, bfBits = bits, bfK = k\<rparr>)"

definition doubleHash :: "bytes \<Rightarrow> uint64 \<times> uint64" where
  "doubleHash key =
     (let h = fnv64a key;
          h = h XOR drop_bit 30 h;
          h = h * 0xbf58476d1ce4e5b9;
          h = h XOR drop_bit 27 h;
          h = h * 0x94d049bb133111eb;
          h = h XOR drop_bit 31 h;
          h1 = ucast (ucast h :: uint32);
          h2 = ucast (ucast (drop_bit 32 h) :: uint32)
      in (h1, if h2 = 0 then 1 else h2))"

text \<open>\<open>(h1 + uint64(i)*h2) % bf.bits\<close>, and the byte and the mask of a position.\<close>

definition probe :: "uint64 \<times> uint64 \<Rightarrow> uint64 \<Rightarrow> nat \<Rightarrow> uint64" where
  "probe h bits i = (fst h + word_of_nat i * snd h) mod bits"

definition bit_mask :: "uint64 \<Rightarrow> byte" where
  "bit_mask idx = push_bit (unat (idx mod 8)) 1"

fun add_probes :: "uint64 \<times> uint64 \<Rightarrow> uint64 \<Rightarrow> nat list \<Rightarrow> bytes \<Rightarrow> bytes option" where
  "add_probes h bits [] bm = Some bm"
| "add_probes h bits (i # js) bm =
     (if bits = 0 then None
      else let idx = probe h bits i;
               b = unat (idx div 8)
           in if b < length bm then add_probes h bits js (bm[b := bm ! b OR bit_mask idx])
              else None)"

definition Bloom_Add :: "bytes \<Rightarrow> BloomFilter \<Rightarrow> BloomFilter option" where
  "Bloom_Add key bf =
     map_option (\<lambda>bm. bf\<lparr>bfBitmap := bm\<rparr>)
       (add_probes (doubleHash key) (bfBits bf) [0..<unat (bfK bf)] (bfBitmap bf))"

fun test_probes :: "uint64 \<times> uint64 \<Rightarrow> uint64 \<Rightarrow> nat list \<Rightarrow> bytes \<Rightarrow> bool option" where
  "test_probes h bits [] bm = Some True"
| "test_probes h bits (i # js) bm =
     (let idx = probe h bits i;
          b = unat (idx div 8)
      in if b < length bm
         then if bm ! b AND bit_mask idx = 0 then Some False else test_probes h bits js bm
         else None)"

definition MayContain :: "BloomFilter \<Rightarrow> bytes \<Rightarrow> bool option" where
  "MayContain bf key =
     (if bfBits bf = 0 \<or> length (bfBitmap bf) = 0 then Some True
      else test_probes (doubleHash key) (bfBits bf) [0..<unat (bfK bf)] (bfBitmap bf))"

definition Bloom_Encode :: "BloomFilter \<Rightarrow> bytes" where
  "Bloom_Encode bf =
     (let buf = replicate (8 + 4 + 4 + length (bfBitmap bf)) 0;
          buf = copy_at 0 (PutUint64 (bfBits bf)) buf;
          buf = copy_at 8 (PutUint32 (bfK bf)) buf;
          buf = copy_at 12 (PutUint32 (word_of_nat (length (bfBitmap bf)))) buf
      in copy_at 16 (bfBitmap bf) buf)"

datatype bloom_error = BloomTooShort | BloomTruncated

definition DecodeBloomFilter :: "bytes \<Rightarrow> bloom_error + BloomFilter" where
  "DecodeBloomFilter data =
     (if length data < 16 then Inl BloomTooShort
      else
        let bits = Uint64 (subslice data 0 8);
            k = Uint32 (subslice data 8 12);
            bLen = unat (Uint32 (subslice data 12 16))
        in if length data < 16 + bLen then Inl BloomTruncated
           else Inr \<lparr>bfBitmap = subslice data 16 (16 + bLen), bfBits = bits, bfK = k\<rparr>)"

section \<open>Well-formed filters\<close>

text \<open>Every probe position lies in the bitmap.\<close>

definition bloom_ok :: "BloomFilter \<Rightarrow> bool" where
  "bloom_ok bf \<longleftrightarrow> bfBits bf \<noteq> 0 \<and> unat (bfBits bf) = 8 * length (bfBitmap bf)"

text \<open>All the bits of a key are set.\<close>

definition bloom_has :: "BloomFilter \<Rightarrow> bytes \<Rightarrow> bool" where
  "bloom_has bf key \<longleftrightarrow>
     (\<forall>i<unat (bfK bf). let idx = probe (doubleHash key) (bfBits bf) i in
        bfBitmap bf ! unat (idx div 8) AND bit_mask idx \<noteq> 0)"

lemma probe_in_range:
  assumes "bits \<noteq> 0" "unat bits = 8 * length bm"
  shows "unat (probe h bits i div 8) < length bm"
proof -
  have "unat (probe h bits i) < unat bits"
    using assms(1) by (simp add: probe_def unat_mod unat_gt_0)
  then show ?thesis using assms(2) by (simp add: unat_div less_mult_imp_div_less mult.commute)
qed

lemma bit_mask_self: "bit_mask idx AND bit_mask idx \<noteq> 0"
proof -
  have "unat (idx mod 8) < 8" by (simp add: unat_mod)
  then have "bit (bit_mask idx) (unat (idx mod 8))" by (simp add: bit_mask_def bit_simps)
  then show ?thesis by (metis and.idem bit_0_eq bot_apply bot_bool_def)
qed

lemma or_keeps: "(a :: byte) AND m \<noteq> 0 \<Longrightarrow> (a OR x) AND m \<noteq> 0"
proof
  assume a: "a AND m \<noteq> 0" and z: "(a OR x) AND m = 0"
  have "bit (a AND m) n = False" for n
    using arg_cong [OF z, of "\<lambda>w. bit w n"] by (auto simp: bit_simps)
  then have "a AND m = 0" by (simp add: bit_eq_iff)
  with a show False ..
qed

lemma or_sets: "(a OR bit_mask idx) AND bit_mask idx \<noteq> 0"
  using or_keeps [OF bit_mask_self] by (metis or.commute)

lemma add_probes_spec:
  assumes "bits \<noteq> 0" "unat bits = 8 * length bm"
  shows "\<exists>bm'. add_probes h bits js bm = Some bm' \<and> length bm' = length bm \<and>
    (\<forall>b m. b < length bm \<longrightarrow> bm ! b AND m \<noteq> 0 \<longrightarrow> bm' ! b AND m \<noteq> 0) \<and>
    (\<forall>i\<in>set js. bm' ! unat (probe h bits i div 8) AND bit_mask (probe h bits i) \<noteq> 0)"
  using assms
proof (induction js arbitrary: bm)
  case (Cons i js)
  let ?idx = "probe h bits i"
  let ?b = "unat (?idx div 8)"
  let ?bm = "bm[?b := bm ! ?b OR bit_mask ?idx]"
  have b: "?b < length bm" using Cons.prems by (rule probe_in_range)
  obtain bm' where bm': "add_probes h bits js ?bm = Some bm'" "length bm' = length bm"
    "\<And>b m. b < length bm \<Longrightarrow> ?bm ! b AND m \<noteq> 0 \<Longrightarrow> bm' ! b AND m \<noteq> 0"
    "\<forall>i\<in>set js. bm' ! unat (probe h bits i div 8) AND bit_mask (probe h bits i) \<noteq> 0"
    using Cons.IH [of ?bm] Cons.prems by auto
  have "bm' ! c AND m \<noteq> 0" if "c < length bm" "bm ! c AND m \<noteq> 0" for c m
    using that by (intro bm'(3)) (cases "c = ?b"; simp add: or_keeps)+
  moreover have "bm' ! ?b AND bit_mask ?idx \<noteq> 0"
    using b bit_mask_self [of ?idx] by (intro bm'(3)) simp_all
  ultimately show ?case using bm' b Cons.prems(1) by (auto simp: Let_def)
qed simp

lemma Bloom_Add_spec:
  assumes "bloom_ok bf"
  shows "\<exists>bf'. Bloom_Add key bf = Some bf' \<and> bloom_ok bf' \<and> bloom_has bf' key \<and>
    (\<forall>k. bloom_has bf k \<longrightarrow> bloom_has bf' k)"
proof -
  obtain bm' where bm': "add_probes (doubleHash key) (bfBits bf) [0..<unat (bfK bf)] (bfBitmap bf) = Some bm'"
    "length bm' = length (bfBitmap bf)"
    "\<forall>b m. b < length (bfBitmap bf) \<longrightarrow> bfBitmap bf ! b AND m \<noteq> 0 \<longrightarrow> bm' ! b AND m \<noteq> 0"
    "\<forall>i\<in>set [0..<unat (bfK bf)]. bm' ! unat (probe (doubleHash key) (bfBits bf) i div 8) AND
       bit_mask (probe (doubleHash key) (bfBits bf) i) \<noteq> 0"
    using add_probes_spec [of "bfBits bf" "bfBitmap bf"] assms unfolding bloom_ok_def by blast
  have "unat (probe h (bfBits bf) i div 8) < length (bfBitmap bf)" for h i
    using assms by (auto simp: bloom_ok_def intro: probe_in_range)
  then show ?thesis using bm' assms
    by (intro exI [of _ "bf\<lparr>bfBitmap := bm'\<rparr>"])
      (simp add: Bloom_Add_def bloom_ok_def bloom_has_def Let_def)
qed

lemma test_probes_has:
  assumes "bits \<noteq> 0" "unat bits = 8 * length bm"
  shows "test_probes h bits js bm =
    Some (\<forall>i\<in>set js. bm ! unat (probe h bits i div 8) AND bit_mask (probe h bits i) \<noteq> 0)"
  using probe_in_range [OF assms] by (induction js) (simp_all add: Let_def)

lemma bloom_ok_nonempty: "bloom_ok bf \<Longrightarrow> bfBitmap bf \<noteq> []"
  by (auto simp: bloom_ok_def unat_eq_0)

lemma MayContain_has: "bloom_ok bf \<Longrightarrow> MayContain bf key = Some (bloom_has bf key)"
  using bloom_ok_nonempty [of bf]
  by (auto simp: bloom_ok_def MayContain_def test_probes_has bloom_has_def Let_def)

lemma bloom_ok_New: "bloom_ok (NewBloomFilter m_ceil k_round n)"
proof -
  define n1 where "n1 = (if n \<le> 0 then 1000 else n)"
  define b1 where "b1 = (if m_ceil n1 mod 8 \<noteq> 0 then (m_ceil n1 div 8 + 1) * 8 else m_ceil n1)"
  define bits where "bits = (if b1 < 64 then 64 else b1)"
  have "unat b1 mod 8 = 0"
  proof (cases "m_ceil n1 mod 8 = 0")
    case True
    have "unat (m_ceil n1) mod unat (8 :: uint64) = unat (m_ceil n1 mod 8)"
      by (rule unat_mod [symmetric])
    then show ?thesis using True by (simp add: b1_def)
  next
    case False
    then show ?thesis by (simp add: b1_def unat_word_ariths mod_mod_cancel)
  qed
  then have "unat bits mod 8 = 0" "bits \<noteq> 0" by (auto simp: bits_def)
  moreover have "bfBits (NewBloomFilter m_ceil k_round n) = bits"
    "length (bfBitmap (NewBloomFilter m_ceil k_round n)) = unat (bits div 8)"
    by (simp_all add: NewBloomFilter_def Let_def bits_def b1_def n1_def)
  ultimately show ?thesis by (auto simp: bloom_ok_def unat_div)
qed

section \<open>The encoding\<close>

lemma Bloom_Encode_layout:
  "Bloom_Encode bf = PutUint64 (bfBits bf) @ PutUint32 (bfK bf) @
     PutUint32 (word_of_nat (length (bfBitmap bf))) @ bfBitmap bf"
proof -
  let ?n = "length (bfBitmap bf)" and ?z = "\<lambda>n. replicate n (0 :: byte)"
  have "copy_at 0 (PutUint64 (bfBits bf)) (?z (16 + ?n)) = PutUint64 (bfBits bf) @ ?z (8 + ?n)"
    using copy_at_extends [of "[]" 0 "PutUint64 (bfBits bf)" "?z (16 + ?n)"] by simp
  moreover have "copy_at 8 (PutUint32 (bfK bf)) (PutUint64 (bfBits bf) @ ?z (8 + ?n)) =
      (PutUint64 (bfBits bf) @ PutUint32 (bfK bf)) @ ?z (4 + ?n)"
    by (subst copy_at_extends) simp_all
  moreover have "copy_at 12 (PutUint32 w) ((PutUint64 (bfBits bf) @ PutUint32 (bfK bf)) @ ?z (4 + ?n)) =
      (PutUint64 (bfBits bf) @ PutUint32 (bfK bf) @ PutUint32 w) @ ?z ?n" for w
    by (subst copy_at_extends) simp_all
  moreover have "copy_at 16 (bfBitmap bf) ((PutUint64 (bfBits bf) @ PutUint32 (bfK bf) @ PutUint32 w) @ ?z ?n) =
      PutUint64 (bfBits bf) @ PutUint32 (bfK bf) @ PutUint32 w @ bfBitmap bf" for w
    by (subst copy_at_extends) simp_all
  ultimately show ?thesis by (simp add: Bloom_Encode_def Let_def)
qed

lemma DecodeBloom_Encode:
  assumes "length (bfBitmap bf) < 2 ^ 32"
  shows "DecodeBloomFilter (Bloom_Encode bf @ z) = Inr bf"
  using assms
  by (simp add: DecodeBloomFilter_def Bloom_Encode_layout subslice_def unat_of_nat32 Let_def)

section \<open>Properties\<close>

text \<open>A filter filled with keys, as the table builder does.\<close>

fun Bloom_Adds :: "bytes list \<Rightarrow> BloomFilter \<Rightarrow> BloomFilter option" where
  "Bloom_Adds [] bf = Some bf"
| "Bloom_Adds (k # ks) bf = Option.bind (Bloom_Add k bf) (Bloom_Adds ks)"

lemma Bloom_Adds_spec:
  "bloom_ok bf \<Longrightarrow> \<exists>bf'. Bloom_Adds ks bf = Some bf' \<and> bloom_ok bf' \<and>
    (\<forall>k. bloom_has bf k \<or> k \<in> set ks \<longrightarrow> bloom_has bf' k)"
proof (induction ks arbitrary: bf)
  case (Cons k ks)
  obtain bf' where bf': "Bloom_Add k bf = Some bf'" "bloom_ok bf'" "bloom_has bf' k"
    "\<forall>k. bloom_has bf k \<longrightarrow> bloom_has bf' k"
    using Bloom_Add_spec [OF Cons.prems] by blast
  then show ?case using Cons.IH [OF bf'(2)] by auto
qed auto

text \<open>
  C39. No false negatives. Whatever the floating-point arithmetic of the constructor
  returns, adding any keys to a new filter never indexes out of the bitmap, and every key added is
  reported as possibly present, before and after the filter went through its encoding (with a
  bitmap that its 32-bit length field can describe).
\<close>

theorem bloom_no_false_negatives:
  assumes "key \<in> set keys"
  shows "\<exists>bf. Bloom_Adds keys (NewBloomFilter m_ceil k_round n) = Some bf \<and>
    MayContain bf key = Some True \<and>
    (length (bfBitmap bf) < 2 ^ 32 \<longrightarrow>
      (\<exists>bf'. DecodeBloomFilter (Bloom_Encode bf) = Inr bf' \<and> MayContain bf' key = Some True))"
proof -
  obtain bf where bf: "Bloom_Adds keys (NewBloomFilter m_ceil k_round n) = Some bf" "bloom_ok bf"
    "bloom_has bf key"
    using Bloom_Adds_spec [OF bloom_ok_New, of keys m_ceil k_round n] assms by blast
  then show ?thesis
    using DecodeBloom_Encode [of bf "[]"] by (auto simp: MayContain_has)
qed

theorem bloom_no_false_negatives_witness:
  "\<exists>bf. Bloom_Adds [[1], [2]] (NewBloomFilter (\<lambda>n. 20) (\<lambda>b n. 3) 2) = Some bf \<and>
    MayContain bf [2] = Some True"
proof -
  have "[2] \<in> set [[1], [2] :: bytes]" by simp
  from bloom_no_false_negatives [OF this] show ?thesis by blast
qed

text \<open>
  Decoding trusts the stored sizes. A filter file whose bit count exceeds its bitmap
  is accepted, and the first lookup that probes past the bitmap panics.
\<close>

lemma bloom_inconsistent_sizes_panic:
  assumes "bits \<noteq> 0" "0 < k" "0 < length bm" "length bm < 2 ^ 32"
    and "length bm \<le> unat (probe (doubleHash key) bits 0 div 8)"
  shows "\<exists>bf. DecodeBloomFilter
      (PutUint64 bits @ PutUint32 k @ PutUint32 (word_of_nat (length bm)) @ bm) = Inr bf \<and>
    MayContain bf key = None"
proof -
  have "DecodeBloomFilter (Bloom_Encode \<lparr>bfBitmap = bm, bfBits = bits, bfK = k\<rparr> @ []) =
      Inr \<lparr>bfBitmap = bm, bfBits = bits, bfK = k\<rparr>"
    by (rule DecodeBloom_Encode) (use assms(4) in simp)
  moreover have "[0..<unat k] = 0 # [1..<unat k]"
    using assms(2) by (simp add: upt_conv_Cons unat_gt_0)
  ultimately show ?thesis
    using assms by (simp add: Bloom_Encode_layout MayContain_def Let_def)
qed

lemma bloom_inconsistent_sizes_panic_witness:
  "\<exists>bf. DecodeBloomFilter (PutUint64 (2 ^ 40) @ PutUint32 1 @ PutUint32 (word_of_nat (length [0 :: byte])) @ [0]) = Inr bf \<and>
    MayContain bf [] = None"
  by (rule bloom_inconsistent_sizes_panic) (simp_all add: probe_def doubleHash_def fnv64a_def Let_def)

end
