(* ===== verification/SparseIndex.thy ===== *)
theory SparseIndex
  imports GoLib
begin

text \<open>
  \<open>pkg/sstable/sparse_index.go\<close>: the index of the blocks of a table by their first keys, its
  binary search and its encoding. Counters and positions are Go \<open>int\<close>s of 64 bits that cannot
  overflow at the sizes of a slice; they are \<open>int\<close> where they may be negative and \<open>nat\<close>
  elsewhere.
\<close>

section \<open>Operations\<close>

record IndexEntry =
  ixKey :: bytes
  ixOffset :: uint64
  ixLength :: uint32

type_synonym SparseIndex = "IndexEntry list"

definition NewSparseIndex :: SparseIndex where "NewSparseIndex = []"

definition Index_Add :: "bytes \<Rightarrow> uint64 \<Rightarrow> uint32 \<Rightarrow> SparseIndex \<Rightarrow> SparseIndex" where
  "Index_Add key offset len idx = idx @ [\<lparr>ixKey = key, ixOffset = offset, ixLength = len\<rparr>]"

function find_block :: "SparseIndex \<Rightarrow> bytes \<Rightarrow> int \<Rightarrow> int \<Rightarrow> int \<Rightarrow> int" where
  "find_block idx key low high bestIdx =
     (if low \<le> high
      then let mid = (low + high) div 2
           in if bytes_compare (ixKey (idx ! nat mid)) key \<le> 0
              then find_block idx key (mid + 1) high mid
              else find_block idx key low (mid - 1) bestIdx
      else bestIdx)"
  by pat_completeness auto
termination by (relation "measure (\<lambda>(idx, k, low, high, b). nat (high - low + 1))") auto

declare find_block.simps [simp del]

definition FindCandidateBlock :: "SparseIndex \<Rightarrow> bytes \<Rightarrow> IndexEntry option" where
  "FindCandidateBlock idx key =
     (if length idx = 0 then None
      else let bestIdx = find_block idx key 0 (int (length idx) - 1) (-1)
           in if bestIdx = -1 then None else Some (idx ! nat bestIdx))"

definition index_append :: "bytes \<Rightarrow> IndexEntry \<Rightarrow> bytes" where
  "index_append buf e =
     (let kLen = word_of_nat (length (ixKey e));
          loc = PutUint64 (ixOffset e) @ PutUint32 (ixLength e)
      in ((buf @ PutUint16 kLen) @ ixKey e) @ loc)"

definition Index_Encode :: "SparseIndex \<Rightarrow> bytes" where
  "Index_Encode idx = foldl index_append (PutUint32 (word_of_nat (length idx))) idx"

datatype index_error = IndexTooShort | IndexKeyLength | IndexEntryCorrupt nat

text \<open>The loop of \<open>DecodeSparseIndex\<close>: \<open>n\<close> entries are left, \<open>i\<close> are done.\<close>

fun decode_index_loop :: "bytes \<Rightarrow> nat \<Rightarrow> nat \<Rightarrow> nat \<Rightarrow> SparseIndex \<Rightarrow> index_error + SparseIndex" where
  "decode_index_loop data 0 i offset entries = Inr entries"
| "decode_index_loop data (Suc n) i offset entries =
     (if offset + 2 > length data then Inl IndexKeyLength
      else
        let kLen = unat (Uint16 (subslice data offset (offset + 2)));
            o1 = offset + 2
        in if o1 + kLen + 12 > length data then Inl (IndexEntryCorrupt i)
           else
             let key = subslice data o1 (o1 + kLen);
                 o2 = o1 + kLen;
                 e = \<lparr>ixKey = key, ixOffset = Uint64 (subslice data o2 (o2 + 8)),
                      ixLength = Uint32 (subslice data (o2 + 8) (o2 + 12))\<rparr>
             in decode_index_loop data n (i + 1) (o2 + 12) (entries @ [e]))"

definition DecodeSparseIndex :: "bytes \<Rightarrow> index_error + SparseIndex" where
  "DecodeSparseIndex data =
     (if length data < 4 then Inl IndexTooShort
      else decode_index_loop data (unat (Uint32 (subslice data 0 4))) 0 4 [])"

section \<open>The binary search\<close>

abbreviation index_sorted :: "SparseIndex \<Rightarrow> bool" where
  "index_sorted idx \<equiv> sorted_wrt (<) (map ixKey idx)"

lemma find_block_spec:
  assumes "index_sorted idx" "0 \<le> low" "high < int (length idx)" "low \<le> high + 1" "best = low - 1"
    and "\<And>j. j < nat low \<Longrightarrow> ixKey (idx ! j) \<le> key"
    and "\<And>j. nat (high + 1) \<le> j \<Longrightarrow> j < length idx \<Longrightarrow> key < ixKey (idx ! j)"
  shows "\<exists>n\<le>length idx. find_block idx key low high best = int n - 1 \<and>
    (\<forall>j<n. ixKey (idx ! j) \<le> key) \<and> (\<forall>j. n \<le> j \<and> j < length idx \<longrightarrow> key < ixKey (idx ! j))"
  using assms
proof (induction idx key low high best rule: find_block.induct)
  case (1 idx key low high best)
  show ?case
  proof (cases "low \<le> high")
    case False
    then have "low = high + 1" using 1(6) by linarith
    moreover have "find_block idx key low high best = best"
      using False by (subst find_block.simps) simp
    ultimately have eq: "find_block idx key low high best = int (nat low) - 1" "nat (high + 1) = nat low"
      using 1(4,7) by simp_all
    show ?thesis using 1(4-9) False eq by (intro exI [of _ "nat low"]) auto
  next
    case True
    define mid where "mid = (low + high) div 2"
    have mid: "low \<le> mid" "mid \<le> high" "nat mid < length idx" "0 \<le> mid"
      using True 1(4,5) by (auto simp: mid_def)
    have mono: "ixKey (idx ! i) < ixKey (idx ! j)" if "i < j" "j < length idx" for i j
      using 1(3) that by (simp add: sorted_wrt_iff_nth_less)
    have unfold: "find_block idx key low high best =
        (if ixKey (idx ! nat mid) \<le> key then find_block idx key (mid + 1) high mid
         else find_block idx key low (mid - 1) best)"
      using True by (subst find_block.simps) (simp add: mid_def [symmetric] Let_def)
    show ?thesis
    proof (cases "ixKey (idx ! nat mid) \<le> key")
      case le: True
      have "ixKey (idx ! j) \<le> key" if "j < nat (mid + 1)" for j
      proof (cases "j = nat mid")
        case False
        then have "j < nat mid" using that mid by linarith
        then have "ixKey (idx ! j) < ixKey (idx ! nat mid)" using mono mid by simp
        then show ?thesis using le by simp
      qed (use le in simp)
      then show ?thesis
        unfolding unfold using 1(1) [OF True mid_def] le 1(3-9) mid by simp
    next
      case gt: False
      have "key < ixKey (idx ! j)" if "nat (mid - 1 + 1) \<le> j" "j < length idx" for j
      proof (cases "j = nat mid")
        case False
        then have "ixKey (idx ! nat mid) < ixKey (idx ! j)" using mono [of "nat mid" j] that mid by simp
        then show ?thesis using gt by simp
      qed (use gt in simp)
      then show ?thesis
        unfolding unfold using 1(2) [OF True mid_def] gt 1(3-9) mid by simp
    qed
  qed
qed

text \<open>The last block whose first key is not greater.\<close>

lemma FindCandidateBlock_cases:
  assumes "index_sorted idx"
  obtains (none) "FindCandidateBlock idx key = None" "\<forall>e\<in>set idx. key < ixKey e"
  | (some) n where "n < length idx" "FindCandidateBlock idx key = Some (idx ! n)"
      "\<forall>j\<le>n. ixKey (idx ! j) \<le> key" "\<forall>j. n < j \<and> j < length idx \<longrightarrow> key < ixKey (idx ! j)"
proof (cases "idx = []")
  case True
  then show ?thesis using none by (simp add: FindCandidateBlock_def)
next
  case ne: False
  obtain n where n: "n \<le> length idx" "find_block idx key 0 (int (length idx) - 1) (-1) = int n - 1"
    "\<forall>j<n. ixKey (idx ! j) \<le> key" "\<forall>j. n \<le> j \<and> j < length idx \<longrightarrow> key < ixKey (idx ! j)"
  proof -
    have "\<exists>n\<le>length idx. find_block idx key 0 (int (length idx) - 1) (-1) = int n - 1 \<and>
      (\<forall>j<n. ixKey (idx ! j) \<le> key) \<and> (\<forall>j. n \<le> j \<and> j < length idx \<longrightarrow> key < ixKey (idx ! j))"
      by (rule find_block_spec [OF assms]) simp_all
    then show ?thesis using that by blast
  qed
  show ?thesis
  proof (cases n)
    case 0
    have "\<forall>e\<in>set idx. key < ixKey e" using n(4) 0 by (metis in_set_conv_nth le0)
    then show ?thesis using n(2) 0 ne by (intro none) (simp_all add: FindCandidateBlock_def)
  next
    case (Suc m)
    have "m < length idx" "FindCandidateBlock idx key = Some (idx ! m)"
      "\<forall>j\<le>m. ixKey (idx ! j) \<le> key" "\<forall>j. m < j \<and> j < length idx \<longrightarrow> key < ixKey (idx ! j)"
      using n ne Suc by (simp_all add: FindCandidateBlock_def less_Suc_eq_le Suc_le_eq)
    then show ?thesis by (rule some)
  qed
qed

text \<open>The index of the candidate, for the proofs about tables.\<close>

lemma FindCandidateBlock_None: "index_sorted idx \<Longrightarrow> FindCandidateBlock idx key = None \<Longrightarrow> e \<in> set idx \<Longrightarrow> key < ixKey e"
  by (erule FindCandidateBlock_cases [of idx key]) auto

section \<open>The encoding\<close>

definition index_slot :: "IndexEntry \<Rightarrow> bytes" where
  "index_slot e = PutUint16 (word_of_nat (length (ixKey e))) @ ixKey e @
     PutUint64 (ixOffset e) @ PutUint32 (ixLength e)"

lemma length_index_slot [simp, codec]: "length (index_slot e) = 14 + length (ixKey e)"
  by (simp add: index_slot_def)

lemma Index_Encode_layout:
  "Index_Encode idx = PutUint32 (word_of_nat (length idx)) @ concat (map index_slot idx)"
proof -
  have "foldl index_append buf es = buf @ concat (map index_slot es)" for buf es
    by (induction es arbitrary: buf) (simp_all add: index_append_def index_slot_def Let_def)
  then show ?thesis by (simp add: Index_Encode_def)
qed

lemma index_slot_parts:
  assumes "length (ixKey e) < 2 ^ 16"
  shows "unat (Uint16 (subslice (pre @ index_slot e @ z) (length pre) (length pre + 2))) = length (ixKey e)"
    "subslice (pre @ index_slot e @ z) (length pre + 2) (length pre + 2 + length (ixKey e)) = ixKey e"
    "Uint64 (subslice (pre @ index_slot e @ z) (length pre + 2 + length (ixKey e))
       (length pre + 2 + length (ixKey e) + 8)) = ixOffset e"
    "Uint32 (subslice (pre @ index_slot e @ z) (length pre + 2 + length (ixKey e) + 8)
       (length pre + 2 + length (ixKey e) + 12)) = ixLength e"
proof -
  have sub: "subslice (pre @ index_slot e @ z) (length pre + a) (length pre + b) =
      subslice (index_slot e @ z) a b" for a b
    by (simp add: subslice_append_right)
  have "subslice (index_slot e @ z) 0 2 = PutUint16 (word_of_nat (length (ixKey e)))"
    by (simp add: index_slot_def subslice_def)
  then show "unat (Uint16 (subslice (pre @ index_slot e @ z) (length pre) (length pre + 2))) = length (ixKey e)"
    using sub [of 0 2] assms by (simp add: unat_of_nat16)
  have "subslice (index_slot e @ z) 2 (2 + length (ixKey e)) = ixKey e"
    by (simp add: index_slot_def subslice_def)
  then show "subslice (pre @ index_slot e @ z) (length pre + 2) (length pre + 2 + length (ixKey e)) = ixKey e"
    using sub [of 2 "2 + length (ixKey e)"] by (simp add: add.assoc)
  have "subslice (index_slot e @ z) (2 + length (ixKey e)) (2 + length (ixKey e) + 8) = PutUint64 (ixOffset e)"
    by (simp add: index_slot_def subslice_def)
  then show "Uint64 (subslice (pre @ index_slot e @ z) (length pre + 2 + length (ixKey e))
       (length pre + 2 + length (ixKey e) + 8)) = ixOffset e"
    using sub [of "2 + length (ixKey e)" "2 + length (ixKey e) + 8"]
    by (simp only: add.assoc) simp
  have "subslice (index_slot e @ z) (2 + length (ixKey e) + 8) (2 + length (ixKey e) + 12) = PutUint32 (ixLength e)"
    by (simp add: index_slot_def subslice_def)
  then show "Uint32 (subslice (pre @ index_slot e @ z) (length pre + 2 + length (ixKey e) + 8)
       (length pre + 2 + length (ixKey e) + 12)) = ixLength e"
    using sub [of "2 + length (ixKey e) + 8" "2 + length (ixKey e) + 12"]
    by (simp only: add.assoc) simp
qed

lemma decode_index_slots:
  "\<forall>e\<in>set es. length (ixKey e) < 2 ^ 16 \<Longrightarrow>
   decode_index_loop (pre @ concat (map index_slot es) @ z) (length es) i (length pre) acc = Inr (acc @ es)"
proof (induction es arbitrary: pre i acc)
  case (Cons e es)
  let ?z = "concat (map index_slot es) @ z"
  have "length (ixKey e) < 2 ^ 16" using Cons.prems by simp
  note parts = index_slot_parts [OF this, of pre ?z]
  have "decode_index_loop (pre @ index_slot e @ ?z) (length (e # es)) i (length pre) acc =
      decode_index_loop ((pre @ index_slot e) @ ?z) (length es) (i + 1) (length (pre @ index_slot e)) (acc @ [e])"
  proof -
    have "\<lparr>ixKey = ixKey e, ixOffset = ixOffset e, ixLength = ixLength e\<rparr> = e" by simp
    moreover have "\<not> length (pre @ index_slot e @ ?z) < length pre + 2"
      "\<not> length (pre @ index_slot e @ ?z) < length pre + 2 + length (ixKey e) + 12" by simp_all
    ultimately have "decode_index_loop (pre @ index_slot e @ ?z) (length (e # es)) i (length pre) acc =
        decode_index_loop (pre @ index_slot e @ ?z) (length es) (i + 1)
          (length pre + 2 + length (ixKey e) + 12) (acc @ [e])"
      by (simp only: list.size(4) One_nat_def add_Suc_right add_0_right decode_index_loop.simps Let_def
          parts if_False)
    then show ?thesis by (simp add: add.commute add.left_commute)
  qed
  then show ?case using Cons.IH [of "pre @ index_slot e"] Cons.prems by simp
qed simp

lemma DecodeIndex_Encode:
  assumes "length idx < 2 ^ 32" "\<forall>e\<in>set idx. length (ixKey e) < 2 ^ 16"
  shows "DecodeSparseIndex (Index_Encode idx @ z) = Inr idx"
proof -
  have "subslice (Index_Encode idx @ z) 0 4 = PutUint32 (word_of_nat (length idx))"
    by (simp add: Index_Encode_layout)
  then show ?thesis
    using decode_index_slots [OF assms(2), of "PutUint32 (word_of_nat (length idx))" z 0 "[]"] assms(1)
    by (simp add: DecodeSparseIndex_def unat_of_nat32) (simp add: Index_Encode_layout)
qed

section \<open>Properties\<close>

text \<open>
  Candidate block. On an index with strictly ascending first keys the binary search
  terminates with the last block whose first key is at most the key searched for, and reports none
  exactly when every block starts after it.
\<close>

lemma index_search_correct:
  assumes "sorted_wrt (<) (map ixKey idx)"
  shows "FindCandidateBlock idx key =
    (let below = filter (\<lambda>e. ixKey e \<le> key) idx in if below = [] then None else Some (last below))"
  using assms
proof (cases rule: FindCandidateBlock_cases [where key = key])
  case none
  then have "filter (\<lambda>e. ixKey e \<le> key) idx = []" by (auto simp: filter_empty_conv not_le)
  then show ?thesis using none by simp
next
  case (some n)
  have "filter (\<lambda>e. ixKey e \<le> key) (take (Suc n) idx) = take (Suc n) idx"
    using some by (intro filter_True) (auto simp: in_set_conv_nth less_Suc_eq_le)
  moreover have "filter (\<lambda>e. ixKey e \<le> key) (drop (Suc n) idx) = []"
    using some by (intro filter_False) (auto simp: in_set_conv_nth not_le)
  ultimately have "filter (\<lambda>e. ixKey e \<le> key) idx = take (Suc n) idx"
    by (metis append_take_drop_id filter_append append_Nil2)
  then show ?thesis using some(1,2) by (simp add: take_Suc_conv_app_nth)
qed

lemma index_search_correct_witness:
  "FindCandidateBlock [\<lparr>ixKey = [1], ixOffset = 0, ixLength = 9\<rparr>, \<lparr>ixKey = [5], ixOffset = 9, ixLength = 7\<rparr>] [3] =
    Some \<lparr>ixKey = [1], ixOffset = 0, ixLength = 9\<rparr>"
proof -
  have "sorted_wrt (<) (map ixKey [\<lparr>ixKey = [1], ixOffset = 0, ixLength = 9\<rparr>, \<lparr>ixKey = [5], ixOffset = 9, ixLength = 7\<rparr>])"
    by simp
  from index_search_correct [OF this, of "[3]"] show ?thesis by simp
qed

text \<open>
  Index round trip. An index of at most \<open>2^32 - 1\<close> blocks with keys below 64 KiB is
  decoded to itself.
\<close>

lemma index_round_trip:
  assumes "length idx < 2 ^ 32" "\<forall>e\<in>set idx. length (ixKey e) < 2 ^ 16"
  shows "DecodeSparseIndex (Index_Encode idx) = Inr idx"
  using DecodeIndex_Encode [OF assms, of "[]"] by simp

lemma index_round_trip_witness:
  "DecodeSparseIndex (Index_Encode [\<lparr>ixKey = [1, 2], ixOffset = 77, ixLength = 9\<rparr>]) =
    Inr [\<lparr>ixKey = [1, 2], ixOffset = 77, ixLength = 9\<rparr>]"
  by (rule index_round_trip) simp_all

end
