(* ===== verification/Iterator.thy ===== *)
theory Iterator
  imports Entry
begin

text \<open>
  \<open>pkg/core/iterator.go\<close>: the interface of iterators over sorted entries as a table of methods,
  and the contract its implementations keep and the merge iterator relies on.
\<close>

section \<open>The interface\<close>

text \<open>The methods of an implementation on states \<open>'i\<close>; \<open>None\<close> is the nil entry.\<close>

record 'i Iterator =
  itValid :: "'i \<Rightarrow> bool"
  itNext :: "'i \<Rightarrow> 'i"
  itSeek :: "bytes \<Rightarrow> 'i \<Rightarrow> 'i"
  itKey :: "'i \<Rightarrow> bytes"
  itValue :: "'i \<Rightarrow> slice"
  itEntry :: "'i \<Rightarrow> Entry option"
  itClose :: "'i \<Rightarrow> bool \<times> 'i"

section \<open>The contract\<close>

abbreviation keys_sorted :: "Entry list \<Rightarrow> bool" where
  "keys_sorted es \<equiv> sorted_wrt (<) (map Key es)"

text \<open>The first \<open>n\<close> entries a client reads with \<open>for it.Valid() { it.Entry(); it.Next() }\<close>.\<close>

fun collect :: "'i Iterator \<Rightarrow> nat \<Rightarrow> 'i \<Rightarrow> Entry list" where
  "collect I 0 i = []"
| "collect I (Suc n) i =
     (if itValid I i then the (itEntry I i) # collect I n (itNext I i) else [])"

text \<open>
  \<open>all_of\<close> are the entries the iterator ranges over, \<open>rest_of\<close> those from its position on. The
  entries are in strictly ascending order of their keys; \<open>Seek\<close> may move back.
\<close>

locale sorted_iterator =
  fixes I :: "'i Iterator"
    and inv :: "'i \<Rightarrow> bool"
    and all_of rest_of :: "'i \<Rightarrow> Entry list"
  assumes all_sorted: "inv i \<Longrightarrow> keys_sorted (all_of i)"
    and rest_suffix: "inv i \<Longrightarrow> \<exists>n. rest_of i = drop n (all_of i)"
    and valid_iff: "inv i \<Longrightarrow> itValid I i \<longleftrightarrow> rest_of i \<noteq> []"
    and entry_hd: "inv i \<Longrightarrow> rest_of i \<noteq> [] \<Longrightarrow> itEntry I i = Some (hd (rest_of i))"
    and key_hd: "inv i \<Longrightarrow> rest_of i \<noteq> [] \<Longrightarrow> itKey I i = Key (hd (rest_of i))"
    and next_tl: "inv i \<Longrightarrow> rest_of (itNext I i) = tl (rest_of i)"
    and next_inv: "inv i \<Longrightarrow> inv (itNext I i) \<and> all_of (itNext I i) = all_of i"
    and seek_drop: "inv i \<Longrightarrow> rest_of (itSeek I k i) = dropWhile (\<lambda>e. Key e < k) (all_of i)"
    and seek_inv: "inv i \<Longrightarrow> inv (itSeek I k i) \<and> all_of (itSeek I k i) = all_of i"
begin

lemma rest_sorted: "inv i \<Longrightarrow> keys_sorted (rest_of i)"
  using all_sorted [of i] rest_suffix [of i] by (auto simp: sorted_wrt_drop simp flip: drop_map)

lemma collect_rest: "inv i \<Longrightarrow> collect I n i = take n (rest_of i)"
proof (induction n arbitrary: i)
  case (Suc n)
  then show ?case
    using valid_iff [of i] entry_hd [of i] next_tl [of i] next_inv [of i]
    by (cases "rest_of i") simp_all
qed simp

lemma rest_subset: "inv i \<Longrightarrow> set (rest_of i) \<subseteq> set (all_of i)"
  using rest_suffix [of i] by (auto dest: in_set_dropD)

end

section \<open>Sorted entry lists\<close>

lemma keys_sorted_Cons:
  "keys_sorted (e # es) \<longleftrightarrow> (\<forall>f\<in>set es. Key e < Key f) \<and> keys_sorted es"
  by auto

lemma keys_sorted_tl: "keys_sorted es \<Longrightarrow> keys_sorted (tl es)"
  by (cases es) auto

lemma keys_sorted_hd_le: "keys_sorted es \<Longrightarrow> e \<in> set es \<Longrightarrow> Key (hd es) \<le> Key e"
  by (cases es) auto

lemma keys_sorted_le_last: "keys_sorted es \<Longrightarrow> e \<in> set es \<Longrightarrow> Key e \<le> Key (last es)"
proof (induction es)
  case (Cons f es)
  show ?case
  proof (cases "es = []")
    case False
    then have "Key f < Key (last es)" using Cons.prems(1) by simp
    with False Cons show ?thesis by (auto intro: less_imp_le)
  qed (use Cons.prems in simp)
qed simp

lemma keys_sorted_tl_gt: "keys_sorted es \<Longrightarrow> e \<in> set (tl es) \<Longrightarrow> Key (hd es) < Key e"
  by (cases es) auto

text \<open>Removing a least key from a sorted list.\<close>

lemma drop_key_hd:
  assumes "keys_sorted es" "es \<noteq> []" "Key (hd es) = k"
  shows "dropWhile (\<lambda>e. Key e = k) es = tl es"
proof -
  obtain e fs where es: "es = e # fs" using assms(2) by (cases es) auto
  then have "\<forall>f\<in>set fs. Key f \<noteq> k" using assms by auto
  then have "dropWhile (\<lambda>e. Key e = k) fs = fs" by (cases fs) auto
  then show ?thesis using assms es by simp
qed

lemma drop_key_none:
  "keys_sorted es \<Longrightarrow> es \<noteq> [] \<Longrightarrow> Key (hd es) \<noteq> k \<Longrightarrow> dropWhile (\<lambda>e. Key e = k) es = es"
  by (cases es) auto

lemma dropWhile_less_filter:
  "keys_sorted es \<Longrightarrow> dropWhile (\<lambda>e. Key e < k) es = filter (\<lambda>e. k \<le> Key e) es"
proof (induction es)
  case (Cons e es)
  show ?case
  proof (cases "Key e < k")
    case False
    with Cons.prems have "\<forall>f\<in>set es. k \<le> Key f" by (auto dest: order.strict_trans2)
    with False show ?thesis by auto
  qed (use Cons in auto)
qed simp

lemma keys_sorted_filter: "keys_sorted es \<Longrightarrow> keys_sorted (filter P es)"
  by (simp add: sorted_wrt_filter sorted_wrt_map)

lemma keys_sorted_find:
  "keys_sorted es \<Longrightarrow> e \<in> set es \<Longrightarrow> find (\<lambda>f. Key f = Key e) es = Some e"
  by (rule strict_sorted_find)

end
