(* ===== verification/SSTable.thy ===== *)
theory SSTable
  imports Block Bloom SparseIndex Iterator
begin

text \<open>
  \<open>pkg/sstable/builder.go\<close> and \<open>reader.go\<close>: writing and reading table files. The four files of a
  table are a record of contents; the \<open>.meta\<close> file holds the metadata value that \<open>encoding/json\<close>
  writes and reads back unchanged, or text that does not parse. \<open>tfSynced\<close> is the length of the
  prefix of the data file that an fsync has forced to disk; the other three files are written with
  \<open>os.WriteFile\<close>, which does not sync, so no such prefix is kept for them. The builder's system
  calls succeed or fail as the argument \<open>io\<close> says; what a failed write leaves in its file is not
  modelled.
\<close>

section \<open>Files and metadata\<close>

record Metadata =
  mdID :: uint64
  mdLevel :: int
  mdEntryCount :: int
  mdDataSize :: int
  mdMinKey :: bytes
  mdMaxKey :: bytes
  mdCreatedAt :: int64

datatype MetaFile = MetaJson Metadata | MetaUnparsable

record TableFiles =
  tfData :: "bytes option"
  tfSynced :: nat
  tfIndex :: "bytes option"
  tfFilter :: "bytes option"
  tfMeta :: "MetaFile option"

definition no_files :: TableFiles where
  "no_files = \<lparr>tfData = None, tfSynced = 0, tfIndex = None, tfFilter = None, tfMeta = None\<rparr>"

datatype builder_io =
  BMkdir | BOpenData | BWriteBlock uint64 | BSync | BCloseData | BWriteIndex | BWriteFilter | BWriteMeta

datatype sst_error =
    BuilderClosed | BuilderPanic | BuilderIO builder_io
  | MetaMissing | MetaCorrupt | IndexMissing | IndexCorrupt index_error
  | FilterMissing | FilterCorrupt bloom_error | DataMissing
  | TableClosed | TableRead | TableBlock block_error | TablePanic

section \<open>The builder\<close>

text \<open>
  \<open>oBloomBits\<close> and \<open>oBloomK\<close> stand for the option \<open>BloomFp\<close>: the sizes that the floating-point
  arithmetic of \<open>NewBloomFilter\<close> computes from it.
\<close>

record BuilderOptions =
  oID :: uint64
  oLevel :: int
  oBlockSize :: int
  oEstKeys :: int
  oBloomBits :: "int \<Rightarrow> uint64"
  oBloomK :: "uint64 \<Rightarrow> int \<Rightarrow> uint32"

record SSTableBuilder =
  bOpts :: BuilderOptions
  bFiles :: TableFiles
  bDataOffset :: uint64
  bCurrBlock :: "Entry list"
  bCurrBlockLen :: int
  bIndex :: SparseIndex
  bBloom :: BloomFilter
  bMinKey :: bytes
  bMaxKey :: bytes
  bEntryCount :: int
  bClosed :: bool

definition NewBuilder ::
  "(builder_io \<Rightarrow> bool) \<Rightarrow> BuilderOptions \<Rightarrow> TableFiles \<Rightarrow> sst_error + SSTableBuilder" where
  "NewBuilder io opts0 files =
     (let o1 = (if oBlockSize opts0 \<le> 0 then opts0\<lparr>oBlockSize := 4096\<rparr> else opts0);
          opts = (if oEstKeys o1 \<le> 0 then o1\<lparr>oEstKeys := 1000\<rparr> else o1)
      in if \<not> io BMkdir then Inl (BuilderIO BMkdir)
         else if \<not> io BOpenData then Inl (BuilderIO BOpenData)
         else Inr \<lparr>bOpts = opts, bFiles = files\<lparr>tfData := Some [], tfSynced := 0\<rparr>, bDataOffset = 0,
                bCurrBlock = [], bCurrBlockLen = 0, bIndex = NewSparseIndex,
                bBloom = NewBloomFilter (oBloomBits opts) (oBloomK opts) (oEstKeys opts),
                bMinKey = [], bMaxKey = [], bEntryCount = 0, bClosed = False\<rparr>)"

definition flushBlock ::
  "(builder_io \<Rightarrow> bool) \<Rightarrow> SSTableBuilder \<Rightarrow> sst_error option \<times> SSTableBuilder" where
  "flushBlock io b =
     (case bCurrBlock b of
        [] \<Rightarrow> (None, b)
      | first # rest \<Rightarrow>
          let payload = Block_Encode (bCurrBlock b);
              len = word_of_nat (length payload) :: uint32;
              b1 = b\<lparr>bIndex := Index_Add (Key first) (bDataOffset b) len (bIndex b)\<rparr>
          in if \<not> io (BWriteBlock (bDataOffset b)) then (Some (BuilderIO (BWriteBlock (bDataOffset b))), b1)
             else (None, b1\<lparr>bFiles := (bFiles b1)\<lparr>tfData :=
                         map_option (\<lambda>d. d @ payload) (tfData (bFiles b1))\<rparr>,
                       bDataOffset := bDataOffset b1 + ucast len,
                       bCurrBlock := [], bCurrBlockLen := 0\<rparr>))"

definition Builder_Add ::
  "(builder_io \<Rightarrow> bool) \<Rightarrow> Entry \<Rightarrow> SSTableBuilder \<Rightarrow> sst_error option \<times> SSTableBuilder" where
  "Builder_Add io entry b =
     (if bClosed b then (Some BuilderClosed, b)
      else
        let b1 = (if length (bMinKey b) = 0 \<or> bytes_compare (Key entry) (bMinKey b) < 0
                  then b\<lparr>bMinKey := Key entry\<rparr> else b);
            b2 = (if length (bMaxKey b1) = 0 \<or> bytes_compare (Key entry) (bMaxKey b1) > 0
                  then b1\<lparr>bMaxKey := Key entry\<rparr> else b1)
        in case Bloom_Add (Key entry) (bBloom b2) of
             None \<Rightarrow> (Some BuilderPanic, b2)
           | Some bloom \<Rightarrow>
               let b3 = b2\<lparr>bBloom := bloom, bCurrBlock := bCurrBlock b2 @ [entry],
                          bCurrBlockLen := bCurrBlockLen b2 + int (Size entry),
                          bEntryCount := bEntryCount b2 + 1\<rparr>
               in if bCurrBlockLen b3 \<ge> oBlockSize (bOpts b3) then flushBlock io b3 else (None, b3))"

definition Finish ::
  "(builder_io \<Rightarrow> bool) \<Rightarrow> int64 \<Rightarrow> SSTableBuilder \<Rightarrow> (sst_error + Metadata) \<times> SSTableBuilder" where
  "Finish io now b0 =
     (if bClosed b0 then (Inl BuilderClosed, b0)
      else
        case flushBlock io (b0\<lparr>bClosed := True\<rparr>) of
          (Some err, b) \<Rightarrow> (Inl err, b)
        | (None, b) \<Rightarrow>
            if \<not> io BSync then (Inl (BuilderIO BSync), b)
            else
              let bs = b\<lparr>bFiles := (bFiles b)\<lparr>tfSynced := length (contents (tfData (bFiles b)))\<rparr>\<rparr>
              in if \<not> io BCloseData then (Inl (BuilderIO BCloseData), bs)
            else if \<not> io BWriteIndex then (Inl (BuilderIO BWriteIndex), bs)
            else
              let b1 = bs\<lparr>bFiles := (bFiles bs)\<lparr>tfIndex := Some (Index_Encode (bIndex bs))\<rparr>\<rparr>
              in if \<not> io BWriteFilter then (Inl (BuilderIO BWriteFilter), b1)
                 else
                   let b2 = b1\<lparr>bFiles := (bFiles b1)\<lparr>tfFilter := Some (Bloom_Encode (bBloom b1))\<rparr>\<rparr>;
                       meta = \<lparr>mdID = oID (bOpts b2), mdLevel = oLevel (bOpts b2),
                               mdEntryCount = bEntryCount b2, mdDataSize = uint (bDataOffset b2),
                               mdMinKey = bMinKey b2, mdMaxKey = bMaxKey b2, mdCreatedAt = now\<rparr>
                   in if \<not> io BWriteMeta then (Inl (BuilderIO BWriteMeta), b2)
                      else (Inr meta, b2\<lparr>bFiles := (bFiles b2)\<lparr>tfMeta := Some (MetaJson meta)\<rparr>\<rparr>))"

section \<open>Crashes\<close>

text \<open>
  What a power failure leaves of a data file: a cut that contains the synced prefix. The files
  that were never synced may be lost, empty or whole; \<open>small_files_kept\<close> says they are whole.
\<close>

definition data_synced :: "TableFiles \<Rightarrow> bool" where
  "data_synced files \<longleftrightarrow> length (contents (tfData files)) \<le> tfSynced files"

definition crash_data :: "TableFiles \<Rightarrow> TableFiles \<Rightarrow> bool" where
  "crash_data files files' \<longleftrightarrow>
     (\<exists>n\<ge>tfSynced files. tfData files' = map_option (take n) (tfData files)) \<and>
     tfSynced files' = length (contents (tfData files'))"

definition small_files_kept :: "TableFiles \<Rightarrow> TableFiles \<Rightarrow> bool" where
  "small_files_kept files files' \<longleftrightarrow>
     tfIndex files' = tfIndex files \<and> tfFilter files' = tfFilter files \<and> tfMeta files' = tfMeta files"

section \<open>The reader\<close>

record SSTableReader =
  rdId :: uint64
  rdMeta :: Metadata
  rdIndex :: SparseIndex
  rdBloom :: BloomFilter
  rdData :: bytes
  rdClosed :: bool
  rdBypassBloom :: bool

definition OpenReader :: "uint64 \<Rightarrow> TableFiles \<Rightarrow> sst_error + SSTableReader" where
  "OpenReader tid files =
     (case tfMeta files of
        None \<Rightarrow> Inl MetaMissing
      | Some MetaUnparsable \<Rightarrow> Inl MetaCorrupt
      | Some (MetaJson meta) \<Rightarrow>
         (case tfIndex files of
            None \<Rightarrow> Inl IndexMissing
          | Some ib \<Rightarrow>
             (case DecodeSparseIndex ib of
                Inl err \<Rightarrow> Inl (IndexCorrupt err)
              | Inr idx \<Rightarrow>
                 (case tfFilter files of
                    None \<Rightarrow> Inl FilterMissing
                  | Some fb \<Rightarrow>
                     (case DecodeBloomFilter fb of
                        Inl err \<Rightarrow> Inl (FilterCorrupt err)
                      | Inr bloom \<Rightarrow>
                         (case tfData files of
                            None \<Rightarrow> Inl DataMissing
                          | Some d \<Rightarrow>
                              Inr \<lparr>rdId = tid, rdMeta = meta, rdIndex = idx, rdBloom = bloom,
                                   rdData = d, rdClosed = False, rdBypassBloom = False\<rparr>))))))"

lemma OpenReader_after_crash:
  assumes "data_synced files" "crash_data files files'" "small_files_kept files files'"
  shows "OpenReader tid files' = OpenReader tid files"
proof -
  have "tfData files' = tfData files"
    using assms(1,2) by (cases "tfData files") (auto simp: data_synced_def crash_data_def)
  moreover have "tfIndex files' = tfIndex files" "tfFilter files' = tfFilter files" "tfMeta files' = tfMeta files"
    using assms(3) by (simp_all add: small_files_kept_def)
  ultimately show ?thesis unfolding OpenReader_def by (simp only:)
qed

lemma synced_after_crash: "crash_data files files' \<Longrightarrow> data_synced files'"
  by (simp add: crash_data_def data_synced_def)

text \<open>
  Losing an unsynced index file, which nothing in the code rules out, makes the table unreadable.
\<close>

lemma OpenReader_lost_index: "tfIndex files = None \<Longrightarrow> \<exists>err. OpenReader tid files = Inl err"
  by (simp add: OpenReader_def split: option.splits MetaFile.splits)

definition Reader_Level :: "SSTableReader \<Rightarrow> int" where "Reader_Level r = mdLevel (rdMeta r)"

definition SetBypassBloom :: "bool \<Rightarrow> SSTableReader \<Rightarrow> SSTableReader" where
  "SetBypassBloom bypass r = r\<lparr>rdBypassBloom := bypass\<rparr>"

definition Reader_Close :: "SSTableReader \<Rightarrow> SSTableReader" where
  "Reader_Close r = (if rdClosed r then r else r\<lparr>rdClosed := True\<rparr>)"

text \<open>\<open>ReadAt\<close> of a regular file: a negative offset is refused, a read past the end is \<open>io.EOF\<close>.\<close>

datatype read_error = ReadEOF | ReadNegative

definition ReadAt :: "bytes \<Rightarrow> uint64 \<Rightarrow> uint32 \<Rightarrow> read_error + bytes" where
  "ReadAt data offset len =
     (if sint offset < 0 then Inl ReadNegative
      else if len = 0 then Inr []
      else if unat offset + unat len \<le> length data
      then Inr (subslice data (unat offset) (unat offset + unat len))
      else Inl ReadEOF)"

definition Reader_Get :: "SSTableReader \<Rightarrow> bytes \<Rightarrow> sst_error + Entry option" where
  "Reader_Get r key =
     (if rdClosed r then Inl TableClosed
      else if length (mdMinKey (rdMeta r)) > 0 \<and> bytes_compare key (mdMinKey (rdMeta r)) < 0
      then Inr None
      else if length (mdMaxKey (rdMeta r)) > 0 \<and> bytes_compare key (mdMaxKey (rdMeta r)) > 0
      then Inr None
      else
        let search =
          (case FindCandidateBlock (rdIndex r) key of
             None \<Rightarrow> Inr None
           | Some blockEntry \<Rightarrow>
               (case ReadAt (rdData r) (ixOffset blockEntry) (ixLength blockEntry) of
                  Inl err \<Rightarrow> Inl TableRead
                | Inr blockData \<Rightarrow>
                    (case DecodeBlock blockData of
                       Inl err \<Rightarrow> Inl (TableBlock err)
                     | Inr entries \<Rightarrow> Inr (find (\<lambda>e. Key e = key) entries))))
        in if rdBypassBloom r then search
           else case MayContain (rdBloom r) key of
                  None \<Rightarrow> Inl TablePanic
                | Some False \<Rightarrow> Inr None
                | Some True \<Rightarrow> search)"

section \<open>The table iterator\<close>

record SSTableIterator =
  tiReader :: SSTableReader
  tiBlockIdx :: int
  tiEntryIdx :: int
  tiCurrBlock :: "Entry list option"

datatype load_result = LoadOk | LoadEOF | LoadErr

definition loadBlock :: "int \<Rightarrow> SSTableIterator \<Rightarrow> load_result \<times> SSTableIterator" where
  "loadBlock idx it =
     (if idx < 0 \<or> idx \<ge> int (length (rdIndex (tiReader it)))
      then (LoadEOF, it\<lparr>tiCurrBlock := None\<rparr>)
      else
        let bEntry = rdIndex (tiReader it) ! nat idx
        in case ReadAt (rdData (tiReader it)) (ixOffset bEntry) (ixLength bEntry) of
             Inl ReadEOF \<Rightarrow> (LoadEOF, it)
           | Inl ReadNegative \<Rightarrow> (LoadErr, it)
           | Inr blockData \<Rightarrow>
               (case DecodeBlock blockData of
                  Inl err \<Rightarrow> (LoadErr, it)
                | Inr blk \<Rightarrow>
                    (LoadOk, it\<lparr>tiCurrBlock := Some blk, tiBlockIdx := idx, tiEntryIdx := 0\<rparr>)))"

definition Reader_NewIterator :: "SSTableReader \<Rightarrow> sst_error + SSTableIterator" where
  "Reader_NewIterator r =
     (if rdClosed r then Inl TableClosed
      else
        let it = \<lparr>tiReader = r, tiBlockIdx = 0, tiEntryIdx = 0, tiCurrBlock = None\<rparr>
        in case loadBlock 0 it of
             (LoadErr, it1) \<Rightarrow> Inl TableRead
           | (_, it1) \<Rightarrow> Inr it1)"

definition TableIter_Valid :: "SSTableIterator \<Rightarrow> bool" where
  "TableIter_Valid it =
     (case tiCurrBlock it of None \<Rightarrow> False | Some blk \<Rightarrow> tiEntryIdx it < int (length blk))"

definition TableIter_Next :: "SSTableIterator \<Rightarrow> SSTableIterator" where
  "TableIter_Next it =
     (if \<not> TableIter_Valid it then it
      else
        let it1 = it\<lparr>tiEntryIdx := tiEntryIdx it + 1\<rparr>
        in case tiCurrBlock it1 of
             None \<Rightarrow> it1
           | Some blk \<Rightarrow>
               if tiEntryIdx it1 \<ge> int (length blk)
               then snd (loadBlock (tiBlockIdx it1 + 1) it1) else it1)"

text \<open>\<open>for i, entry := range\<close>: the first block at the candidate's offset, 0 when there is none.\<close>

fun first_at_offset :: "SparseIndex \<Rightarrow> uint64 \<Rightarrow> nat \<Rightarrow> nat" where
  "first_at_offset [] offset i = 0"
| "first_at_offset (e # es) offset i =
     (if ixOffset e = offset then i else first_at_offset es offset (i + 1))"

text \<open>The position of the first entry not below the target.\<close>

fun first_at_least :: "Entry list \<Rightarrow> bytes \<Rightarrow> nat \<Rightarrow> nat option" where
  "first_at_least [] target i = None"
| "first_at_least (e # es) target i =
     (if bytes_compare (Key e) target \<ge> 0 then Some i else first_at_least es target (i + 1))"

fun seek_blocks :: "bytes \<Rightarrow> nat list \<Rightarrow> SSTableIterator \<Rightarrow> SSTableIterator" where
  "seek_blocks target [] it = it\<lparr>tiCurrBlock := None\<rparr>"
| "seek_blocks target (i # js) it =
     (case loadBlock (int i) it of
        (LoadOk, it1) \<Rightarrow>
          (case tiCurrBlock it1 of
             None \<Rightarrow> it1
           | Some blk \<Rightarrow>
               (case first_at_least blk target 0 of
                  Some e \<Rightarrow> it1\<lparr>tiEntryIdx := int e\<rparr>
                | None \<Rightarrow> seek_blocks target js it1))
      | (_, it1) \<Rightarrow> it1\<lparr>tiCurrBlock := None\<rparr>)"

definition TableIter_Seek :: "bytes \<Rightarrow> SSTableIterator \<Rightarrow> SSTableIterator" where
  "TableIter_Seek target it =
     (let idx = rdIndex (tiReader it);
          start = (case FindCandidateBlock idx target of
                     None \<Rightarrow> 0
                   | Some bEntry \<Rightarrow> first_at_offset idx (ixOffset bEntry) 0)
      in seek_blocks target [start..<length idx] it)"

definition TableIter_Entry :: "SSTableIterator \<Rightarrow> Entry option" where
  "TableIter_Entry it =
     (if \<not> TableIter_Valid it then None
      else map_option (\<lambda>blk. blk ! nat (tiEntryIdx it)) (tiCurrBlock it))"

definition TableIter_Key :: "SSTableIterator \<Rightarrow> bytes" where
  "TableIter_Key it = (case TableIter_Entry it of None \<Rightarrow> [] | Some e \<Rightarrow> Key e)"

definition TableIter_Value :: "SSTableIterator \<Rightarrow> slice" where
  "TableIter_Value it = Option.bind (TableIter_Entry it) Value"

definition TableIter_Close :: "SSTableIterator \<Rightarrow> bool \<times> SSTableIterator" where
  "TableIter_Close it = (True, it\<lparr>tiCurrBlock := None\<rparr>)"

definition table_iterator :: "SSTableIterator Iterator" where
  "table_iterator = \<lparr>itValid = TableIter_Valid, itNext = TableIter_Next, itSeek = TableIter_Seek,
     itKey = TableIter_Key, itValue = TableIter_Value, itEntry = TableIter_Entry,
     itClose = TableIter_Close\<rparr>"

end
