(* ===== verification/SSTableProps.thy ===== *)
theory SSTableProps
  imports SSTable
begin

text \<open>
  A table file is a sorted map: the lookup of a reader is the lookup in the entries of its blocks,
  the iterator keeps the iterator contract over them, and the builder writes files from which the
  reader gets back what was added.
\<close>

section \<open>The entries of a table\<close>

definition block_of :: "SSTableReader \<Rightarrow> IndexEntry \<Rightarrow> Entry list" where
  "block_of r e =
     (case ReadAt (rdData r) (ixOffset e) (ixLength e) of
        Inl _ \<Rightarrow> []
      | Inr d \<Rightarrow> (case DecodeBlock d of Inl _ \<Rightarrow> [] | Inr es \<Rightarrow> es))"

definition blocks_of :: "SSTableReader \<Rightarrow> Entry list list" where
  "blocks_of r = map (block_of r) (rdIndex r)"

definition table_entries :: "SSTableReader \<Rightarrow> Entry list" where
  "table_entries r = concat (blocks_of r)"

text \<open>Every block can be read, starts with the key the index gives, and the keys ascend.\<close>

definition table_ok :: "SSTableReader \<Rightarrow> bool" where
  "table_ok r \<longleftrightarrow>
     (\<forall>e\<in>set (rdIndex r). \<exists>d es. ReadAt (rdData r) (ixOffset e) (ixLength e) = Inr d \<and>
        DecodeBlock d = Inr es \<and> es \<noteq> [] \<and> ixKey e = Key (hd es)) \<and>
     distinct (map ixOffset (rdIndex r)) \<and>
     keys_sorted (table_entries r)"

text \<open>The filter and the key range admit every key of the table, and the table is open.\<close>

definition lookup_ok :: "SSTableReader \<Rightarrow> bool" where
  "lookup_ok r \<longleftrightarrow> \<not> rdClosed r \<and> bloom_ok (rdBloom r) \<and>
     (\<forall>e\<in>set (table_entries r). bloom_has (rdBloom r) (Key e) \<and>
        (mdMinKey (rdMeta r) = [] \<or> mdMinKey (rdMeta r) \<le> Key e) \<and>
        (mdMaxKey (rdMeta r) = [] \<or> Key e \<le> mdMaxKey (rdMeta r)))"

lemma table_block:
  assumes "table_ok r" "i < length (rdIndex r)"
  shows "\<exists>d. ReadAt (rdData r) (ixOffset (rdIndex r ! i)) (ixLength (rdIndex r ! i)) = Inr d \<and>
      DecodeBlock d = Inr (blocks_of r ! i)"
    "blocks_of r ! i \<noteq> []" "ixKey (rdIndex r ! i) = Key (hd (blocks_of r ! i))"
proof -
  obtain d es where "ReadAt (rdData r) (ixOffset (rdIndex r ! i)) (ixLength (rdIndex r ! i)) = Inr d"
    "DecodeBlock d = Inr es" "es \<noteq> []" "ixKey (rdIndex r ! i) = Key (hd es)"
    using assms nth_mem [OF assms(2)] unfolding table_ok_def by blast
  then show "\<exists>d. ReadAt (rdData r) (ixOffset (rdIndex r ! i)) (ixLength (rdIndex r ! i)) = Inr d \<and>
      DecodeBlock d = Inr (blocks_of r ! i)"
    "blocks_of r ! i \<noteq> []" "ixKey (rdIndex r ! i) = Key (hd (blocks_of r ! i))"
    using assms(2) by (simp_all add: blocks_of_def block_of_def)
qed

lemma length_blocks_of [simp]: "length (blocks_of r) = length (rdIndex r)"
  by (simp add: blocks_of_def)

lemma heads_sorted:
  "\<forall>b\<in>set bs. b \<noteq> [] \<Longrightarrow> keys_sorted (concat bs) \<Longrightarrow> sorted_wrt (<) (map (\<lambda>b. Key (hd b)) bs)"
proof (induction bs)
  case (Cons b bs)
  have "Key (hd b) < Key (hd c)" if "c \<in> set bs" for c
  proof -
    have "hd b \<in> set b" "hd c \<in> set c" using Cons.prems(1) that by auto
    then have "hd b \<in> set b" "hd c \<in> set (concat bs)" using that by auto
    then show ?thesis using Cons.prems(2) by (simp add: sorted_wrt_append) blast
  qed
  then show ?case using Cons by (simp add: sorted_wrt_append)
qed simp

lemma table_index_sorted: "table_ok r \<Longrightarrow> index_sorted (rdIndex r)"
proof -
  assume ok: "table_ok r"
  have "map ixKey (rdIndex r) = map (\<lambda>b. Key (hd b)) (blocks_of r)"
    by (rule nth_equalityI) (simp_all add: table_block(3) [OF ok])
  moreover have "\<forall>b\<in>set (blocks_of r). b \<noteq> []"
    using table_block(2) [OF ok] by (metis in_set_conv_nth length_blocks_of)
  ultimately show ?thesis
    using heads_sorted [of "blocks_of r"] ok by (simp add: table_ok_def table_entries_def)
qed

text \<open>Entries before and after the candidate block.\<close>

lemma before_block:
  assumes ok: "table_ok r" and n: "n < length (rdIndex r)" "ixKey (rdIndex r ! n) \<le> key"
    and e: "e \<in> set (concat (take n (blocks_of r)))"
  shows "Key e < key"
proof -
  have split: "blocks_of r = take n (blocks_of r) @ blocks_of r ! n # drop (Suc n) (blocks_of r)"
    using n(1) by (intro id_take_nth_drop) simp
  have "keys_sorted (concat (take n (blocks_of r) @ blocks_of r ! n # drop (Suc n) (blocks_of r)))"
    using ok split by (simp add: table_ok_def table_entries_def)
  moreover have "hd (blocks_of r ! n) \<in> set (blocks_of r ! n)" using table_block(2) [OF ok n(1)] by simp
  ultimately have "Key e < Key (hd (blocks_of r ! n))" using e by (simp add: sorted_wrt_append) blast
  then show ?thesis using n(2) table_block(3) [OF ok n(1)] by simp
qed

lemma after_block:
  assumes ok: "table_ok r" and gt: "\<forall>j. n \<le> j \<and> j < length (rdIndex r) \<longrightarrow> key < ixKey (rdIndex r ! j)"
    and e: "e \<in> set (concat (drop n (blocks_of r)))"
  shows "key < Key e"
proof -
  obtain b where "b \<in> set (drop n (blocks_of r))" "e \<in> set b" using e by auto
  then obtain j where j: "n \<le> j" "j < length (rdIndex r)" "e \<in> set (blocks_of r ! j)"
    by (auto simp: in_set_conv_nth) (metis add.commute le_add1 less_diff_conv nth_mem)
  have "keys_sorted (blocks_of r ! j)"
  proof -
    have "concat (blocks_of r) =
        concat (take j (blocks_of r)) @ blocks_of r ! j @ concat (drop (Suc j) (blocks_of r))"
      using arg_cong [OF id_take_nth_drop [of j "blocks_of r"], of concat] j(2) by simp
    then show ?thesis using ok by (simp add: table_ok_def table_entries_def sorted_wrt_append)
  qed
  then have "Key (hd (blocks_of r ! j)) \<le> Key e" using j(3) by (rule keys_sorted_hd_le)
  moreover have "key < ixKey (rdIndex r ! j)" using gt j by blast
  then have "key < Key (hd (blocks_of r ! j))" by (simp only: table_block(3) [OF ok j(2)])
  ultimately show ?thesis by simp
qed

section \<open>Lookup\<close>

lemma find_in_block:
  assumes ok: "table_ok r" and n: "n < length (rdIndex r)"
    and le: "ixKey (rdIndex r ! n) \<le> key"
    and gt: "\<forall>j. n < j \<and> j < length (rdIndex r) \<longrightarrow> key < ixKey (rdIndex r ! j)"
  shows "find (\<lambda>e. Key e = key) (table_entries r) = find (\<lambda>e. Key e = key) (blocks_of r ! n)"
proof -
  have "table_entries r =
      concat (take n (blocks_of r)) @ blocks_of r ! n @ concat (drop (Suc n) (blocks_of r))"
    using arg_cong [OF id_take_nth_drop [of n "blocks_of r"], of concat] n
    by (simp add: table_entries_def)
  moreover have "find (\<lambda>e. Key e = key) (concat (take n (blocks_of r))) = None"
    unfolding find_None_set using before_block [OF ok n le] by (metis less_irrefl)
  moreover have "find (\<lambda>e. Key e = key) (concat (drop (Suc n) (blocks_of r))) = None"
    unfolding find_None_set using after_block [OF ok, of "Suc n" key] gt
    by (metis Suc_le_eq less_irrefl)
  ultimately show ?thesis by (simp add: find_append split: option.splits)
qed

lemma Reader_Get_spec:
  assumes ok: "table_ok r" and lk: "lookup_ok r"
  shows "Reader_Get r key = Inr (find (\<lambda>e. Key e = key) (table_entries r))"
proof (cases "\<exists>e\<in>set (table_entries r). Key e = key")
  case True
  then obtain e where e: "e \<in> set (table_entries r)" "Key e = key" by blast
  have pass: "\<not> rdClosed r" "bloom_ok (rdBloom r)" "bloom_has (rdBloom r) key"
    "mdMinKey (rdMeta r) = [] \<or> mdMinKey (rdMeta r) \<le> key"
    "mdMaxKey (rdMeta r) = [] \<or> key \<le> mdMaxKey (rdMeta r)"
    using lk e by (auto simp: lookup_ok_def)
  show ?thesis
    using table_index_sorted [OF ok]
  proof (cases rule: FindCandidateBlock_cases [where key = key])
    case none
    then have "\<forall>j. 0 \<le> j \<and> j < length (rdIndex r) \<longrightarrow> key < ixKey (rdIndex r ! j)" by simp
    then have "key < Key e"
      using after_block [OF ok, of 0 key e] e(1) by (simp add: table_entries_def)
    then show ?thesis using e(2) by simp
  next
    case (some n)
    obtain d where "ReadAt (rdData r) (ixOffset (rdIndex r ! n)) (ixLength (rdIndex r ! n)) = Inr d"
      "DecodeBlock d = Inr (blocks_of r ! n)"
      using table_block(1) [OF ok some(1)] by blast
    moreover have "find (\<lambda>e. Key e = key) (table_entries r) = find (\<lambda>e. Key e = key) (blocks_of r ! n)"
      using some by (intro find_in_block [OF ok]) auto
    ultimately show ?thesis
      using pass some(2) by (auto simp: Reader_Get_def Let_def MayContain_has)
  qed
next
  case False
  then have none: "find (\<lambda>e. Key e = key) (table_entries r) = None" by (auto simp: find_None_set)
  have search: "(case FindCandidateBlock (rdIndex r) key of
             None \<Rightarrow> Inr None
           | Some blockEntry \<Rightarrow>
               (case ReadAt (rdData r) (ixOffset blockEntry) (ixLength blockEntry) of
                  Inl err \<Rightarrow> Inl TableRead
                | Inr blockData \<Rightarrow>
                    (case DecodeBlock blockData of
                       Inl err \<Rightarrow> Inl (TableBlock err)
                     | Inr entries \<Rightarrow> Inr (find (\<lambda>e. Key e = key) entries)))) = Inr None"
    using table_index_sorted [OF ok]
  proof (cases rule: FindCandidateBlock_cases [where key = key])
    case (some n)
    obtain d where "ReadAt (rdData r) (ixOffset (rdIndex r ! n)) (ixLength (rdIndex r ! n)) = Inr d"
      "DecodeBlock d = Inr (blocks_of r ! n)"
      using table_block(1) [OF ok some(1)] by blast
    moreover have "find (\<lambda>e. Key e = key) (blocks_of r ! n) = None"
      using find_in_block [OF ok some(1), of key] some none by auto
    ultimately show ?thesis using some(2) by simp
  qed simp
  show ?thesis
    unfolding Reader_Get_def Let_def search none using lk
    by (cases "bloom_has (rdBloom r) key") (simp_all add: lookup_ok_def MayContain_has)
qed

section \<open>The iterator\<close>

definition table_rest :: "SSTableIterator \<Rightarrow> Entry list" where
  "table_rest it =
     (case tiCurrBlock it of
        None \<Rightarrow> []
      | Some blk \<Rightarrow> drop (nat (tiEntryIdx it)) blk @
          concat (drop (Suc (nat (tiBlockIdx it))) (blocks_of (tiReader it))))"

definition table_inv :: "SSTableIterator \<Rightarrow> bool" where
  "table_inv it \<longleftrightarrow> table_ok (tiReader it) \<and>
     (\<forall>blk. tiCurrBlock it = Some blk \<longrightarrow>
        0 \<le> tiBlockIdx it \<and> tiBlockIdx it < int (length (rdIndex (tiReader it))) \<and>
        blk = blocks_of (tiReader it) ! nat (tiBlockIdx it) \<and>
        0 \<le> tiEntryIdx it \<and> tiEntryIdx it < int (length blk))"

lemma loadBlock_ok:
  assumes "table_ok (tiReader it)" "i < length (rdIndex (tiReader it))"
  shows "loadBlock (int i) it =
    (LoadOk, it\<lparr>tiCurrBlock := Some (blocks_of (tiReader it) ! i), tiBlockIdx := int i, tiEntryIdx := 0\<rparr>)"
  using table_block(1) [OF assms] assms(2) by (auto simp: loadBlock_def Let_def)

lemma loadBlock_end:
  "length (rdIndex (tiReader it)) \<le> i \<Longrightarrow> loadBlock (int i) it = (LoadEOF, it\<lparr>tiCurrBlock := None\<rparr>)"
  by (simp add: loadBlock_def)

text \<open>Starting at block \<open>i\<close>, the iterator has the entries from there on.\<close>

lemma loadBlock_rest:
  assumes "table_ok (tiReader it)"
  shows "table_inv (snd (loadBlock (int i) it))" "tiReader (snd (loadBlock (int i) it)) = tiReader it"
    "table_rest (snd (loadBlock (int i) it)) = concat (drop i (blocks_of (tiReader it)))"
proof -
  have "table_inv (snd (loadBlock (int i) it)) \<and> tiReader (snd (loadBlock (int i) it)) = tiReader it \<and>
    table_rest (snd (loadBlock (int i) it)) = concat (drop i (blocks_of (tiReader it)))"
  proof (cases "i < length (rdIndex (tiReader it))")
    case True
    then have "drop i (blocks_of (tiReader it)) =
        blocks_of (tiReader it) ! i # drop (Suc i) (blocks_of (tiReader it))"
      by (simp add: Cons_nth_drop_Suc)
    then show ?thesis
      using loadBlock_ok [OF assms True] table_block(2) [OF assms True] assms True
      by (simp add: table_inv_def table_rest_def)
  next
    case False
    then show ?thesis using loadBlock_end [of it i] assms by (simp add: table_inv_def table_rest_def)
  qed
  then show "table_inv (snd (loadBlock (int i) it))" "tiReader (snd (loadBlock (int i) it)) = tiReader it"
    "table_rest (snd (loadBlock (int i) it)) = concat (drop i (blocks_of (tiReader it)))" by auto
qed

lemma table_rest_current:
  assumes "table_inv it" "tiCurrBlock it = Some blk"
  shows "TableIter_Valid it" "TableIter_Entry it = Some (blk ! nat (tiEntryIdx it))"
    "table_rest it = blk ! nat (tiEntryIdx it) # drop (Suc (nat (tiEntryIdx it))) blk @
       concat (drop (Suc (nat (tiBlockIdx it))) (blocks_of (tiReader it)))"
proof -
  have lt: "nat (tiEntryIdx it) < length blk" and v: "tiEntryIdx it < int (length blk)"
    using assms by (auto simp: table_inv_def)
  show valid: "TableIter_Valid it" using assms(2) v by (simp add: TableIter_Valid_def)
  show "TableIter_Entry it = Some (blk ! nat (tiEntryIdx it))"
    using valid assms(2) by (simp add: TableIter_Entry_def)
  have "drop (nat (tiEntryIdx it)) blk = blk ! nat (tiEntryIdx it) # drop (Suc (nat (tiEntryIdx it))) blk"
    using lt by (simp add: Cons_nth_drop_Suc)
  then show "table_rest it = blk ! nat (tiEntryIdx it) # drop (Suc (nat (tiEntryIdx it))) blk @
       concat (drop (Suc (nat (tiBlockIdx it))) (blocks_of (tiReader it)))"
    using assms(2) by (simp add: table_rest_def)
qed

lemma table_Next:
  assumes inv: "table_inv it"
  shows "table_inv (TableIter_Next it) \<and> tiReader (TableIter_Next it) = tiReader it \<and>
    table_rest (TableIter_Next it) = tl (table_rest it)"
proof (cases "tiCurrBlock it")
  case None
  then have "TableIter_Next it = it" by (simp add: TableIter_Next_def TableIter_Valid_def)
  then show ?thesis using inv None by (simp add: table_rest_def)
next
  case (Some blk)
  note cur = table_rest_current [OF inv Some]
  have ok: "table_ok (tiReader it)" using inv by (simp add: table_inv_def)
  have bi: "0 \<le> tiBlockIdx it" "0 \<le> tiEntryIdx it" using inv Some by (auto simp: table_inv_def)
  let ?it = "it\<lparr>tiEntryIdx := tiEntryIdx it + 1\<rparr>"
  show ?thesis
  proof (cases "tiEntryIdx it + 1 \<ge> int (length blk)")
    case True
    then have "length blk \<le> Suc (nat (tiEntryIdx it))" using bi(2) by linarith
    moreover have "TableIter_Next it = snd (loadBlock (int (Suc (nat (tiBlockIdx it)))) ?it)"
      using True cur(1) Some bi(1) by (simp add: TableIter_Next_def Let_def add.commute)
    ultimately show ?thesis
      using loadBlock_rest [of ?it "Suc (nat (tiBlockIdx it))"] ok by (simp add: cur(3))
  next
    case False
    then have nx: "TableIter_Next it = ?it" using cur(1) Some by (simp add: TableIter_Next_def Let_def)
    have "nat (tiEntryIdx it + 1) = Suc (nat (tiEntryIdx it))" using bi(2) by linarith
    then show ?thesis unfolding nx cur(3) using inv Some False by (simp add: table_inv_def table_rest_def)
  qed
qed

lemma first_at_least_spec:
  "first_at_least es t i =
     (if \<exists>e\<in>set es. t \<le> Key e then Some (i + length (takeWhile (\<lambda>e. Key e < t) es)) else None)"
  by (induction es arbitrary: i) (auto simp: not_less)

lemma seek_blocks_spec:
  assumes "table_ok (tiReader it)" "n = length (rdIndex (tiReader it))" "i \<le> n"
  shows "table_inv (seek_blocks t [i..<n] it) \<and> tiReader (seek_blocks t [i..<n] it) = tiReader it \<and>
    table_rest (seek_blocks t [i..<n] it) =
      dropWhile (\<lambda>e. Key e < t) (concat (drop i (blocks_of (tiReader it))))"
  using assms
proof (induction "n - i" arbitrary: i it)
  case 0
  then show ?case by (simp add: table_inv_def table_rest_def)
next
  case (Suc k)
  then have i: "i < length (rdIndex (tiReader it))" by linarith
  let ?blk = "blocks_of (tiReader it) ! i"
  let ?it = "it\<lparr>tiCurrBlock := Some ?blk, tiBlockIdx := int i, tiEntryIdx := 0\<rparr>"
  have upt: "[i..<n] = i # [Suc i..<n]" using i Suc.prems by (simp add: upt_conv_Cons)
  have drop: "drop i (blocks_of (tiReader it)) = ?blk # drop (Suc i) (blocks_of (tiReader it))"
    using i by (simp add: Cons_nth_drop_Suc)
  have unfold: "seek_blocks t [i..<n] it =
      (case first_at_least ?blk t 0 of
         Some e \<Rightarrow> ?it\<lparr>tiEntryIdx := int e\<rparr> | None \<Rightarrow> seek_blocks t [Suc i..<n] ?it)"
    unfolding upt using loadBlock_ok [OF Suc.prems(1) i] by simp
  show ?case
  proof (cases "\<exists>e\<in>set ?blk. t \<le> Key e")
    case True
    let ?n = "length (takeWhile (\<lambda>e. Key e < t) ?blk)"
    have lt: "?n < length ?blk"
      using True by (metis (mono_tags, lifting) length_takeWhile_le not_less order_le_less set_takeWhileD takeWhile_eq_take take_all order_refl)
    obtain e where "e \<in> set ?blk" "\<not> Key e < t" using True by (auto simp: not_less)
    then have "dropWhile (\<lambda>e. Key e < t) (?blk @ rest) = drop ?n ?blk @ rest" for rest
      by (simp add: dropWhile_append1 dropWhile_eq_drop length_takeWhile_le)
    then show ?thesis
      using True lt i Suc.prems(1) by (simp add: unfold first_at_least_spec drop table_inv_def table_rest_def)
  next
    case False
    then have "dropWhile (\<lambda>e. Key e < t) (?blk @ rest) = dropWhile (\<lambda>e. Key e < t) rest" for rest
      by (intro dropWhile_append2) auto
    moreover have "first_at_least ?blk t 0 = None" using False by (simp add: first_at_least_spec)
    ultimately show ?thesis
      unfolding unfold drop using Suc.hyps(1) [of "Suc i" ?it] Suc.hyps(2) Suc.prems i by simp
  qed
qed

lemma first_at_offset_nth:
  "distinct (map ixOffset idx) \<Longrightarrow> n < length idx \<Longrightarrow> first_at_offset idx (ixOffset (idx ! n)) i = i + n"
proof (induction idx arbitrary: n i)
  case (Cons e es)
  then show ?case by (cases n) force+
qed simp

lemma table_Seek:
  assumes ok: "table_ok (tiReader it)"
  shows "table_inv (TableIter_Seek t it) \<and> tiReader (TableIter_Seek t it) = tiReader it \<and>
    table_rest (TableIter_Seek t it) = dropWhile (\<lambda>e. Key e < t) (table_entries (tiReader it))"
  using table_index_sorted [OF ok]
proof (cases rule: FindCandidateBlock_cases [where key = t])
  case none
  then show ?thesis
    using seek_blocks_spec [OF ok refl, of 0 t] by (simp add: TableIter_Seek_def table_entries_def)
next
  case (some n)
  let ?bs = "blocks_of (tiReader it)"
  have "first_at_offset (rdIndex (tiReader it)) (ixOffset (rdIndex (tiReader it) ! n)) 0 = n"
    using first_at_offset_nth [of "rdIndex (tiReader it)" n 0] some(1) ok by (simp add: table_ok_def)
  then have sk: "TableIter_Seek t it = seek_blocks t [n..<length (rdIndex (tiReader it))] it"
    using some(2) by (simp add: TableIter_Seek_def Let_def)
  have "table_entries (tiReader it) = concat (take n ?bs) @ concat (drop n ?bs)"
    unfolding table_entries_def by (metis append_take_drop_id concat_append)
  moreover have "\<forall>e\<in>set (concat (take n ?bs)). Key e < t"
    using before_block [OF ok some(1)] some(3) by blast
  ultimately have "dropWhile (\<lambda>e. Key e < t) (table_entries (tiReader it)) =
      dropWhile (\<lambda>e. Key e < t) (concat (drop n ?bs))"
    by (simp only:) (intro dropWhile_append2, blast)
  then show ?thesis unfolding sk using seek_blocks_spec [OF ok refl, of n t] some(1) by simp
qed

lemma table_suffix:
  assumes "table_inv it"
  shows "\<exists>n. table_rest it = drop n (table_entries (tiReader it))"
proof (cases "tiCurrBlock it")
  case None
  then show ?thesis by (intro exI [of _ "length (table_entries (tiReader it))"]) (simp add: table_rest_def)
next
  case (Some blk)
  let ?bs = "blocks_of (tiReader it)" and ?i = "nat (tiBlockIdx it)"
  have i: "?i < length ?bs" "blk = ?bs ! ?i" "nat (tiEntryIdx it) \<le> length blk"
    using assms Some by (auto simp: table_inv_def nat_less_iff)
  have "table_entries (tiReader it) = concat (take ?i ?bs) @ blk @ concat (drop (Suc ?i) ?bs)"
    using arg_cong [OF id_take_nth_drop [OF i(1)], of concat] i(2) by (simp add: table_entries_def)
  then have "drop (length (concat (take ?i ?bs)) + nat (tiEntryIdx it)) (table_entries (tiReader it)) =
      table_rest it"
    using Some i(3) by (simp add: table_rest_def)
  then show ?thesis by metis
qed

interpretation table: sorted_iterator table_iterator table_inv "\<lambda>it. table_entries (tiReader it)" table_rest
proof unfold_locales
  fix it k
  assume inv: "table_inv it"
  then have ok: "table_ok (tiReader it)" by (simp add: table_inv_def)
  then show "keys_sorted (table_entries (tiReader it))" by (simp add: table_ok_def)
  show "\<exists>n. table_rest it = drop n (table_entries (tiReader it))" by (rule table_suffix [OF inv])
  show valid: "itValid table_iterator it \<longleftrightarrow> table_rest it \<noteq> []"
    using table_rest_current [OF inv]
    by (cases "tiCurrBlock it") (auto simp: table_iterator_def TableIter_Valid_def table_rest_def)
  show "itEntry table_iterator it = Some (hd (table_rest it))"
    "itKey table_iterator it = Key (hd (table_rest it))" if ne: "table_rest it \<noteq> []"
  proof -
    obtain blk where "tiCurrBlock it = Some blk" using ne by (cases "tiCurrBlock it") (auto simp: table_rest_def)
    then show "itEntry table_iterator it = Some (hd (table_rest it))"
      "itKey table_iterator it = Key (hd (table_rest it))"
      using table_rest_current [OF inv] by (simp_all add: table_iterator_def TableIter_Key_def)
  qed
  show "table_rest (itNext table_iterator it) = tl (table_rest it)"
    "table_inv (itNext table_iterator it) \<and>
      table_entries (tiReader (itNext table_iterator it)) = table_entries (tiReader it)"
    using table_Next [OF inv] by (simp_all add: table_iterator_def)
  show "table_rest (itSeek table_iterator k it) = dropWhile (\<lambda>e. Key e < k) (table_entries (tiReader it))"
    "table_inv (itSeek table_iterator k it) \<and>
      table_entries (tiReader (itSeek table_iterator k it)) = table_entries (tiReader it)"
    using table_Seek [OF ok] by (simp_all add: table_iterator_def)
qed

lemma NewIterator_table:
  assumes "table_ok r" "\<not> rdClosed r"
  shows "\<exists>it. Reader_NewIterator r = Inr it \<and> table_inv it \<and> tiReader it = r \<and> table_rest it = table_entries r"
proof -
  let ?it = "\<lparr>tiReader = r, tiBlockIdx = 0, tiEntryIdx = 0, tiCurrBlock = None\<rparr>"
  have "fst (loadBlock 0 ?it) \<noteq> LoadErr"
    using loadBlock_ok [of ?it 0] loadBlock_end [of ?it 0] assms(1)
    by (cases "0 < length (rdIndex r)") auto
  then have "Reader_NewIterator r = Inr (snd (loadBlock 0 ?it))"
    using assms(2) by (auto simp: Reader_NewIterator_def split: prod.splits load_result.splits)
  then show ?thesis
    using loadBlock_rest [of ?it 0] assms(1) by (simp add: table_entries_def)
qed

end
