(* ===== verification/Picker.thy ===== *)
theory Picker
  imports Manifest SSTableProps
begin

text \<open>
  \<open>pkg/compactor/picker.go\<close>: the choice of the next compaction from the levels of the manifest
  and the key ranges and sizes of the tables. The floating-point score is a parameter.
\<close>

section \<open>The picker\<close>

record LevelConfig =
  L0CompactionTrigger :: int
  BaseLevelSizeMB :: int
  LevelMultiplier :: int
  MaxLevels :: int

definition DefaultLevelConfig :: LevelConfig where
  "DefaultLevelConfig =
     \<lparr>L0CompactionTrigger = 4, BaseLevelSizeMB = 10, LevelMultiplier = 10, MaxLevels = 7\<rparr>"

record CompactionTask =
  FromLevel :: int
  ToLevel :: int
  InputFrom :: "uint64 list"
  InputTo :: "uint64 list"
  IsBottom :: bool

text \<open>
  The \<open>float64\<close> arithmetic: \<open>flScale base m n\<close> is \<open>int64(float64(base) * math.Pow(m, n))\<close>,
  \<open>flDiv\<close> the quotient of two integers, \<open>flGreater\<close> the comparison and \<open>flOne\<close> the constant 1.0.
\<close>

record 'f float_ops =
  flScale :: "int \<Rightarrow> int \<Rightarrow> int \<Rightarrow> int"
  flDiv :: "int \<Rightarrow> int \<Rightarrow> 'f"
  flGreater :: "'f \<Rightarrow> 'f \<Rightarrow> bool"
  flOne :: 'f

type_synonym readers = "uint64 \<Rightarrow> SSTableReader option"

definition maxBytesForLevel :: "'f float_ops \<Rightarrow> LevelConfig \<Rightarrow> int \<Rightarrow> int" where
  "maxBytesForLevel F cfg lvl =
     flScale F (BaseLevelSizeMB cfg * 1024 * 1024) (LevelMultiplier cfg) (lvl - 1)"

text \<open>The key range spanned by the tables that have a reader.\<close>

fun range_of_tables :: "readers \<Rightarrow> uint64 list \<Rightarrow> bytes \<Rightarrow> bytes \<Rightarrow> bytes \<times> bytes" where
  "range_of_tables readers [] minKey maxKey = (minKey, maxKey)"
| "range_of_tables readers (tid # tids) minKey maxKey =
     (case readers tid of
        None \<Rightarrow> range_of_tables readers tids minKey maxKey
      | Some r \<Rightarrow>
          range_of_tables readers tids
            (if length minKey = 0 \<or> bytes_compare (mdMinKey (rdMeta r)) minKey < 0
             then mdMinKey (rdMeta r) else minKey)
            (if length maxKey = 0 \<or> bytes_compare (mdMaxKey (rdMeta r)) maxKey > 0
             then mdMaxKey (rdMeta r) else maxKey))"

definition findOverlapping :: "uint64 list \<Rightarrow> uint64 list \<Rightarrow> readers \<Rightarrow> uint64 list" where
  "findOverlapping fromTables toTables readers =
     (if length toTables = 0 then []
      else case range_of_tables readers fromTables [] [] of
        (minKey, maxKey) \<Rightarrow>
          filter (\<lambda>tid. case readers tid of
              None \<Rightarrow> False
            | Some r \<Rightarrow> \<not> (bytes_compare (mdMaxKey (rdMeta r)) minKey < 0 \<or>
                           bytes_compare (mdMinKey (rdMeta r)) maxKey > 0)) toTables)"

definition isBottomLevel :: "LevelConfig \<Rightarrow> int \<Rightarrow> (int \<Rightarrow> uint64 list) \<Rightarrow> bool" where
  "isBottomLevel cfg lvl levels = list_all (\<lambda>l. length (levels l) = 0) [lvl + 1..MaxLevels cfg - 1]"

definition level_size :: "readers \<Rightarrow> uint64 list \<Rightarrow> int" where
  "level_size readers tbls =
     (\<Sum>tid\<leftarrow>tbls. case readers tid of None \<Rightarrow> 0 | Some r \<Rightarrow> mdDataSize (rdMeta r))"

text \<open>The loop over the levels: the level with the best score so far and its score.\<close>

fun best_level ::
  "'f float_ops \<Rightarrow> LevelConfig \<Rightarrow> (int \<Rightarrow> uint64 list) \<Rightarrow> readers \<Rightarrow> int list \<Rightarrow> int \<Rightarrow> 'f \<Rightarrow> int" where
  "best_level F cfg levels readers [] bestLevel bestScore = bestLevel"
| "best_level F cfg levels readers (lvl # lvls) bestLevel bestScore =
     (if length (levels lvl) = 0 then best_level F cfg levels readers lvls bestLevel bestScore
      else
        let score = flDiv F (level_size readers (levels lvl)) (maxBytesForLevel F cfg lvl)
        in if flGreater F score bestScore then best_level F cfg levels readers lvls lvl score
           else best_level F cfg levels readers lvls bestLevel bestScore)"

definition PickCompaction ::
  "'f float_ops \<Rightarrow> LevelConfig \<Rightarrow> (int \<Rightarrow> uint64 list) \<Rightarrow> readers \<Rightarrow> CompactionTask option" where
  "PickCompaction F cfg levels readers =
     (if int (length (levels 0)) \<ge> L0CompactionTrigger cfg
      then Some \<lparr>FromLevel = 0, ToLevel = 1, InputFrom = levels 0,
             InputTo = findOverlapping (levels 0) (levels 1) readers,
             IsBottom = isBottomLevel cfg 1 levels\<rparr>
      else
        let bestLevel = best_level F cfg levels readers [1..MaxLevels cfg - 1] (- 1) (flOne F)
        in if bestLevel = - 1 then None
           else
             let candidateID = hd (levels bestLevel)
             in Some \<lparr>FromLevel = bestLevel, ToLevel = bestLevel + 1, InputFrom = [candidateID],
                  InputTo = findOverlapping [candidateID] (levels (bestLevel + 1)) readers,
                  IsBottom = isBottomLevel cfg (bestLevel + 1) levels\<rparr>)"

section \<open>Key ranges\<close>

text \<open>The table covers the key: the keys of its entries lie between its first and its last key.\<close>

definition covers :: "SSTableReader \<Rightarrow> bytes \<Rightarrow> bool" where
  "covers r k \<longleftrightarrow> mdMinKey (rdMeta r) \<le> k \<and> k \<le> mdMaxKey (rdMeta r)"

text \<open>Every table in the list that has a reader has non-empty keys at both ends, in order.\<close>

definition proper_ranges :: "readers \<Rightarrow> uint64 set \<Rightarrow> bool" where
  "proper_ranges readers tids \<longleftrightarrow>
     (\<forall>tid\<in>tids. \<forall>r. readers tid = Some r \<longrightarrow>
        mdMinKey (rdMeta r) \<noteq> [] \<and> mdMinKey (rdMeta r) \<le> mdMaxKey (rdMeta r))"

lemma range_of_tables_spec:
  assumes "proper_ranges readers (set tids)" "range_of_tables readers tids a b = (lo, hi)"
    and "a = [] \<longleftrightarrow> b = []"
  shows "(a \<noteq> [] \<longrightarrow> lo \<le> a \<and> b \<le> hi) \<and>
    (\<forall>tid\<in>set tids. \<forall>r. readers tid = Some r \<longrightarrow> lo \<le> mdMinKey (rdMeta r) \<and> mdMaxKey (rdMeta r) \<le> hi)"
  using assms
proof (induction tids arbitrary: a b)
  case (Cons tid tids)
  show ?case
  proof (cases "readers tid")
    case None
    then show ?thesis using Cons by (auto simp: proper_ranges_def)
  next
    case (Some r)
    let ?lo = "mdMinKey (rdMeta r)" and ?hi = "mdMaxKey (rdMeta r)"
    let ?a = "if a = [] \<or> ?lo < a then ?lo else a" and ?b = "if b = [] \<or> b < ?hi then ?hi else b"
    have ne: "?lo \<noteq> []" "?lo \<le> ?hi" using Cons.prems(1) Some by (auto simp: proper_ranges_def)
    then have "?hi \<noteq> []" by auto
    have "proper_ranges readers (set tids)" using Cons.prems(1) by (simp add: proper_ranges_def)
    moreover have "range_of_tables readers tids ?a ?b = (lo, hi)" using Cons.prems(2) Some by simp
    moreover have "?a \<noteq> [] \<and> ?b \<noteq> []" using ne \<open>?hi \<noteq> []\<close> by auto
    ultimately have "(lo \<le> ?a \<and> ?b \<le> hi) \<and>
        (\<forall>tid\<in>set tids. \<forall>r. readers tid = Some r \<longrightarrow> lo \<le> mdMinKey (rdMeta r) \<and> mdMaxKey (rdMeta r) \<le> hi)"
      using Cons.IH [of ?a ?b] by blast
    moreover have "?a \<le> ?lo" "a \<noteq> [] \<longrightarrow> ?a \<le> a" "?hi \<le> ?b" "b \<noteq> [] \<longrightarrow> b \<le> ?b" by auto
    ultimately show ?thesis using Some Cons.prems(3) by (auto intro: order_trans)
  qed
qed simp

text \<open>Tables of the next level that a compaction leaves alone share no key with its inputs.\<close>

lemma findOverlapping_rest:
  assumes ok: "proper_ranges readers (set fromTables)"
    and f: "f \<in> set fromTables" "readers f = Some rf" and t: "t \<in> set toTables" "readers t = Some rt"
    and notin: "t \<notin> set (findOverlapping fromTables toTables readers)"
  shows "mdMaxKey (rdMeta rt) < mdMinKey (rdMeta rf) \<or> mdMaxKey (rdMeta rf) < mdMinKey (rdMeta rt)"
proof -
  obtain lo hi where r: "range_of_tables readers fromTables [] [] = (lo, hi)" by fastforce
  then have "lo \<le> mdMinKey (rdMeta rf)" "mdMaxKey (rdMeta rf) \<le> hi"
    using range_of_tables_spec [OF ok r] f by blast+
  moreover have "mdMaxKey (rdMeta rt) < lo \<or> hi < mdMinKey (rdMeta rt)"
    using notin t r by (auto simp: findOverlapping_def split: if_splits)
  ultimately show ?thesis by (auto intro: order.strict_trans1 order.strict_trans2)
qed

lemma findOverlapping_subset: "set (findOverlapping fs ts readers) \<subseteq> set ts"
  by (auto simp: findOverlapping_def split: prod.splits)

section \<open>The level chosen\<close>

lemma best_level_cases:
  assumes "best_level F cfg levels readers lvls b s \<noteq> b"
  shows "best_level F cfg levels readers lvls b s \<in> set lvls \<and>
    levels (best_level F cfg levels readers lvls b s) \<noteq> []"
  using assms
proof (induction lvls arbitrary: b s)
  case (Cons l lvls)
  let ?s = "flDiv F (level_size readers (levels l)) (maxBytesForLevel F cfg l)"
  show ?case
  proof (cases "levels l = [] \<or> \<not> flGreater F ?s s")
    case True
    then have "best_level F cfg levels readers (l # lvls) b s = best_level F cfg levels readers lvls b s"
      by (auto simp: Let_def)
    then show ?thesis using Cons by auto
  next
    case False
    then have eq: "best_level F cfg levels readers (l # lvls) b s = best_level F cfg levels readers lvls l ?s"
      by (auto simp: Let_def)
    show ?thesis
    proof (cases "best_level F cfg levels readers lvls l ?s = l")
      case True
      then show ?thesis using False eq by auto
    next
      case neq: False
      then show ?thesis using Cons.IH [OF neq] eq by auto
    qed
  qed
qed simp

text \<open>The scores are compared strictly, so a level at or below its size is never chosen.\<close>

lemma best_level_score:
  assumes trans: "\<And>x y z. flGreater F x y \<Longrightarrow> flGreater F y z \<Longrightarrow> flGreater F x z"
    and "best_level F cfg levels readers lvls b s \<noteq> b"
  shows "let l = best_level F cfg levels readers lvls b s
    in flGreater F (flDiv F (level_size readers (levels l)) (maxBytesForLevel F cfg l)) s"
  using assms(2)
proof (induction lvls arbitrary: b s)
  case (Cons l lvls)
  let ?sc = "\<lambda>l. flDiv F (level_size readers (levels l)) (maxBytesForLevel F cfg l)"
  show ?case
  proof (cases "levels l = [] \<or> \<not> flGreater F (?sc l) s")
    case True
    then have "best_level F cfg levels readers (l # lvls) b s = best_level F cfg levels readers lvls b s"
      by (auto simp: Let_def)
    then show ?thesis using Cons.IH [of b s] Cons.prems by simp
  next
    case False
    then have eq: "best_level F cfg levels readers (l # lvls) b s = best_level F cfg levels readers lvls l (?sc l)"
      by (auto simp: Let_def)
    show ?thesis
    proof (cases "best_level F cfg levels readers lvls l (?sc l) = l")
      case True
      then show ?thesis using False eq by (simp only: Let_def) auto
    next
      case neq: False
      then have "flGreater F (?sc (best_level F cfg levels readers lvls l (?sc l))) (?sc l)"
        using Cons.IH [OF neq] by (simp only: Let_def)
      then show ?thesis using False eq trans by (simp only: Let_def) blast
    qed
  qed
qed simp

lemma PickCompaction_cases:
  assumes "PickCompaction F cfg levels readers = Some task"
  obtains (L0) "int (length (levels 0)) \<ge> L0CompactionTrigger cfg" "FromLevel task = 0" "InputFrom task = levels 0"
      "ToLevel task = 1" "InputTo task = findOverlapping (InputFrom task) (levels (ToLevel task)) readers"
      "IsBottom task = isBottomLevel cfg (ToLevel task) levels"
  | (Deeper) "int (length (levels 0)) < L0CompactionTrigger cfg"
      "1 \<le> FromLevel task" "FromLevel task < MaxLevels cfg" "levels (FromLevel task) \<noteq> []"
      "InputFrom task = [hd (levels (FromLevel task))]" "ToLevel task = FromLevel task + 1"
      "InputTo task = findOverlapping (InputFrom task) (levels (ToLevel task)) readers"
      "IsBottom task = isBottomLevel cfg (ToLevel task) levels"
proof (cases "int (length (levels 0)) \<ge> L0CompactionTrigger cfg")
  case True
  then show ?thesis using assms by (intro L0) (auto simp: PickCompaction_def)
next
  case False
  let ?b = "best_level F cfg levels readers [1..MaxLevels cfg - 1] (- 1) (flOne F)"
  have ne: "?b \<noteq> - 1" using assms False by (auto simp: PickCompaction_def Let_def split: if_splits)
  then have "?b \<in> set [1..MaxLevels cfg - 1]" "levels ?b \<noteq> []"
    using best_level_cases [OF ne] by auto
  then show ?thesis using assms False ne by (intro Deeper) (auto simp: PickCompaction_def Let_def)
qed


lemma best_level_none:
  "b \<notin> set lvls \<Longrightarrow> best_level F cfg levels readers lvls b s = b \<longleftrightarrow>
    (\<forall>l\<in>set lvls. levels l \<noteq> [] \<longrightarrow>
       \<not> flGreater F (flDiv F (level_size readers (levels l)) (maxBytesForLevel F cfg l)) s)"
proof (induction lvls arbitrary: s)
  case (Cons l lvls)
  let ?sc = "flDiv F (level_size readers (levels l)) (maxBytesForLevel F cfg l)"
  show ?case
  proof (cases "levels l = [] \<or> \<not> flGreater F ?sc s")
    case True
    then have "best_level F cfg levels readers (l # lvls) b s = best_level F cfg levels readers lvls b s"
      by (auto simp: Let_def)
    then show ?thesis using Cons True by auto
  next
    case False
    then have eq: "best_level F cfg levels readers (l # lvls) b s = best_level F cfg levels readers lvls l ?sc"
      by (auto simp: Let_def)
    have "best_level F cfg levels readers lvls l ?sc \<in> insert l (set lvls)"
      using best_level_cases [of F cfg levels readers lvls l ?sc] by auto
    then show ?thesis using False eq Cons.prems by auto
  qed
qed simp

section \<open>Properties\<close>

text \<open>
  C32. A compaction task takes its inputs from two adjacent levels: all tables of level 0 when there
  are enough of them, the first table of a deeper level otherwise. Every table of the target level
  that it leaves out shares no key with an input, so the target level stays free of overlaps, and
  the task is marked as bottom exactly when no deeper level has a table, so that tombstones may go.
\<close>

theorem picker_inputs_cover_overlaps:
  assumes "PickCompaction F cfg levels readers = Some task"
    and "proper_ranges readers (set (InputFrom task))"
  shows "ToLevel task = FromLevel task + 1 \<and> 0 \<le> FromLevel task \<and>
    set (InputFrom task) \<subseteq> set (levels (FromLevel task)) \<and>
    set (InputTo task) \<subseteq> set (levels (ToLevel task)) \<and>
    (int (length (levels 0)) \<ge> L0CompactionTrigger cfg \<longrightarrow> InputFrom task = levels 0) \<and>
    (\<forall>f rf t rt k. f \<in> set (InputFrom task) \<and> readers f = Some rf \<and>
       t \<in> set (levels (ToLevel task)) - set (InputTo task) \<and> readers t = Some rt \<longrightarrow>
       \<not> (covers rf k \<and> covers rt k)) \<and>
    (IsBottom task \<longleftrightarrow> (\<forall>l. ToLevel task < l \<and> l < MaxLevels cfg \<longrightarrow> levels l = []))"
proof -
  have bottom: "isBottomLevel cfg l levels \<longleftrightarrow> (\<forall>j. l < j \<and> j < MaxLevels cfg \<longrightarrow> levels j = [])" for l
    by (auto simp: isBottomLevel_def list_all_iff)
  have apart: "\<forall>f rf t rt k. f \<in> set (InputFrom task) \<and> readers f = Some rf \<and>
       t \<in> set (levels (ToLevel task)) - set (InputTo task) \<and> readers t = Some rt \<longrightarrow>
       \<not> (covers rf k \<and> covers rt k)"
    if to: "InputTo task = findOverlapping (InputFrom task) (levels (ToLevel task)) readers"
  proof (intro allI impI)
    fix f rf t rt k
    assume "f \<in> set (InputFrom task) \<and> readers f = Some rf \<and>
      t \<in> set (levels (ToLevel task)) - set (InputTo task) \<and> readers t = Some rt"
    then show "\<not> (covers rf k \<and> covers rt k)"
      using findOverlapping_rest [OF assms(2), of f rf t "levels (ToLevel task)" rt]
      by (fastforce simp: covers_def to)
  qed
  have sub: "set (InputTo task) \<subseteq> set (levels (ToLevel task))"
    if "InputTo task = findOverlapping (InputFrom task) (levels (ToLevel task)) readers"
    using findOverlapping_subset that by metis
  from assms(1) show ?thesis
  proof (cases rule: PickCompaction_cases)
    case L0
    show ?thesis
      using L0(1-4) apart [OF L0(5)] sub [OF L0(5)] unfolding L0(6) bottom by simp
  next
    case Deeper
    show ?thesis
      using Deeper(1-6) apart [OF Deeper(7)] sub [OF Deeper(7)] unfolding Deeper(8) bottom by simp
  qed
qed

text \<open>
  C33. No compaction is due exactly when level 0 has fewer tables than the trigger and no level from 1
  on that has tables scores above 1.
\<close>

theorem picker_none_iff_within_limits:
  "PickCompaction F cfg levels readers = None \<longleftrightarrow>
    int (length (levels 0)) < L0CompactionTrigger cfg \<and>
    (\<forall>l. 1 \<le> l \<and> l < MaxLevels cfg \<and> levels l \<noteq> [] \<longrightarrow>
       \<not> flGreater F (flDiv F (level_size readers (levels l)) (maxBytesForLevel F cfg l)) (flOne F))"
proof -
  have "best_level F cfg levels readers [1..MaxLevels cfg - 1] (- 1) (flOne F) = - 1 \<longleftrightarrow>
    (\<forall>l. 1 \<le> l \<and> l < MaxLevels cfg \<and> levels l \<noteq> [] \<longrightarrow>
       \<not> flGreater F (flDiv F (level_size readers (levels l)) (maxBytesForLevel F cfg l)) (flOne F))"
    by (subst best_level_none) auto
  then show ?thesis by (auto simp: PickCompaction_def Let_def)
qed

text \<open>
  The last level is compacted into a level behind it. When only level \<open>MaxLevels - 1\<close> is over its
  size, the task moves its first table to level \<open>MaxLevels\<close> and is marked as bottom; the engine
  reads the levels below \<open>MaxLevels\<close> only.
\<close>

lemma picker_leaves_last_level:
  assumes "int (length (levels 0)) < L0CompactionTrigger cfg" "1 < MaxLevels cfg"
    and "\<forall>l. 1 \<le> l \<and> l < MaxLevels cfg - 1 \<longrightarrow> levels l = []" "levels (MaxLevels cfg - 1) = t # ts"
    and "flGreater F (flDiv F (level_size readers (t # ts)) (maxBytesForLevel F cfg (MaxLevels cfg - 1))) (flOne F)"
  shows "\<exists>task. PickCompaction F cfg levels readers = Some task \<and> ToLevel task = MaxLevels cfg \<and>
    InputFrom task = [t] \<and> IsBottom task"
proof -
  have "PickCompaction F cfg levels readers \<noteq> None"
    using assms by (auto simp: picker_none_iff_within_limits intro!: exI [of _ "MaxLevels cfg - 1"])
  then obtain task where task: "PickCompaction F cfg levels readers = Some task" by auto
  then show ?thesis
  proof (cases rule: PickCompaction_cases)
    case Deeper
    then have "FromLevel task = MaxLevels cfg - 1" using assms(3) by force
    then show ?thesis using task Deeper assms(4) by (simp add: isBottomLevel_def list_all_iff)
  qed (use assms(1) in simp)
qed

text \<open>Integers as scores, and two tables that meet in a key.\<close>

definition exact_ops :: "(int \<times> int) float_ops" where
  "exact_ops = \<lparr>flScale = (\<lambda>base m n. base * m ^ nat n), flDiv = Pair,
     flGreater = (\<lambda>(a, b) (c, d). a * d > c * b), flOne = (1, 1)\<rparr>"

definition sample_reader :: "uint64 \<Rightarrow> int \<Rightarrow> int \<Rightarrow> bytes \<Rightarrow> bytes \<Rightarrow> SSTableReader" where
  "sample_reader tid lvl sz lo hi =
     \<lparr>rdId = tid,
      rdMeta = \<lparr>mdID = tid, mdLevel = lvl, mdEntryCount = 0, mdDataSize = sz, mdMinKey = lo,
        mdMaxKey = hi, mdCreatedAt = 0\<rparr>,
      rdIndex = [], rdBloom = NewBloomFilter (\<lambda>n. 20) (\<lambda>bits n. 3) 2, rdData = [],
      rdClosed = False, rdBypassBloom = False\<rparr>"

definition sample_readers :: readers where
  "sample_readers = [1 \<mapsto> sample_reader 1 0 100 [1] [5], 2 \<mapsto> sample_reader 2 1 100 [4] [8],
     3 \<mapsto> sample_reader 3 1 (10 ^ 13) [9] [9]]"

definition sample_levels :: "int \<Rightarrow> uint64 list" where
  "sample_levels l = (if l = 0 then [1] else if l = 1 then [2, 3] else [])"

theorem picker_inputs_cover_overlaps_witness:
  "let cfg = DefaultLevelConfig\<lparr>L0CompactionTrigger := 1\<rparr>
   in PickCompaction exact_ops cfg sample_levels sample_readers =
     Some \<lparr>FromLevel = 0, ToLevel = 1, InputFrom = [1], InputTo = [2], IsBottom = True\<rparr> \<and>
     (\<forall>k. \<not> (covers (sample_reader 1 0 100 [1] [5]) k \<and> covers (sample_reader 3 1 (10 ^ 13) [9] [9]) k))"
proof -
  let ?cfg = "DefaultLevelConfig\<lparr>L0CompactionTrigger := 1\<rparr>"
  let ?task = "\<lparr>FromLevel = 0, ToLevel = 1, InputFrom = [1], InputTo = [2], IsBottom = True\<rparr> :: CompactionTask"
  have p: "PickCompaction exact_ops ?cfg sample_levels sample_readers = Some ?task"
    by (simp add: PickCompaction_def DefaultLevelConfig_def sample_levels_def findOverlapping_def
        sample_readers_def sample_reader_def isBottomLevel_def list_all_iff)
  have "proper_ranges sample_readers (set (InputFrom ?task))"
    by (simp add: proper_ranges_def sample_readers_def sample_reader_def)
  from picker_inputs_cover_overlaps [OF p this] p show ?thesis
    by (simp add: Let_def sample_levels_def sample_readers_def)
qed

theorem picker_none_iff_within_limits_witness:
  "PickCompaction exact_ops DefaultLevelConfig (\<lambda>l. if l = 1 then [2] else []) sample_readers = None"
  unfolding picker_none_iff_within_limits
  by (simp add: DefaultLevelConfig_def exact_ops_def level_size_def maxBytesForLevel_def
      sample_readers_def sample_reader_def)

lemma picker_leaves_last_level_witness:
  "\<exists>task. PickCompaction exact_ops DefaultLevelConfig (\<lambda>l. if l = 6 then [3] else []) sample_readers = Some task \<and>
    ToLevel task = 7 \<and> InputFrom task = [3] \<and> IsBottom task"
  using picker_leaves_last_level [of "\<lambda>l. if l = 6 then [3] else []" DefaultLevelConfig 3 "[]"
      exact_ops sample_readers]
  by (simp add: DefaultLevelConfig_def exact_ops_def level_size_def maxBytesForLevel_def
      sample_readers_def sample_reader_def)

end
