(* ===== verification/BinHeap.thy ===== *)
theory BinHeap
  imports Prelude "HOL-Library.Multiset"
begin

text \<open>
  The binary min-heap inside \<open>pkg/core/merger.go\<close> (\<open>swap\<close>, \<open>up\<close>, \<open>down\<close>, \<open>push\<close>, \<open>pop\<close>), over
  an arbitrary comparison; the merger supplies its \<open>less\<close>. The locale states what the heap needs
  of a comparison, and holds the lemmas.
\<close>

section \<open>Operations\<close>

definition heap_swap :: "'a list \<Rightarrow> nat \<Rightarrow> nat \<Rightarrow> 'a list" where
  "heap_swap h i j = h[i := h ! j, j := h ! i]"

function heap_up :: "('a \<Rightarrow> 'a \<Rightarrow> bool) \<Rightarrow> 'a list \<Rightarrow> nat \<Rightarrow> 'a list" where
  "heap_up lt h j =
     (let i = (j - 1) div 2
      in if i = j \<or> \<not> lt (h ! j) (h ! i) then h else heap_up lt (heap_swap h i j) i)"
  by pat_completeness auto
termination by (relation "measure (\<lambda>(lt, h, j). j)") auto

function heap_down :: "('a \<Rightarrow> 'a \<Rightarrow> bool) \<Rightarrow> 'a list \<Rightarrow> nat \<Rightarrow> nat \<Rightarrow> 'a list" where
  "heap_down lt h i n =
     (let j1 = 2 * i + 1
      in if j1 \<ge> n then h
         else
           let j2 = j1 + 1;
               j = (if j2 < n \<and> lt (h ! j2) (h ! j1) then j2 else j1)
           in if \<not> lt (h ! j) (h ! i) then h else heap_down lt (heap_swap h i j) j n)"
  by pat_completeness auto
termination by (relation "measure (\<lambda>(lt, h, i, n). n - i)") (auto simp: Let_def split: if_splits)

declare heap_up.simps [simp del] heap_down.simps [simp del]

definition heap_push :: "('a \<Rightarrow> 'a \<Rightarrow> bool) \<Rightarrow> 'a \<Rightarrow> 'a list \<Rightarrow> 'a list" where
  "heap_push lt item h = heap_up lt (h @ [item]) (length (h @ [item]) - 1)"

definition heap_pop :: "('a \<Rightarrow> 'a \<Rightarrow> bool) \<Rightarrow> 'a list \<Rightarrow> 'a \<times> 'a list" where
  "heap_pop lt h =
     (let n = length h - 1;
          h1 = heap_down lt (heap_swap h 0 n) 0 n
      in (h1 ! n, take n h1))"

section \<open>Structure\<close>

lemma length_heap_swap [simp]: "length (heap_swap h i j) = length h"
  by (simp add: heap_swap_def)

lemma mset_heap_swap: "i < length h \<Longrightarrow> j < length h \<Longrightarrow> mset (heap_swap h i j) = mset h"
  by (simp add: heap_swap_def mset_swap)

lemma nth_heap_swap:
  "i < length h \<Longrightarrow> j < length h \<Longrightarrow>
   heap_swap h i j ! k = (if k = i then h ! j else if k = j then h ! i else h ! k)"
  by (auto simp: heap_swap_def nth_list_update)

lemma length_heap_up [simp]: "length (heap_up lt h j) = length h"
  by (induction lt h j rule: heap_up.induct) (subst heap_up.simps, auto simp: Let_def)

lemma length_heap_down [simp]: "length (heap_down lt h i n) = length h"
  by (induction lt h i n rule: heap_down.induct) (subst heap_down.simps, auto simp: Let_def)

lemma mset_heap_up: "j < length h \<Longrightarrow> mset (heap_up lt h j) = mset h"
proof (induction lt h j rule: heap_up.induct)
  case (1 lt h j)
  have "(j - 1) div 2 < length h" using 1(2) by linarith
  with 1 show ?case by (subst heap_up.simps) (auto simp: Let_def mset_heap_swap)
qed

lemma mset_heap_down: "n \<le> length h \<Longrightarrow> mset (heap_down lt h i n) = mset h"
proof (induction lt h i n rule: heap_down.induct)
  case (1 lt h i n)
  then show ?case by (subst heap_down.simps) (auto simp: Let_def mset_heap_swap)
qed

lemma heap_down_beyond: "n \<le> k \<Longrightarrow> n \<le> length h \<Longrightarrow> heap_down lt h i n ! k = h ! k"
proof (induction lt h i n rule: heap_down.induct)
  case (1 lt h i n)
  then show ?case by (subst heap_down.simps) (auto simp: Let_def nth_heap_swap)
qed

section \<open>The heap property\<close>

definition ordered_at :: "('a \<Rightarrow> 'a \<Rightarrow> bool) \<Rightarrow> 'a list \<Rightarrow> nat \<Rightarrow> bool" where
  "ordered_at lt h k \<longleftrightarrow> \<not> lt (h ! k) (h ! ((k - 1) div 2))"

definition is_heap :: "('a \<Rightarrow> 'a \<Rightarrow> bool) \<Rightarrow> 'a list \<Rightarrow> nat \<Rightarrow> bool" where
  "is_heap lt h n \<longleftrightarrow> (\<forall>k. 0 < k \<and> k < n \<longrightarrow> ordered_at lt h k)"

text \<open>A comparison whose negation is a total preorder, as Go's \<open>sort\<close> and heap code expects.\<close>

locale heap_order =
  fixes lt :: "'a \<Rightarrow> 'a \<Rightarrow> bool"
  assumes asym: "lt a b \<Longrightarrow> \<not> lt b a"
    and neg_trans: "\<not> lt b a \<Longrightarrow> \<not> lt c b \<Longrightarrow> \<not> lt c a"
begin

lemma irrefl: "\<not> lt a a"
  using asym by blast

lemma down_is_heap:
  assumes "n \<le> length h" "i < n"
    and "\<And>k. 0 < k \<Longrightarrow> k < n \<Longrightarrow> (k - 1) div 2 \<noteq> i \<Longrightarrow> ordered_at lt h k"
    and "\<And>k. 0 < k \<Longrightarrow> k < n \<Longrightarrow> (k - 1) div 2 = i \<Longrightarrow> 0 < i \<Longrightarrow> \<not> lt (h ! k) (h ! ((i - 1) div 2))"
  shows "is_heap lt (heap_down lt h i n) n"
  using assms
proof (induction "n - i" arbitrary: h i rule: less_induct)
  case less
  let ?j1 = "2 * i + 1" and ?j2 = "2 * i + 2"
  have child: "k = ?j1 \<or> k = ?j2" if "0 < k" "(k - 1) div 2 = i" for k
    using that by arith
  show ?case
  proof (cases "?j1 \<ge> n")
    case True
    then have "(k - 1) div 2 \<noteq> i" if "k < n" "0 < k" for k using child [of k] that by auto
    with True less.prems(3) show ?thesis by (subst heap_down.simps) (auto simp: is_heap_def)
  next
    case j1: False
    define j where "j = (if ?j2 < n \<and> lt (h ! ?j2) (h ! ?j1) then ?j2 else ?j1)"
    have j: "j < n" "i < j" "0 < j" "(j - 1) div 2 = i" using j1 by (auto simp: j_def)
    have min: "\<not> lt (h ! k) (h ! j)" if "0 < k" "k < n" "(k - 1) div 2 = i" for k
      using child [OF that(1,3)]
    proof
      assume "k = ?j1"
      then show ?thesis using asym irrefl by (cases "j = ?j1") (auto simp: j_def split: if_splits)
    next
      assume "k = ?j2"
      then show ?thesis using that(2) irrefl by (auto simp: j_def)
    qed
    have unfold: "heap_down lt h i n =
        (if \<not> lt (h ! j) (h ! i) then h else heap_down lt (heap_swap h i j) j n)"
      using j1 by (subst heap_down.simps) (simp add: Let_def j_def)
    show ?thesis
    proof (cases "lt (h ! j) (h ! i)")
      case False
      have "ordered_at lt h k" if "0 < k" "k < n" for k
      proof (cases "(k - 1) div 2 = i")
        case True
        then show ?thesis using neg_trans [OF False min [OF that True]] by (simp add: ordered_at_def)
      qed (rule less.prems(3) [OF that])
      with False show ?thesis by (simp add: unfold is_heap_def)
    next
      case lt: True
      let ?h = "heap_swap h i j"
      have nth: "?h ! k = (if k = i then h ! j else if k = j then h ! i else h ! k)" for k
        using j less.prems(1,2) by (simp add: nth_heap_swap)
      have "ordered_at lt ?h k" if k: "0 < k" "k < n" "(k - 1) div 2 \<noteq> j" for k
      proof -
        consider "k = j" | "k \<noteq> j" "(k - 1) div 2 = i" | "k = i" | "k \<noteq> j" "k \<noteq> i" "(k - 1) div 2 \<noteq> i"
          by blast
        then show ?thesis
        proof cases
          case 1
          then show ?thesis using asym [OF lt] j by (simp add: ordered_at_def nth)
        next
          case 2
          then show ?thesis using min [OF k(1,2)] k by (auto simp: ordered_at_def nth)
        next
          case 3
          then have "(k - 1) div 2 < i" using k by arith
          then show ?thesis
            using less.prems(4) [OF j(3,1,4)] 3 k j by (auto simp: ordered_at_def nth)
        next
          case 4
          then show ?thesis using less.prems(3) [OF k(1,2)] k by (simp add: ordered_at_def nth)
        qed
      qed
      moreover have "\<not> lt (?h ! k) (?h ! ((j - 1) div 2))"
        if "0 < k" "k < n" "(k - 1) div 2 = j" for k
      proof -
        have "k \<noteq> i" "k \<noteq> j" using that j by auto
        then show ?thesis
          using less.prems(3) [OF that(1,2)] that j by (simp add: nth ordered_at_def)
      qed
      ultimately show ?thesis
        using less.hyps [of j ?h] less.prems(1) j lt by (simp add: unfold)
    qed
  qed
qed

lemma up_is_heap:
  assumes "j < length h"
    and "\<And>k. 0 < k \<Longrightarrow> k < length h \<Longrightarrow> k \<noteq> j \<Longrightarrow> ordered_at lt h k"
    and "\<And>k. 0 < k \<Longrightarrow> k < length h \<Longrightarrow> (k - 1) div 2 = j \<Longrightarrow> 0 < j \<Longrightarrow>
           \<not> lt (h ! k) (h ! ((j - 1) div 2))"
  shows "is_heap lt (heap_up lt h j) (length h)"
  using assms
proof (induction j arbitrary: h rule: less_induct)
  case (less j)
  define i where "i = (j - 1) div 2"
  have unfold: "heap_up lt h j =
      (if i = j \<or> \<not> lt (h ! j) (h ! i) then h else heap_up lt (heap_swap h i j) i)"
    by (subst heap_up.simps) (simp add: Let_def i_def)
  show ?case
  proof (cases "i = j \<or> \<not> lt (h ! j) (h ! i)")
    case True
    have "ordered_at lt h k" if "0 < k" "k < length h" for k
    proof (cases "k = j")
      case kj: True
      with True that show ?thesis by (auto simp: ordered_at_def i_def irrefl)
    qed (rule less.prems(2) [OF that])
    with True show ?thesis by (simp add: unfold is_heap_def)
  next
    case False
    then have ij: "i < j" "0 < j" and lt: "lt (h ! j) (h ! i)" by (auto simp: i_def)
    let ?h = "heap_swap h i j"
    have nth: "?h ! k = (if k = i then h ! j else if k = j then h ! i else h ! k)" for k
      using ij less.prems(1) by (simp add: nth_heap_swap)
    have par: "\<not> lt (h ! i) (h ! ((i - 1) div 2))" if "0 < i"
      using less.prems(2) [of i] ij that less.prems(1) by (simp add: ordered_at_def)
    have "ordered_at lt ?h k" if k: "0 < k" "k < length h" "k \<noteq> i" for k
    proof -
      consider "k = j" | "k \<noteq> j" "(k - 1) div 2 = i" | "k \<noteq> j" "(k - 1) div 2 = j"
        | "k \<noteq> j" "(k - 1) div 2 \<noteq> i" "(k - 1) div 2 \<noteq> j" by blast
      then show ?thesis
      proof cases
        case 1
        have "(j - 1) div 2 = i" by (simp add: i_def)
        with 1 show ?thesis using asym [OF lt] ij by (simp only: ordered_at_def nth) simp
      next
        case 2
        then show ?thesis
          using neg_trans [OF asym [OF lt]] less.prems(2) [OF k(1,2)] k
          by (auto simp: ordered_at_def nth)
      next
        case 3
        then show ?thesis
          using less.prems(3) [OF k(1,2) _ ij(2), folded i_def] ij k
          by (auto simp: ordered_at_def nth)
      next
        case 4
        then show ?thesis using less.prems(2) [OF k(1,2)] k by (simp add: ordered_at_def nth)
      qed
    qed
    moreover have "\<not> lt (?h ! k) (?h ! ((i - 1) div 2))"
      if "0 < k" "k < length h" "(k - 1) div 2 = i" "0 < i" for k
    proof -
      have ne: "k \<noteq> i" "(i - 1) div 2 \<noteq> i" "(i - 1) div 2 \<noteq> j" using that ij by arith+
      show ?thesis
      proof (cases "k = j")
        case True
        then show ?thesis using par [OF that(4)] ne by (simp add: nth)
      next
        case False
        then have "\<not> lt (h ! k) (h ! i)"
          using less.prems(2) [OF that(1,2)] that(3) by (simp add: ordered_at_def)
        with False show ?thesis using neg_trans [OF par [OF that(4)]] ne by (simp add: nth)
      qed
    qed
    ultimately show ?thesis
      using less.IH [OF ij(1), of ?h] less.prems(1) ij False by (simp add: unfold)
  qed
qed

lemma push_is_heap:
  assumes "is_heap lt h (length h)"
  shows "is_heap lt (heap_push lt x h) (Suc (length h))"
proof -
  have "is_heap lt (heap_up lt (h @ [x]) (length h)) (length (h @ [x]))"
  proof (rule up_is_heap)
    fix k assume k: "0 < k" "k < length (h @ [x])" "k \<noteq> length h"
    then have "(k - 1) div 2 < length h" by auto
    with k assms show "ordered_at lt (h @ [x]) k"
      by (auto simp: is_heap_def ordered_at_def nth_append)
  next
    fix k assume "k < length (h @ [x])" "(k - 1) div 2 = length h" "0 < length h"
    then have False by (simp only: length_append list.size)
    then show "\<not> lt ((h @ [x]) ! k) ((h @ [x]) ! ((length h - 1) div 2))" ..
  qed simp
  then show ?thesis by (simp add: heap_push_def)
qed

text \<open>Restoring the heap after its root changed, and removing the root.\<close>

lemma down_root_is_heap:
  assumes "n \<le> length h" "0 < n"
    and "\<And>k. 0 < k \<Longrightarrow> k < n \<Longrightarrow> (k - 1) div 2 \<noteq> 0 \<Longrightarrow> ordered_at lt h k"
  shows "is_heap lt (heap_down lt h 0 n) n"
  by (rule down_is_heap) (use assms in auto)

lemma pop_is_heap:
  assumes "h \<noteq> []"
    and "\<And>k. 0 < k \<Longrightarrow> k < length h \<Longrightarrow> (k - 1) div 2 \<noteq> 0 \<Longrightarrow> ordered_at lt h k"
  shows "is_heap lt (snd (heap_pop lt h)) (length h - 1)"
proof -
  define n where "n = length h - Suc 0"
  have n: "n < length h" using assms(1) by (simp add: n_def)
  have "is_heap lt (heap_down lt (heap_swap h 0 n) 0 n) n"
  proof (cases "n = 0")
    case False
    have nth: "heap_swap h 0 n ! k = h ! k" if "0 < k" "k < n" for k
      using that n assms(1) by (simp add: nth_heap_swap)
    show ?thesis
    proof (rule down_root_is_heap)
      fix k assume k: "0 < k" "k < n" "(k - 1) div 2 \<noteq> 0"
      moreover have "(k - 1) div 2 < n" using k by linarith
      ultimately show "ordered_at lt (heap_swap h 0 n) k"
        using assms(2) [of k] n by (simp add: ordered_at_def nth)
    qed (use n False in auto)
  qed (simp add: is_heap_def)
  then have "is_heap lt (take n (heap_down lt (heap_swap h 0 n) 0 n)) n"
    by (auto simp: is_heap_def ordered_at_def)
  then show ?thesis by (simp add: heap_pop_def Let_def flip: n_def)
qed

lemma heap_root_least:
  assumes "is_heap lt h n" "k < n"
  shows "\<not> lt (h ! k) (h ! 0)"
  using assms(2)
proof (induction k rule: less_induct)
  case (less k)
  show ?case
  proof (cases "k = 0")
    case True
    then show ?thesis by (simp add: irrefl)
  next
    case False
    then have "\<not> lt (h ! ((k - 1) div 2)) (h ! 0)" using less by (intro less.IH) auto
    moreover have "\<not> lt (h ! k) (h ! ((k - 1) div 2))"
      using assms(1) less.prems False by (auto simp: is_heap_def ordered_at_def)
    ultimately show ?thesis by (rule neg_trans)
  qed
qed

end

lemma mset_heap_push: "mset (heap_push lt x h) = add_mset x (mset h)"
  by (simp add: heap_push_def mset_heap_up)

lemma heap_pop_parts:
  assumes "h \<noteq> []"
  shows "fst (heap_pop lt h) = h ! 0"
    "mset (snd (heap_pop lt h)) = mset h - {#h ! 0#}"
    "length (snd (heap_pop lt h)) = length h - 1"
proof -
  define n where "n = length h - Suc 0"
  define g where "g = heap_down lt (heap_swap h 0 n) 0 n"
  have n: "n < length h" using assms by (simp add: n_def)
  have g: "length g = Suc n" "mset g = mset h"
    using n assms by (auto simp: g_def n_def mset_heap_down mset_heap_swap)
  have last: "g ! n = h ! 0"
    using n assms by (simp add: g_def heap_down_beyond nth_heap_swap)
  have "mset g = mset (take n g) + {#g ! n#}"
    using g(1) by (metis lessI mset.simps(1) mset.simps(2) mset_append order_refl take_Suc_conv_app_nth take_all add_mset_add_single add.left_neutral)
  then show "fst (heap_pop lt h) = h ! 0" "mset (snd (heap_pop lt h)) = mset h - {#h ! 0#}"
    "length (snd (heap_pop lt h)) = length h - 1"
    using g last n by (simp_all add: heap_pop_def Let_def flip: n_def g_def)
qed

end
