(* ===== verification/Merger.thy ===== *)
theory Merger
  imports BinHeap Iterator
begin

text \<open>
  \<open>pkg/core/merger.go\<close>: the k-way merge iterator. Go shares the iterator objects between the
  slice \<open>iters\<close> and the heap items; here \<open>iters\<close> is the store, and a heap item names its
  iterator by the index in it. The two nested loops of \<open>advance\<close> may fail to return (a panic on
  a nil entry, or an iterator whose \<open>Next\<close> makes no progress); that is \<open>None\<close>.
\<close>

section \<open>State\<close>

record iterItem =
  iter :: nat
  priority :: nat

record 'i MergedIterator =
  iters :: "'i option list"
  heap :: "iterItem list"
  current :: "Entry option"
  currKeyBuf :: bytes
  dropTombstones :: bool
  valid :: bool

section \<open>Operations\<close>

definition item_iter :: "'i option list \<Rightarrow> iterItem \<Rightarrow> 'i" where
  "item_iter its x = the (its ! iter x)"

text \<open>The timestamp is compared only between items of equal priority, and there are none.\<close>

definition item_timestamp :: "'i Iterator \<Rightarrow> 'i option list \<Rightarrow> iterItem \<Rightarrow> int" where
  "item_timestamp I its x =
     (case itEntry I (item_iter its x) of None \<Rightarrow> 0 | Some e \<Rightarrow> sint (Timestamp e))"

definition item_less :: "'i Iterator \<Rightarrow> 'i option list \<Rightarrow> iterItem \<Rightarrow> iterItem \<Rightarrow> bool" where
  "item_less I its a b =
     (let cmp = bytes_compare (itKey I (item_iter its a)) (itKey I (item_iter its b))
      in if cmp \<noteq> 0 then cmp < 0
         else if priority a \<noteq> priority b then priority a < priority b
         else item_timestamp I its a > item_timestamp I its b)"

definition merger_push :: "'i Iterator \<Rightarrow> iterItem \<Rightarrow> 'i MergedIterator \<Rightarrow> 'i MergedIterator" where
  "merger_push I item m = m\<lparr>heap := heap_push (item_less I (iters m)) item (heap m)\<rparr>"

definition merger_pop :: "'i Iterator \<Rightarrow> 'i MergedIterator \<Rightarrow> 'i MergedIterator" where
  "merger_pop I m = m\<lparr>heap := snd (heap_pop (item_less I (iters m)) (heap m))\<rparr>"

text \<open>\<open>m.h[0].iter.Next()\<close>, then \<open>down\<close> or \<open>pop\<close>: the step both loops of \<open>advance\<close> share.\<close>

definition advance_root :: "'i Iterator \<Rightarrow> 'i MergedIterator \<Rightarrow> 'i MergedIterator" where
  "advance_root I m =
     (let r = iter (heap m ! 0);
          it = itNext I (the (iters m ! r));
          m1 = m\<lparr>iters := (iters m)[r := Some it]\<rparr>
      in if itValid I it
         then m1\<lparr>heap := heap_down (item_less I (iters m1)) (heap m1) 0 (length (heap m1))\<rparr>
         else merger_pop I m1)"

partial_function (option) discard_duplicates ::
  "'i Iterator \<Rightarrow> 'i MergedIterator \<Rightarrow> 'i MergedIterator option" where
  "discard_duplicates I m =
     (if heap m \<noteq> [] \<and> itKey I (item_iter (iters m) (heap m ! 0)) = currKeyBuf m
      then discard_duplicates I (advance_root I m)
      else Some m)"

partial_function (option) advance ::
  "'i Iterator \<Rightarrow> 'i MergedIterator \<Rightarrow> 'i MergedIterator option" where
  "advance I m =
     (if heap m = [] then Some (m\<lparr>valid := False, current := None\<rparr>)
      else case itEntry I (item_iter (iters m) (heap m ! 0)) of
        None \<Rightarrow> None
      | Some candidate \<Rightarrow>
          Option.bind (discard_duplicates I (advance_root I (m\<lparr>currKeyBuf := Key candidate\<rparr>)))
            (\<lambda>m1. if dropTombstones m1 \<and> IsTombstone candidate then advance I m1
                  else Some (m1\<lparr>current := Some candidate, valid := True\<rparr>)))"

text \<open>\<open>for idx, it := range iters\<close>: the non-nil, valid iterators enter the heap with their index.\<close>

fun push_valid :: "'i Iterator \<Rightarrow> nat list \<Rightarrow> 'i MergedIterator \<Rightarrow> 'i MergedIterator" where
  "push_valid I [] m = m"
| "push_valid I (idx # idxs) m =
     (case iters m ! idx of
        None \<Rightarrow> push_valid I idxs m
      | Some it \<Rightarrow>
          push_valid I idxs
            (if itValid I it then merger_push I \<lparr>iter = idx, priority = idx\<rparr> m else m))"

definition NewMergedIterator ::
  "'i Iterator \<Rightarrow> 'i option list \<Rightarrow> bool \<Rightarrow> 'i MergedIterator option" where
  "NewMergedIterator I its drop_tombs =
     advance I (push_valid I [0..<length its]
       \<lparr>iters = its, heap = [], current = None, currKeyBuf = [],
        dropTombstones = drop_tombs, valid = False\<rparr>)"

definition Merged_Valid :: "'i MergedIterator \<Rightarrow> bool" where
  "Merged_Valid m = valid m"

definition Merged_Next :: "'i Iterator \<Rightarrow> 'i MergedIterator \<Rightarrow> 'i MergedIterator option" where
  "Merged_Next I m = (if Merged_Valid m then advance I m else Some m)"

text \<open>\<open>Seek\<close>: each iterator is moved and, when valid, pushed, before the next one is touched.\<close>

fun seek_push :: "'i Iterator \<Rightarrow> bytes \<Rightarrow> nat list \<Rightarrow> 'i MergedIterator \<Rightarrow> 'i MergedIterator" where
  "seek_push I target [] m = m"
| "seek_push I target (idx # idxs) m =
     (case iters m ! idx of
        None \<Rightarrow> seek_push I target idxs m
      | Some it0 \<Rightarrow>
          let it = itSeek I target it0;
              m1 = m\<lparr>iters := (iters m)[idx := Some it]\<rparr>
          in seek_push I target idxs
               (if itValid I it then merger_push I \<lparr>iter = idx, priority = idx\<rparr> m1 else m1))"

definition Merged_Seek ::
  "'i Iterator \<Rightarrow> bytes \<Rightarrow> 'i MergedIterator \<Rightarrow> 'i MergedIterator option" where
  "Merged_Seek I target m =
     advance I (seek_push I target [0..<length (iters m)] (m\<lparr>heap := []\<rparr>))"

definition Merged_Key :: "'i MergedIterator \<Rightarrow> bytes" where
  "Merged_Key m = (if \<not> Merged_Valid m then [] else case current m of None \<Rightarrow> [] | Some e \<Rightarrow> Key e)"

definition Merged_Value :: "'i MergedIterator \<Rightarrow> slice" where
  "Merged_Value m = (if \<not> Merged_Valid m then None else Option.bind (current m) Value)"

definition Merged_Entry :: "'i MergedIterator \<Rightarrow> Entry option" where
  "Merged_Entry m = (if \<not> Merged_Valid m then None else current m)"

text \<open>\<open>Close\<close> closes every iterator and reports whether all of them closed without error.\<close>

definition Merged_Close :: "'i Iterator \<Rightarrow> 'i MergedIterator \<Rightarrow> bool \<times> 'i MergedIterator" where
  "Merged_Close I m =
     (list_all (\<lambda>o_it. case o_it of None \<Rightarrow> True | Some it \<Rightarrow> fst (itClose I it)) (iters m),
      m\<lparr>iters := map (map_option (\<lambda>it. snd (itClose I it))) (iters m),
        heap := [], valid := False, current := None, currKeyBuf := []\<rparr>)"

text \<open>The client's loop \<open>for it.Valid() { use it.Entry(); it.Next() }\<close> over a merge iterator.\<close>

partial_function (option) drain ::
  "'i Iterator \<Rightarrow> 'i MergedIterator \<Rightarrow> Entry list \<Rightarrow> Entry list option" where
  "drain I m acc =
     (case Merged_Entry m of
        None \<Rightarrow> Some acc
      | Some e \<Rightarrow> Option.bind (Merged_Next I m) (\<lambda>m1. drain I m1 (acc @ [e])))"

end
