(* ===== verification/MergerProps.thy ===== *)
theory MergerProps
  imports Merger
begin

text \<open>
  Correctness of the merge iterator against the view it should present: one entry per key, in
  key order, the entry of the iterator with the lowest index that has the key, tombstones left
  out when asked for. The lemmas are proved from the iterator contract alone.
\<close>

section \<open>The merged view\<close>

text \<open>What is left of each iterator, in the order of their priorities.\<close>

definition runs_of :: "('i \<Rightarrow> Entry list) \<Rightarrow> 'i option list \<Rightarrow> Entry list list" where
  "runs_of rest its = map (\<lambda>o_it. case o_it of None \<Rightarrow> [] | Some i \<Rightarrow> rest i) its"

text \<open>The version of a key that wins: the first one in priority order.\<close>

definition version :: "Entry list list \<Rightarrow> bytes \<Rightarrow> Entry option" where
  "version runs k = find (\<lambda>e. Key e = k) (concat runs)"

definition merged_view :: "bool \<Rightarrow> Entry list list \<Rightarrow> Entry list" where
  "merged_view drop_tombs runs =
     filter (\<lambda>e. \<not> (drop_tombs \<and> IsTombstone e))
       (map (\<lambda>k. the (version runs k)) (sorted_list_of_set (Key ` set (concat runs))))"

lemma version_None: "version runs k = None \<longleftrightarrow> k \<notin> Key ` set (concat runs)"
  by (auto simp: version_def find_None_iff)

lemma version_Some: "version runs k = Some e \<Longrightarrow> Key e = k \<and> e \<in> set (concat runs)"
  by (auto simp: version_def dest: find_Some_mem)

lemma version_key: "k \<in> Key ` set (concat runs) \<Longrightarrow> Key (the (version runs k)) = k"
  using version_None [of runs k] version_Some [of runs k] by (cases "version runs k") auto

lemma map_Key_versions:
  "set ks \<subseteq> Key ` set (concat runs) \<Longrightarrow> map (\<lambda>k. Key (the (version runs k))) ks = ks"
  by (rule map_idI) (use version_key in blast)

text \<open>The view is sorted, has one entry per key, and holds exactly the winning versions.\<close>

lemma merged_view_sorted: "keys_sorted (merged_view d runs)"
proof -
  have "map Key (map (\<lambda>k. the (version runs k)) (sorted_list_of_set (Key ` set (concat runs)))) =
      sorted_list_of_set (Key ` set (concat runs))"
    by (simp add: map_Key_versions comp_def)
  then show ?thesis
    unfolding merged_view_def by (intro keys_sorted_filter) simp
qed

lemma merged_view_mem:
  "e \<in> set (merged_view d runs) \<longleftrightarrow> version runs (Key e) = Some e \<and> \<not> (d \<and> IsTombstone e)"
proof -
  define K where "K = Key ` set (concat runs)"
  have "finite K" by (simp add: K_def)
  then have "e \<in> set (merged_view d runs) \<longleftrightarrow>
      (\<exists>k\<in>K. e = the (version runs k)) \<and> \<not> (d \<and> IsTombstone e)"
    unfolding merged_view_def K_def [symmetric] by auto
  moreover have "k \<in> K \<longleftrightarrow> version runs k \<noteq> None" for k
    unfolding version_None K_def by simp
  moreover have "version runs k = Some e \<Longrightarrow> Key e = k" for k
    by (simp add: version_Some)
  ultimately show ?thesis by (metis not_None_eq option.sel)
qed

lemma merged_view_find:
  "find (\<lambda>e. Key e = k) (merged_view d runs) =
     (case version runs k of None \<Rightarrow> None
      | Some e \<Rightarrow> if d \<and> IsTombstone e then None else Some e)"
proof (cases "find (\<lambda>e. Key e = k) (merged_view d runs)")
  case None
  then have "\<forall>e\<in>set (merged_view d runs). Key e \<noteq> k" by (simp add: find_None_set)
  then show ?thesis
    using None merged_view_mem [of _ d runs] version_Some [of runs k]
    by (cases "version runs k") auto
next
  case (Some e)
  then have "e \<in> set (merged_view d runs)" "Key e = k" by (auto dest: find_Some_mem)
  then show ?thesis using Some by (auto simp: merged_view_mem)
qed

lemma merged_view_Nil: "\<forall>es\<in>set runs. es = [] \<Longrightarrow> merged_view d runs = []"
proof -
  assume "\<forall>es\<in>set runs. es = []"
  then have "concat runs = []" by simp
  then show ?thesis by (simp only: merged_view_def) simp
qed

lemma keys_sorted_eq:
  assumes "keys_sorted xs" "keys_sorted ys" "set xs = set ys"
  shows "xs = ys"
  using assms
proof (induction xs arbitrary: ys)
  case (Cons x xs)
  then obtain y ys' where ys: "ys = y # ys'" by (cases ys) auto
  have "Key x \<le> Key y" "Key y \<le> Key x" "x \<in> set ys" "y \<in> set (x # xs)"
    using Cons.prems ys keys_sorted_hd_le [of "x # xs" y] keys_sorted_hd_le [of ys x] by auto
  then have "x = y" using Cons.prems(2) ys by auto
  moreover have "x \<notin> set xs" "y \<notin> set ys'" using Cons.prems ys by auto
  ultimately have "set xs = set ys'" using Cons.prems(3) ys by (metis insert_ident list.simps(15))
  then show ?case using Cons ys \<open>x = y\<close> by simp
qed simp

text \<open>Taking the least key off all runs at once.\<close>

lemma concat_drop_key:
  assumes "\<forall>es\<in>set runs. keys_sorted es \<and> (\<forall>e\<in>set es. k \<le> Key e)"
  shows "concat (map (dropWhile (\<lambda>e. Key e = k)) runs) = filter (\<lambda>e. Key e \<noteq> k) (concat runs)"
proof -
  have "dropWhile (\<lambda>e. Key e = k) es = filter (\<lambda>e. Key e \<noteq> k) es"
    if "keys_sorted es" "\<forall>e\<in>set es. k \<le> Key e" for es
    using that
  proof (induction es)
    case (Cons e es)
    then have gt: "\<forall>f\<in>set es. Key f \<noteq> k" by force
    then have "dropWhile (\<lambda>e. Key e = k) es = es" by (cases es) auto
    with gt show ?case by auto
  qed simp
  with assms show ?thesis by (induction runs) auto
qed

lemma find_filter_other:
  "k' \<noteq> k \<Longrightarrow> find (\<lambda>e. Key e = k') (filter (\<lambda>e. Key e \<noteq> k) es) = find (\<lambda>e. Key e = k') es"
  by (induction es) auto

lemma merged_view_step:
  assumes runs: "\<forall>es\<in>set runs. keys_sorted es \<and> (\<forall>f\<in>set es. k \<le> Key f)"
    and e: "version runs k = Some e"
    and runs': "runs' = map (dropWhile (\<lambda>e. Key e = k)) runs"
  shows "merged_view d runs = (if d \<and> IsTombstone e then [] else [e]) @ merged_view d runs'"
proof -
  define K where "K = Key ` set (concat runs)"
  define K' where "K' = Key ` set (concat runs')"
  have cc: "concat runs' = filter (\<lambda>e. Key e \<noteq> k) (concat runs)"
    unfolding runs' by (rule concat_drop_key [OF runs])
  have other: "version runs' k' = version runs k'" if "k' \<noteq> k" for k'
    by (simp add: version_def cc find_filter_other [OF that])
  have fin: "finite K'" and k: "k \<notin> K'" by (auto simp: K'_def cc)
  have K: "K = insert k K'" using version_Some [OF e] unfolding K_def K'_def cc by auto
  have least: "k < k'" if "k' \<in> K'" for k'
    using that k runs by (auto simp: K'_def cc order_less_le)
  have sl: "sorted_list_of_set K = k # sorted_list_of_set K'"
    unfolding K using k least by (simp add: sorted_list_of_set_insert [OF fin] insort_is_Cons fin less_imp_le)
  have maps: "map (\<lambda>k. the (version runs k)) (sorted_list_of_set K') =
      map (\<lambda>k. the (version runs' k)) (sorted_list_of_set K')"
    by (rule map_cong [OF refl]) (use other k fin in \<open>metis set_sorted_list_of_set\<close>)
  show ?thesis
    unfolding merged_view_def K_def [symmetric] K'_def [symmetric] sl list.map maps e by simp
qed

text \<open>Restricting the runs to the keys from a target on.\<close>

lemma merged_view_filter:
  "merged_view d (map (filter (\<lambda>e. k \<le> Key e)) runs) = filter (\<lambda>e. k \<le> Key e) (merged_view d runs)"
proof -
  have "version (map (filter (\<lambda>e. k \<le> Key e)) runs) j = (if k \<le> j then version runs j else None)" for j
  proof -
    have "find (\<lambda>e. Key e = j) (filter (\<lambda>e. k \<le> Key e) es) =
        (if k \<le> j then find (\<lambda>e. Key e = j) es else None)" for es
      by (induction es) auto
    note f = this
    show ?thesis by (simp add: version_def f flip: filter_concat)
  qed
  then have mem: "set (merged_view d (map (filter (\<lambda>e. k \<le> Key e)) runs)) =
      set (filter (\<lambda>e. k \<le> Key e) (merged_view d runs))"
    by (auto simp: merged_view_mem split: if_splits)
  show ?thesis
    by (rule keys_sorted_eq [OF merged_view_sorted keys_sorted_filter [OF merged_view_sorted] mem])
qed

text \<open>Lists of runs, seen from one run.\<close>

lemma length_concat_tl:
  assumes "r < length xss" "xss ! r = x # xs"
  shows "length (concat (xss[r := xs])) < length (concat xss)"
proof -
  have "xss = take r xss @ (x # xs) # drop (Suc r) xss"
    using id_take_nth_drop [OF assms(1)] assms(2) by simp
  then have "length (concat xss) = length (concat (take r xss @ (x # xs) # drop (Suc r) xss))" by simp
  then show ?thesis by (simp add: upd_conv_take_nth_drop [OF assms(1)])
qed

lemma find_concat_first:
  assumes "r < length xss" "xss ! r = x # xs" "P x"
    and "\<And>r' y. r' < r \<Longrightarrow> y \<in> set (xss ! r') \<Longrightarrow> \<not> P y"
  shows "find P (concat xss) = Some x"
proof -
  have "xss = take r xss @ (x # xs) # drop (Suc r) xss"
    using id_take_nth_drop [OF assms(1)] assms(2) by simp
  then have "find P (concat xss) = find P (concat (take r xss @ (x # xs) # drop (Suc r) xss))"
    by simp
  moreover have "find P (concat (take r xss)) = None"
    using assms(1,4) by (fastforce simp: find_None_set in_set_conv_nth)
  ultimately show ?thesis using assms(3) by (simp add: find_append)
qed

section \<open>The heap of the merger\<close>

interpretation item: heap_order "item_less I its" for I :: "'i Iterator" and its
  by unfold_locales (auto simp: item_less_def Let_def split: if_splits)

text \<open>
  The invariant, for the iterators with index in \<open>S\<close> (the others are not yet pushed): the heap
  holds each valid one of them once, with its index as priority, in heap order.
\<close>

definition live :: "'i Iterator \<Rightarrow> 'i option list \<Rightarrow> nat \<Rightarrow> bool" where
  "live I its r = (case its ! r of None \<Rightarrow> False | Some i \<Rightarrow> itValid I i)"

definition merger_inv :: "'i Iterator \<Rightarrow> ('i \<Rightarrow> bool) \<Rightarrow> nat set \<Rightarrow> 'i MergedIterator \<Rightarrow> bool" where
  "merger_inv I ok S m \<longleftrightarrow>
     (\<forall>i. Some i \<in> set (iters m) \<longrightarrow> ok i) \<and>
     distinct (map iter (heap m)) \<and>
     (\<forall>x\<in>set (heap m). priority x = iter x) \<and>
     iter ` set (heap m) = {r \<in> S. r < length (iters m) \<and> live I (iters m) r} \<and>
     is_heap (item_less I (iters m)) (heap m) (length (heap m))"

lemma merger_invD:
  assumes "merger_inv I ok S m"
  shows "\<And>i. Some i \<in> set (iters m) \<Longrightarrow> ok i" "distinct (map iter (heap m))"
    "\<And>x. x \<in> set (heap m) \<Longrightarrow> priority x = iter x"
    "iter ` set (heap m) = {r \<in> S. r < length (iters m) \<and> live I (iters m) r}"
    "is_heap (item_less I (iters m)) (heap m) (length (heap m))"
  using assms by (auto simp only: merger_inv_def)

lemma heap_refs_distinct:
  assumes "distinct (map iter h)" "0 < k" "k < length h"
  shows "iter (h ! k) \<noteq> iter (h ! 0)"
proof -
  have "0 < length h" using assms(2,3) by linarith
  then show ?thesis using assms nth_eq_iff_index_eq [OF assms(1), of k 0] by auto
qed

lemma item_less_update:
  assumes "iter a \<noteq> r" "iter b \<noteq> r"
  shows "item_less I (its[r := x]) a b = item_less I its a b"
  using assms by (simp add: item_less_def item_iter_def item_timestamp_def)

lemma distinct_mset_map:
  "mset xs = mset ys \<Longrightarrow> distinct (map f xs) = distinct (map f ys)"
  by (metis mset_eq_imp_distinct_iff mset_map)

text \<open>The heap order survives a change of the root's iterator everywhere but at the root.\<close>

lemma ordered_below_root:
  assumes "is_heap (item_less I its) h (length h)" "distinct (map iter h)"
    and "0 < k" "k < length h" "(k - 1) div 2 \<noteq> 0"
  shows "ordered_at (item_less I (its[iter (h ! 0) := x])) h k"
proof -
  have p: "0 < (k - 1) div 2" "(k - 1) div 2 < length h" using assms(3-5) by auto
  have "iter (h ! ((k - 1) div 2)) \<noteq> iter (h ! 0)" "iter (h ! k) \<noteq> iter (h ! 0)"
    by (rule heap_refs_distinct [OF assms(2) p], rule heap_refs_distinct [OF assms(2-4)])
  then have "ordered_at (item_less I (its[iter (h ! 0) := x])) h k = ordered_at (item_less I its) h k"
    by (simp add: ordered_at_def item_less_update)
  then show ?thesis using assms(1,3,4) by (simp only: is_heap_def)
qed

context sorted_iterator
begin

abbreviation runs :: "'i MergedIterator \<Rightarrow> Entry list list" where
  "runs m \<equiv> runs_of rest_of (iters m)"

lemma runs_at:
  assumes "merger_inv I inv S m" "x \<in> set (heap m)"
  obtains i where "iters m ! iter x = Some i" "inv i" "itValid I i" "iter x < length (iters m)"
    "runs m ! iter x = rest_of i" "rest_of i \<noteq> []"
proof -
  have "iter x \<in> iter ` set (heap m)" using assms(2) by simp
  then have r: "iter x < length (iters m)" "live I (iters m) (iter x)"
    by (simp_all add: merger_invD(4) [OF assms(1)])
  then obtain i where i: "iters m ! iter x = Some i" "itValid I i"
    by (auto simp: live_def split: option.splits)
  moreover have "inv i" using merger_invD(1) [OF assms(1)] r i by (metis nth_mem)
  ultimately show ?thesis using that r valid_iff by (auto simp: runs_of_def)
qed

lemma advance_root_inv:
  assumes m: "merger_inv I inv S m" and ne: "heap m \<noteq> []"
  defines "r \<equiv> iter (heap m ! 0)"
  shows "merger_inv I inv S (advance_root I m)"
    and "runs (advance_root I m) = (runs m)[r := tl (runs m ! r)]"
    and "dropTombstones (advance_root I m) = dropTombstones m"
    and "currKeyBuf (advance_root I m) = currKeyBuf m"
    and "runs_of all_of (iters (advance_root I m)) = runs_of all_of (iters m)"
proof -
  let ?h = "heap m"
  have root: "?h ! 0 \<in> set ?h" using ne by simp
  obtain i where i: "iters m ! r = Some i" "inv i" "r < length (iters m)" "runs m ! r = rest_of i"
    using runs_at [OF m root] unfolding r_def by metis
  let ?its = "(iters m)[r := Some (itNext I i)]"
  have heap: "is_heap (item_less I (iters m)) ?h (length ?h)" and dist: "distinct (map iter ?h)"
    by (rule merger_invD [OF m])+
  note below = ordered_below_root [OF heap dist, of _ "Some (itNext I i)", folded r_def]
  have iters: "iters (advance_root I m) = ?its"
    by (simp add: advance_root_def Let_def merger_pop_def i flip: r_def)
  show "runs (advance_root I m) = (runs m)[r := tl (runs m ! r)]"
    unfolding iters i(4) using i by (simp add: runs_of_def map_update next_tl)
  show "dropTombstones (advance_root I m) = dropTombstones m"
    "currKeyBuf (advance_root I m) = currKeyBuf m"
    by (simp_all add: advance_root_def Let_def merger_pop_def)
  show "runs_of all_of (iters (advance_root I m)) = runs_of all_of (iters m)"
    unfolding iters using i next_inv [OF i(2)]
    by (auto simp: runs_of_def map_update intro!: list_update_same_conv [THEN iffD2])
  have invs: "\<forall>j. Some j \<in> set ?its \<longrightarrow> inv j"
  proof (intro allI impI)
    fix j assume "Some j \<in> set ?its"
    then consider "j = itNext I i" | "Some j \<in> set (iters m)"
      using set_update_subset_insert by fastforce
    then show "inv j" using merger_invD(1) [OF m] next_inv [OF i(2)] by cases auto
  qed
  have rmem: "r \<in> iter ` set ?h" using root by (simp add: r_def)
  have other: "live I ?its r' = live I (iters m) r'" if "r' \<noteq> r" for r'
    using that by (simp add: live_def)
  have same: "live I ?its r = itValid I (itNext I i)" "length ?its = length (iters m)"
    using i(3) by (simp_all add: live_def)
  note refs = merger_invD(4) [OF m]
  show "merger_inv I inv S (advance_root I m)"
  proof (cases "itValid I (itNext I i)")
    case True
    let ?h' = "heap_down (item_less I ?its) ?h 0 (length ?h)"
    have h': "heap (advance_root I m) = ?h'"
      using True by (simp add: advance_root_def Let_def i flip: r_def)
    have ms: "mset ?h' = mset ?h" by (simp add: mset_heap_down)
    have "is_heap (item_less I ?its) ?h' (length ?h')"
      using item.down_root_is_heap [of "length ?h" ?h I ?its] below ne by simp
    moreover have "distinct (map iter ?h')" using distinct_mset_map [OF ms] dist by metis
    moreover have "{r' \<in> S. r' < length ?its \<and> live I ?its r'} = iter ` set ?h"
    proof -
      have "live I (iters m) r" using rmem refs by simp
      then have "live I ?its r' = live I (iters m) r'" for r'
        using other same(1) True by (cases "r' = r") simp_all
      then show ?thesis by (simp add: refs)
    qed
    ultimately show ?thesis
      unfolding merger_inv_def iters h' using merger_invD(3) [OF m] invs mset_eq_setD [OF ms] by simp
  next
    case False
    let ?h' = "snd (heap_pop (item_less I ?its) ?h)"
    have h': "heap (advance_root I m) = ?h'"
      using False by (simp add: advance_root_def Let_def merger_pop_def i flip: r_def)
    note pop = heap_pop_parts [OF ne, of "item_less I ?its"]
    have ms: "mset (?h ! 0 # ?h') = mset ?h"
      using pop(2) root by simp
    then have dist': "distinct (map iter (?h ! 0 # ?h'))" using distinct_mset_map dist by metis
    have set': "set ?h = insert (?h ! 0) (set ?h')" using mset_eq_setD [OF ms] by simp
    have "is_heap (item_less I ?its) ?h' (length ?h')"
      using item.pop_is_heap [OF ne, of I ?its] below by (simp add: pop(3))
    moreover have "iter ` set ?h' = {r' \<in> S. r' < length ?its \<and> live I ?its r'}"
    proof -
      have "iter ` set ?h' = iter ` set ?h - {r}" using dist' by (auto simp: set' r_def)
      also have "\<dots> = {r' \<in> S. r' < length ?its \<and> live I ?its r'}"
        unfolding refs
      proof (rule set_eqI)
        fix r'
        show "r' \<in> {r' \<in> S. r' < length (iters m) \<and> live I (iters m) r'} - {r} \<longleftrightarrow>
            r' \<in> {r' \<in> S. r' < length ?its \<and> live I ?its r'}"
          by (cases "r' = r") (simp_all add: other same False)
      qed
      finally show ?thesis .
    qed
    ultimately show ?thesis
      unfolding merger_inv_def iters h' using merger_invD(3) [OF m] invs dist' set' by simp
  qed
qed

text \<open>The root carries the least key that is left, and the first run that has it.\<close>

lemma root_entry:
  assumes m: "merger_inv I inv UNIV m" and ne: "heap m \<noteq> []"
  defines "r \<equiv> iter (heap m ! 0)"
  obtains e es where "runs m ! r = e # es" "r < length (runs m)"
    "itEntry I (item_iter (iters m) (heap m ! 0)) = Some e"
    "itKey I (item_iter (iters m) (heap m ! 0)) = Key e"
    "\<And>r' f. r' < length (runs m) \<Longrightarrow> f \<in> set (runs m ! r') \<Longrightarrow> Key e \<le> Key f"
    "\<And>r' f. r' < r \<Longrightarrow> f \<in> set (runs m ! r') \<Longrightarrow> Key e \<noteq> Key f"
proof -
  have root: "heap m ! 0 \<in> set (heap m)" using ne by simp
  obtain i where i: "iters m ! r = Some i" "inv i" "r < length (iters m)" "runs m ! r = rest_of i"
      "rest_of i \<noteq> []"
    using runs_at [OF m root] unfolding r_def by metis
  obtain e es where e: "rest_of i = e # es" using i(5) by (cases "rest_of i") auto
  have it: "item_iter (iters m) (heap m ! 0) = i" using i(1) by (simp add: item_iter_def r_def)
  have below: "Key e \<le> Key f \<and> (Key e = Key f \<longrightarrow> r \<le> r')"
    if r': "r' < length (runs m)" and f: "f \<in> set (runs m ! r')" for r' f
  proof -
    obtain j where j: "iters m ! r' = Some j"
      using r' f by (cases "iters m ! r'") (auto simp: runs_of_def)
    have r'l: "r' < length (iters m)" using r' by (simp add: runs_of_def)
    have jok: "inv j" by (rule merger_invD(1) [OF m]) (metis j r'l nth_mem)
    have rj: "runs m ! r' = rest_of j" using j r'l by (simp add: runs_of_def)
    with f have jne: "rest_of j \<noteq> []" by auto
    then have "live I (iters m) r'" using j valid_iff [OF jok] by (simp add: live_def)
    then have "r' \<in> iter ` set (heap m)" using r'l by (simp add: merger_invD(4) [OF m])
    then obtain k where k: "k < length (heap m)" "iter (heap m ! k) = r'"
      by (metis imageE in_set_conv_nth)
    have "\<not> item_less I (iters m) (heap m ! k) (heap m ! 0)"
      by (rule item.heap_root_least [OF merger_invD(5) [OF m] k(1)])
    moreover have "priority (heap m ! k) = r'" "priority (heap m ! 0) = r"
      using merger_invD(3) [OF m] k root by (auto simp: r_def)
    moreover have "item_iter (iters m) (heap m ! k) = j" using j k by (simp add: item_iter_def)
    ultimately have "Key (hd (rest_of i)) \<le> Key (hd (rest_of j))"
      "Key (hd (rest_of i)) = Key (hd (rest_of j)) \<longrightarrow> r \<le> r'"
      using key_hd [OF i(2,5)] key_hd [OF jok jne] by (auto simp: item_less_def it split: if_splits)
    moreover have "Key (hd (rest_of j)) \<le> Key f"
      using keys_sorted_hd_le [OF rest_sorted [OF jok]] f rj by simp
    ultimately show ?thesis using e by auto
  qed
  have rl: "r < length (runs m)" using i(3) by (simp add: runs_of_def)
  show ?thesis
  proof (rule that [of e es])
    show "itEntry I (item_iter (iters m) (heap m ! 0)) = Some e"
      "itKey I (item_iter (iters m) (heap m ! 0)) = Key e"
      using entry_hd [OF i(2,5)] key_hd [OF i(2,5)] by (simp_all add: it e)
    show "Key e \<noteq> Key f" if "r' < r" "f \<in> set (runs m ! r')" for r' f
      using below [of r' f] that rl by auto
  qed (use below i(4) e rl in auto)
qed

lemma heap_empty:
  assumes m: "merger_inv I inv UNIV m"
  shows "heap m = [] \<longleftrightarrow> (\<forall>es\<in>set (runs m). es = [])"
proof
  assume "heap m = []"
  then have none: "\<not> live I (iters m) r" if "r < length (iters m)" for r
    using merger_invD(4) [OF m] that by auto
  show "\<forall>es\<in>set (runs m). es = []"
  proof
    fix es assume "es \<in> set (runs m)"
    then obtain r where r: "r < length (iters m)" "es = runs m ! r"
      by (auto simp: in_set_conv_nth runs_of_def)
    show "es = []"
    proof (cases "iters m ! r")
      case (Some i)
      then have "inv i" by (metis merger_invD(1) [OF m] nth_mem r(1))
      then show ?thesis using none [OF r(1)] Some valid_iff r by (simp add: live_def runs_of_def)
    qed (use r in \<open>simp add: runs_of_def\<close>)
  qed
next
  assume empty: "\<forall>es\<in>set (runs m). es = []"
  show "heap m = []"
  proof (rule ccontr)
    assume "heap m \<noteq> []"
    then obtain e es where "runs m ! iter (heap m ! 0) = e # es" "iter (heap m ! 0) < length (runs m)"
      using root_entry [OF m] by metis
    with empty show False by (metis list.distinct(1) nth_mem)
  qed
qed

lemma runs_sorted:
  assumes "merger_inv I inv S m" "es \<in> set (runs m)"
  shows "keys_sorted es"
proof -
  obtain o_it where "o_it \<in> set (iters m)" "es = (case o_it of None \<Rightarrow> [] | Some i \<Rightarrow> rest_of i)"
    using assms(2) by (auto simp: runs_of_def)
  note o = this
  show ?thesis
  proof (cases o_it)
    case (Some i)
    have "inv i" using merger_invD(1) [OF assms(1)] o(1) Some by simp
    then show ?thesis using rest_sorted Some o(2) by simp
  qed (use o(2) in simp)
qed

section \<open>The operations\<close>

text \<open>The duplicates of the current key go: all runs lose their entries with that key.\<close>

lemma discard_duplicates_spec:
  assumes "merger_inv I inv UNIV m"
    and "\<forall>es\<in>set (runs m). \<forall>f\<in>set es. currKeyBuf m \<le> Key f"
  shows "\<exists>m'. discard_duplicates I m = Some m' \<and> merger_inv I inv UNIV m' \<and>
    runs m' = map (dropWhile (\<lambda>e. Key e = currKeyBuf m)) (runs m) \<and>
    runs_of all_of (iters m') = runs_of all_of (iters m) \<and> dropTombstones m' = dropTombstones m"
  using assms
proof (induction "length (concat (runs m))" arbitrary: m rule: less_induct)
  case less
  note m = less.prems(1)
  let ?dw = "dropWhile (\<lambda>e. Key e = currKeyBuf m)"
  show ?case
  proof (cases "heap m = []")
    case True
    have "map ?dw (runs m) = runs m" by (rule map_idI) (use heap_empty [OF m] True in auto)
    then show ?thesis using True m by (subst discard_duplicates.simps) simp
  next
    case ne: False
    define r where "r = iter (heap m ! 0)"
    obtain e es where e: "runs m ! r = e # es" "r < length (runs m)"
      "itKey I (item_iter (iters m) (heap m ! 0)) = Key e"
      "\<And>r' f. r' < length (runs m) \<Longrightarrow> f \<in> set (runs m ! r') \<Longrightarrow> Key e \<le> Key f"
      using root_entry [OF m ne] unfolding r_def by metis
    show ?thesis
    proof (cases "Key e = currKeyBuf m")
      case False
      have "?dw xs = xs" if "xs \<in> set (runs m)" for xs
      proof (cases xs)
        case (Cons f fs)
        have "e \<in> set (runs m ! r)" using e(1) by simp
        then have "currKeyBuf m \<le> Key e" using less.prems(2) e(2) nth_mem by blast
        moreover have "Key e \<le> Key f" using e(4) that Cons by (metis in_set_conv_nth list.set_intros(1))
        ultimately show ?thesis using False Cons by auto
      qed simp
      then have "map ?dw (runs m) = runs m" by (rule map_idI)
      then show ?thesis using False ne m e(3) by (subst discard_duplicates.simps) simp
    next
      case True
      let ?m = "advance_root I m"
      note adv = advance_root_inv [OF m ne, folded r_def]
      have unfold: "discard_duplicates I m = discard_duplicates I ?m"
        using True ne e(3) by (subst discard_duplicates.simps) simp
      have "length (concat (runs ?m)) < length (concat (runs m))"
        using length_concat_tl [OF e(2,1)] e(1) by (simp add: adv(2))
      moreover have "\<forall>xs\<in>set (runs ?m). \<forall>f\<in>set xs. currKeyBuf ?m \<le> Key f"
      proof (intro ballI)
        fix xs f assume "xs \<in> set (runs ?m)" "f \<in> set xs"
        then have "xs \<in> set (runs m) \<or> xs = es"
          using set_update_subset_insert [of "runs m" r "tl (runs m ! r)"] e(1) by (auto simp: adv(2))
        moreover have "set es \<subseteq> set (runs m ! r)" "runs m ! r \<in> set (runs m)"
          using nth_mem [OF e(2)] e(1) by auto
        ultimately show "currKeyBuf ?m \<le> Key f"
          using less.prems(2) \<open>f \<in> set xs\<close> adv(4) by (metis subsetD)
      qed
      moreover have "map ?dw (runs ?m) = map ?dw (runs m)"
        using e(1,2) True by (simp add: adv(2) map_update list_update_same_conv)
      ultimately show ?thesis
        using less.hyps [of ?m] adv by (simp add: unfold)
    qed
  qed
qed

text \<open>
  A merge iterator that has still to show \<open>vs\<close>: its current entry is the first of them, the
  merged view of what is left of the iterators is the rest.
\<close>

definition merged_at :: "'i MergedIterator \<Rightarrow> Entry list \<Rightarrow> bool" where
  "merged_at m vs \<longleftrightarrow> merger_inv I inv UNIV m \<and> valid m = (vs \<noteq> []) \<and>
     current m = (case vs of [] \<Rightarrow> None | v # _ \<Rightarrow> Some v) \<and>
     merged_view (dropTombstones m) (runs m) = tl vs"

lemma advance_spec:
  assumes "merger_inv I inv UNIV m"
  shows "\<exists>m'. advance I m = Some m' \<and> merged_at m' (merged_view (dropTombstones m) (runs m)) \<and>
    runs_of all_of (iters m') = runs_of all_of (iters m) \<and> dropTombstones m' = dropTombstones m"
  using assms
proof (induction "length (concat (runs m))" arbitrary: m rule: less_induct)
  case less
  note m = less.prems
  show ?case
  proof (cases "heap m = []")
    case True
    then have "merged_view (dropTombstones m) (runs m) = []"
      using heap_empty [OF m] by (simp add: merged_view_Nil)
    moreover have "merger_inv I inv UNIV (m\<lparr>valid := False, current := None\<rparr>)"
      using m by (simp add: merger_inv_def)
    ultimately show ?thesis using True by (subst advance.simps) (simp add: merged_at_def)
  next
    case ne: False
    define r where "r = iter (heap m ! 0)"
    obtain e es where e: "runs m ! r = e # es" "r < length (runs m)"
      "itEntry I (item_iter (iters m) (heap m ! 0)) = Some e"
      "\<And>r' f. r' < length (runs m) \<Longrightarrow> f \<in> set (runs m ! r') \<Longrightarrow> Key e \<le> Key f"
      "\<And>r' f. r' < r \<Longrightarrow> f \<in> set (runs m ! r') \<Longrightarrow> Key e \<noteq> Key f"
      using root_entry [OF m ne] unfolding r_def by metis
    define m0 where "m0 = m\<lparr>currKeyBuf := Key e\<rparr>"
    have m0: "merger_inv I inv UNIV m0" "heap m0 \<noteq> []" "iter (heap m0 ! 0) = r"
      "iters m0 = iters m" "dropTombstones m0 = dropTombstones m" "currKeyBuf m0 = Key e"
      using m ne by (auto simp: m0_def merger_inv_def r_def)
    let ?m1 = "advance_root I m0"
    note adv = advance_root_inv [OF m0(1,2), unfolded m0]
    have tl1: "runs ?m1 = (runs m)[r := es]" by (simp add: adv(2) e(1))
    have sub: "set xs \<subseteq> set (concat (runs m))" if "xs \<in> set (runs ?m1)" for xs
    proof -
      have "runs m ! r \<in> set (runs m)" "set es \<subseteq> set (runs m ! r)"
        using nth_mem [OF e(2)] e(1) by auto
      then show ?thesis
        using that set_update_subset_insert [of "runs m" r es] by (fastforce simp: tl1)
    qed
    have least: "Key e \<le> Key f" if f: "f \<in> set (concat (runs m))" for f
    proof -
      obtain xs where "xs \<in> set (runs m)" "f \<in> set xs" using f by auto
      then show ?thesis using e(4) by (metis in_set_conv_nth)
    qed
    obtain m2 where m2: "discard_duplicates I ?m1 = Some m2" "merger_inv I inv UNIV m2"
      "runs m2 = map (dropWhile (\<lambda>x. Key x = Key e)) (runs ?m1)"
      "runs_of all_of (iters m2) = runs_of all_of (iters m)" "dropTombstones m2 = dropTombstones m"
    proof -
      have "\<forall>xs\<in>set (runs ?m1). \<forall>f\<in>set xs. currKeyBuf ?m1 \<le> Key f"
        using sub least adv(4) by auto
      then show ?thesis
        using discard_duplicates_spec [OF adv(1)] that adv by auto
    qed
    have runs2: "runs m2 = map (dropWhile (\<lambda>x. Key x = Key e)) (runs m)"
      using e(1,2) by (simp add: m2(3) tl1 map_update list_update_same_conv)
    have less_len: "length (concat (runs m2)) < length (concat (runs m))"
    proof -
      have "length (concat (runs m2)) \<le> length (concat (runs ?m1))"
        by (simp add: m2(3) length_concat comp_def sum_list_mono length_dropWhile_le)
      then show ?thesis using length_concat_tl [OF e(2,1)] by (simp add: tl1)
    qed
    have ver: "version (runs m) (Key e) = Some e"
      unfolding version_def by (rule find_concat_first [OF e(2,1)]) (use e(5) in metis)+
    have sorted: "\<forall>xs\<in>set (runs m). keys_sorted xs \<and> (\<forall>f\<in>set xs. Key e \<le> Key f)"
      using runs_sorted [OF m] least by auto
    note step = merged_view_step [OF sorted ver runs2, of "dropTombstones m"]
    have unfold: "advance I m =
        (if dropTombstones m \<and> IsTombstone e then advance I m2
         else Some (m2\<lparr>current := Some e, valid := True\<rparr>))"
      using ne e(3) m2(1) by (subst advance.simps) (simp add: m2(5) flip: m0_def)
    show ?thesis
    proof (cases "dropTombstones m \<and> IsTombstone e")
      case True
      then show ?thesis using less.hyps [OF less_len m2(2)] m2 step by (simp add: unfold)
    next
      case False
      have "merger_inv I inv UNIV (m2\<lparr>current := Some e, valid := True\<rparr>)"
        using m2(2) by (simp add: merger_inv_def)
      moreover have "merged_view (dropTombstones m) (runs m) =
          e # merged_view (dropTombstones m) (runs m2)"
        using step False by simp
      ultimately show ?thesis using m2 False by (auto simp: unfold merged_at_def)
    qed
  qed
qed

lemma Next_spec:
  assumes "merged_at m vs"
  shows "\<exists>m'. Merged_Next I m = Some m' \<and> merged_at m' (tl vs) \<and>
    runs_of all_of (iters m') = runs_of all_of (iters m) \<and> dropTombstones m' = dropTombstones m"
proof (cases vs)
  case Nil
  then show ?thesis using assms by (simp add: Merged_Next_def Merged_Valid_def merged_at_def)
next
  case (Cons v ws)
  then show ?thesis
    using assms advance_spec [of m] by (auto simp: Merged_Next_def Merged_Valid_def merged_at_def)
qed

lemma Entry_spec: "merged_at m vs \<Longrightarrow> Merged_Entry m = (case vs of [] \<Rightarrow> None | v # _ \<Rightarrow> Some v)"
  by (auto simp: Merged_Entry_def Merged_Valid_def merged_at_def split: list.splits)

text \<open>Filling the heap, one iterator after the other.\<close>

lemma merger_push_inv:
  assumes m: "merger_inv I inv S m" and r: "r \<notin> S" "r < length (iters m)" "live I (iters m) r"
  shows "merger_inv I inv (insert r S) (merger_push I \<lparr>iter = r, priority = r\<rparr> m)"
proof -
  let ?x = "\<lparr>iter = r, priority = r\<rparr>"
  let ?h = "heap_push (item_less I (iters m)) ?x (heap m)"
  have ms: "mset ?h = mset (?x # heap m)" by (simp add: mset_heap_push)
  have st: "set ?h = insert ?x (set (heap m))" using mset_eq_setD [OF ms] by simp
  have "r \<notin> iter ` set (heap m)" using r(1) by (simp add: merger_invD(4) [OF m])
  then have "distinct (map iter (?x # heap m))" using merger_invD(2) [OF m] by simp
  then have "distinct (map iter ?h)" using distinct_mset_map [OF ms] by metis
  moreover have "length ?h = Suc (length (heap m))" using mset_eq_length [OF ms] by simp
  then have "is_heap (item_less I (iters m)) ?h (length ?h)"
    using item.push_is_heap [OF merger_invD(5) [OF m]] by simp
  moreover have "iter ` set ?h = {r' \<in> insert r S. r' < length (iters m) \<and> live I (iters m) r'}"
    using r merger_invD(4) [OF m] by (auto simp: st)
  ultimately show ?thesis
    using merger_invD(1,3) [OF m] by (auto simp: merger_inv_def merger_push_def st)
qed

lemma merger_inv_dead:
  assumes "merger_inv I inv S m" "r \<notin> S" "\<not> live I (iters m) r"
  shows "merger_inv I inv (insert r S) m"
proof -
  have "{r' \<in> insert r S. r' < length (iters m) \<and> live I (iters m) r'} =
      {r' \<in> S. r' < length (iters m) \<and> live I (iters m) r'}"
    using assms(3) by auto
  then show ?thesis using assms(1) unfolding merger_inv_def by simp
qed

lemma push_valid_spec:
  assumes "merger_inv I inv S m" "distinct idxs" "set idxs \<inter> S = {}" "set idxs \<subseteq> {..<length (iters m)}"
  shows "merger_inv I inv (set idxs \<union> S) (push_valid I idxs m) \<and>
    iters (push_valid I idxs m) = iters m \<and> dropTombstones (push_valid I idxs m) = dropTombstones m"
  using assms
proof (induction idxs arbitrary: S m)
  case (Cons r idxs)
  let ?m = "case iters m ! r of None \<Rightarrow> m
     | Some it \<Rightarrow> if itValid I it then merger_push I \<lparr>iter = r, priority = r\<rparr> m else m"
  have "merger_inv I inv (insert r S) ?m"
  proof (cases "live I (iters m) r")
    case True
    then show ?thesis
      using merger_push_inv [OF Cons.prems(1), of r] Cons.prems by (auto simp: live_def split: option.splits)
  next
    case False
    then show ?thesis
      using merger_inv_dead [OF Cons.prems(1), of r] Cons.prems by (auto simp: live_def split: option.splits)
  qed
  moreover have "iters ?m = iters m" "dropTombstones ?m = dropTombstones m"
    by (auto simp: merger_push_def split: option.splits)
  moreover have "push_valid I (r # idxs) m = push_valid I idxs ?m" by (simp split: option.splits)
  ultimately show ?case using Cons.IH [of "insert r S" ?m] Cons.prems by auto
qed simp

lemma merger_inv_empty:
  "(\<And>i. Some i \<in> set (iters m) \<Longrightarrow> inv i) \<Longrightarrow> heap m = [] \<Longrightarrow> merger_inv I inv {} m"
  by (simp add: merger_inv_def is_heap_def)

lemma merger_inv_all:
  "merger_inv I inv {..<length (iters m)} m \<Longrightarrow> merger_inv I inv UNIV m"
  by (simp add: merger_inv_def)

lemma New_spec:
  assumes "\<And>i. Some i \<in> set its \<Longrightarrow> inv i"
  shows "\<exists>m. NewMergedIterator I its d = Some m \<and> merged_at m (merged_view d (runs_of rest_of its)) \<and>
    runs_of all_of (iters m) = runs_of all_of its \<and> dropTombstones m = d"
proof -
  let ?start = "\<lparr>iters = its, heap = [], current = None, currKeyBuf = [], dropTombstones = d, valid = False\<rparr>"
  let ?m = "push_valid I [0..<length its] ?start"
  have "merger_inv I inv {} ?start" by (rule merger_inv_empty) (use assms in auto)
  from push_valid_spec [OF this, of "[0..<length its]"]
  have m: "merger_inv I inv {..<length (iters ?m)} ?m" "iters ?m = its" "dropTombstones ?m = d"
    by (simp_all add: atLeast0LessThan lessThan_def)
  show ?thesis
    using advance_spec [OF merger_inv_all [OF m(1)]] unfolding NewMergedIterator_def m(2,3) by simp
qed

text \<open>\<open>Seek\<close> moves an iterator before it pushes it; the items pushed so far do not refer to it.\<close>

lemma merger_inv_move:
  assumes m: "merger_inv I inv S m" and r: "r \<notin> S" "r < length (iters m)"
    and x: "\<And>i. x = Some i \<Longrightarrow> inv i"
  shows "merger_inv I inv S (m\<lparr>iters := (iters m)[r := x]\<rparr>)"
proof -
  let ?its = "(iters m)[r := x]"
  have notin: "r \<notin> iter ` set (heap m)" using r(1) by (simp add: merger_invD(4) [OF m])
  have "{r' \<in> S. r' < length ?its \<and> live I ?its r'} =
      {r' \<in> S. r' < length (iters m) \<and> live I (iters m) r'}"
  proof (rule Collect_cong)
    fix r'
    have "live I ?its r' = live I (iters m) r'" if "r' \<noteq> r" using that by (simp add: live_def)
    then show "(r' \<in> S \<and> r' < length ?its \<and> live I ?its r') =
        (r' \<in> S \<and> r' < length (iters m) \<and> live I (iters m) r')"
      using r(1) by (cases "r' = r") auto
  qed
  moreover have "is_heap (item_less I ?its) (heap m) (length (heap m))"
  proof -
    have "item_less I ?its (heap m ! a) (heap m ! b) = item_less I (iters m) (heap m ! a) (heap m ! b)"
      if "a < length (heap m)" "b < length (heap m)" for a b
      by (rule item_less_update) (use notin that in auto)
    note eq = this
    show ?thesis unfolding is_heap_def ordered_at_def
    proof (intro allI impI)
      fix q assume q: "0 < q \<and> q < length (heap m)"
      then have "(q - 1) div 2 < length (heap m)" by linarith
      then show "\<not> item_less I ?its (heap m ! q) (heap m ! ((q - 1) div 2))"
        using eq q merger_invD(5) [OF m] by (simp add: is_heap_def ordered_at_def)
    qed
  qed
  moreover have "inv i" if "Some i \<in> set ?its" for i
  proof -
    have "Some i = x \<or> Some i \<in> set (iters m)"
      using that set_update_subset_insert [of "iters m" r x] by auto
    then show ?thesis using x merger_invD(1) [OF m] by auto
  qed
  ultimately show ?thesis
    unfolding merger_inv_def using merger_invD(2,3,4) [OF m] by simp
qed

definition moved :: "bytes \<Rightarrow> 'i option \<Rightarrow> 'i option" where
  "moved k = map_option (itSeek I k)"

lemma seek_push_spec:
  assumes "merger_inv I inv S m" "distinct idxs" "set idxs \<inter> S = {}" "set idxs \<subseteq> {..<length (iters m)}"
  shows "merger_inv I inv (set idxs \<union> S) (seek_push I k idxs m) \<and>
    iters (seek_push I k idxs m) =
      map (\<lambda>r. if r \<in> set idxs then moved k (iters m ! r) else iters m ! r) [0..<length (iters m)] \<and>
    dropTombstones (seek_push I k idxs m) = dropTombstones m"
  using assms
proof (induction idxs arbitrary: S m)
  case Nil
  then show ?case by (simp add: map_nth)
next
  case (Cons r idxs)
  let ?x = "moved k (iters m ! r)"
  let ?moved = "m\<lparr>iters := (iters m)[r := ?x]\<rparr>"
  define m1 where "m1 = (if live I (iters ?moved) r then merger_push I \<lparr>iter = r, priority = r\<rparr> ?moved else ?moved)"
  have r: "r \<notin> S" "r < length (iters m)" using Cons.prems by auto
  have ok: "inv i" if x: "?x = Some i" for i
  proof -
    obtain j where "iters m ! r = Some j" "i = itSeek I k j" using x by (auto simp: moved_def)
    moreover have "inv j" using merger_invD(1) [OF Cons.prems(1)] r(2) calculation(1) by (metis nth_mem)
    ultimately show ?thesis by (simp add: seek_inv)
  qed
  have moved: "merger_inv I inv S ?moved" using merger_inv_move [OF Cons.prems(1) r ok] by simp
  have m: "merger_inv I inv (insert r S) m1" "iters m1 = (iters m)[r := ?x]"
      "dropTombstones m1 = dropTombstones m"
    using merger_push_inv [OF moved, of r] merger_inv_dead [OF moved, of r] r
    by (auto simp: m1_def merger_push_def)
  have eq: "seek_push I k (r # idxs) m = seek_push I k idxs m1"
    using r(2) by (cases "iters m ! r") (simp_all add: m1_def moved_def live_def Let_def list_update_same_conv [THEN iffD2])
  have "r \<notin> set idxs" using Cons.prems by simp
  then have "map (\<lambda>q. if q \<in> set idxs then moved k (iters m1 ! q) else iters m1 ! q) [0..<length (iters m)] =
      map (\<lambda>q. if q \<in> set (r # idxs) then moved k (iters m ! q) else iters m ! q) [0..<length (iters m)]"
    unfolding m(2)
  proof (intro map_cong [OF refl])
    fix q assume "q \<in> set [0..<length (iters m)]"
    then show "(if q \<in> set idxs then moved k ((iters m)[r := ?x] ! q) else (iters m)[r := ?x] ! q) =
        (if q \<in> set (r # idxs) then moved k (iters m ! q) else iters m ! q)"
      using \<open>r \<notin> set idxs\<close> r(2) by (cases "q = r") simp_all
  qed
  then show ?case
    using Cons.IH [OF m(1)] Cons.prems r(2) unfolding eq
    by (simp add: m(3) m(2) [THEN arg_cong [where f = length]])
qed

lemma Seek_spec:
  assumes "\<And>i. Some i \<in> set (iters m) \<Longrightarrow> inv i"
  shows "\<exists>m'. Merged_Seek I k m = Some m' \<and>
    merged_at m' (filter (\<lambda>e. k \<le> Key e) (merged_view (dropTombstones m) (runs_of all_of (iters m)))) \<and>
    dropTombstones m' = dropTombstones m"
proof -
  let ?n = "length (iters m)"
  let ?s = "seek_push I k [0..<?n] (m\<lparr>heap := []\<rparr>)"
  have "merger_inv I inv {} (m\<lparr>heap := []\<rparr>)" by (rule merger_inv_empty) (use assms in auto)
  from seek_push_spec [OF this distinct_upt, of 0 ?n k]
  have s: "merger_inv I inv {0..<?n} ?s" "dropTombstones ?s = dropTombstones m"
    "iters ?s = map (\<lambda>r. if r \<in> set [0..<?n] then moved k (iters m ! r) else iters m ! r) [0..<?n]"
    by (simp_all add: atLeast0LessThan lessThan_def)
  have its: "iters ?s = map (moved k) (iters m)"
    unfolding s(3) by (rule nth_equalityI) auto
  have "runs ?s = map (filter (\<lambda>e. k \<le> Key e)) (runs_of all_of (iters m))"
    unfolding its runs_of_def map_map
  proof (rule map_cong [OF refl])
    fix x assume x: "x \<in> set (iters m)"
    show "((\<lambda>o_it. case o_it of None \<Rightarrow> [] | Some i \<Rightarrow> rest_of i) \<circ> moved k) x =
        (filter (\<lambda>e. k \<le> Key e) \<circ> (\<lambda>o_it. case o_it of None \<Rightarrow> [] | Some i \<Rightarrow> all_of i)) x"
    proof (cases x)
      case (Some i)
      then have "inv i" using x assms by simp
      then show ?thesis using Some by (simp add: moved_def seek_drop dropWhile_less_filter all_sorted)
    qed (simp add: moved_def)
  qed
  moreover have "merger_inv I inv UNIV ?s"
    using s(1) by (intro merger_inv_all) (simp add: its atLeast0LessThan)
  ultimately show ?thesis
    using advance_spec [of ?s] unfolding Merged_Seek_def s(2) by (auto simp: merged_view_filter)
qed

lemma drain_spec:
  assumes "merged_at m vs"
  shows "drain I m acc = Some (acc @ vs)"
  using assms
proof (induction vs arbitrary: m acc)
  case Nil
  then show ?case by (subst drain.simps) (simp add: Entry_spec)
next
  case (Cons v vs)
  obtain m' where "Merged_Next I m = Some m'" "merged_at m' vs" using Next_spec [OF Cons.prems] by auto
  then show ?case using Cons by (subst drain.simps) (simp add: Entry_spec)
qed

end

section \<open>The merge iterator over any iterators that keep the contract\<close>

text \<open>
  C30. Merging. Over iterators that keep their contract the constructor returns, and
  walking the merge iterator to its end terminates and yields the merged view of what the
  iterators had left: every key of any of them once, in ascending order, the entry taken from the
  first iterator that has the key, without the keys whose entry is a tombstone when these are
  dropped.
\<close>

theorem merge_yields_merged_view:
  assumes "sorted_iterator I ok all_of rest_of" and "\<forall>i. Some i \<in> set its \<longrightarrow> ok i"
  shows "\<exists>m. NewMergedIterator I its d = Some m \<and>
    drain I m [] = Some (merged_view d (runs_of rest_of its))"
proof -
  obtain m where m: "NewMergedIterator I its d = Some m"
    "sorted_iterator.merged_at I ok rest_of m (merged_view d (runs_of rest_of its))"
    using sorted_iterator.New_spec [OF assms(1), of its d] assms(2) by blast
  then show ?thesis using sorted_iterator.drain_spec [OF assms(1) m(2)] by simp
qed

text \<open>
  Seeking. From any state of a merge iterator, whatever has been consumed, \<open>Seek\<close>
  returns and leaves exactly the part of the merged view of the whole ranges that starts at the
  first key not below the target.
\<close>

lemma merge_seek_restarts:
  assumes "sorted_iterator I ok all_of rest_of" and "\<forall>i. Some i \<in> set (iters m) \<longrightarrow> ok i"
  shows "\<exists>m'. Merged_Seek I target m = Some m' \<and>
    drain I m' [] = Some (filter (\<lambda>e. target \<le> Key e)
      (merged_view (dropTombstones m) (runs_of all_of (iters m))))"
proof -
  let ?vs = "filter (\<lambda>e. target \<le> Key e) (merged_view (dropTombstones m) (runs_of all_of (iters m)))"
  obtain m' where m': "Merged_Seek I target m = Some m'" "sorted_iterator.merged_at I ok rest_of m' ?vs"
    using sorted_iterator.Seek_spec [OF assms(1), of m target] assms(2) by blast
  then show ?thesis using sorted_iterator.drain_spec [OF assms(1) m'(2)] by simp
qed

end
