(* ===== verification/SSTableBuild.thy ===== *)
theory SSTableBuild
  imports SSTableProps
begin

text \<open>
  What the builder writes, the reader reads: the invariant of the builder while entries are added
  in ascending key order, and the end-to-end properties of table files.
\<close>

section \<open>The layout of the data and of the index\<close>

definition data_of :: "Entry list list \<Rightarrow> bytes" where
  "data_of bs = concat (map Block_Encode bs)"

fun index_of :: "nat \<Rightarrow> Entry list list \<Rightarrow> SparseIndex" where
  "index_of off [] = []"
| "index_of off (b # bs) =
     \<lparr>ixKey = Key (hd b), ixOffset = word_of_nat off, ixLength = word_of_nat (length (Block_Encode b))\<rparr> #
     index_of (off + length (Block_Encode b)) bs"

lemma data_of_simps [simp]:
  "data_of [] = []" "data_of (b # bs) = Block_Encode b @ data_of bs"
  "data_of (bs @ cs) = data_of bs @ data_of cs"
  by (simp_all add: data_of_def)

lemma index_of_append:
  "index_of off (bs @ cs) = index_of off bs @ index_of (off + length (data_of bs)) cs"
  by (induction bs arbitrary: off) (simp_all add: add.assoc)

lemma length_index_of [simp]: "length (index_of off bs) = length bs"
  by (induction bs arbitrary: off) simp_all

lemma Block_Encode_pos: "4 \<le> length (Block_Encode b)"
  by (simp add: length_Block_Encode)

text \<open>The size of a table in terms of its entries.\<close>

definition table_bound :: "Entry list \<Rightarrow> nat" where
  "table_bound es = (\<Sum>e\<leftarrow>es. EncodedSize e + 8)"

lemma table_bound_append [simp]: "table_bound (es @ fs) = table_bound es + table_bound fs"
  by (simp add: table_bound_def)

lemma table_bound_simps [simp]:
  "table_bound [] = 0" "table_bound (e # es) = EncodedSize e + 8 + table_bound es"
  by (simp_all add: table_bound_def)

lemma Block_Encode_bound: "b \<noteq> [] \<Longrightarrow> length (Block_Encode b) \<le> table_bound b"
proof -
  have "(\<Sum>e\<leftarrow>b. 4 + EncodedSize e) + 4 * length b = table_bound b"
    by (induction b) (simp_all add: table_bound_def)
  moreover assume "b \<noteq> []"
  then have "4 \<le> 4 * length b" by (cases b) simp_all
  ultimately show ?thesis by (simp add: length_Block_Encode)
qed

lemma data_of_bound: "\<forall>b\<in>set bs. b \<noteq> [] \<Longrightarrow> length (data_of bs) \<le> table_bound (concat bs)"
  using Block_Encode_bound by (induction bs) (auto simp: table_bound_def intro: add_mono)

lemma entry_bound: "e \<in> set es \<Longrightarrow> EncodedSize e + 8 \<le> table_bound es"
  unfolding table_bound_def by (rule member_le_sum_list) auto

lemma ucast_of_nat32: "n < 2 ^ 32 \<Longrightarrow> (ucast (word_of_nat n :: uint32) :: uint64) = word_of_nat n"
  by (simp add: unsigned_of_nat take_bit_nat_eq_self)

text \<open>Reading a block back at its index entry.\<close>

lemma ReadAt_block:
  assumes "length pre + length blk + length post < 2 ^ 32" "blk \<noteq> []"
  shows "ReadAt (pre @ blk @ post) (word_of_nat (length pre)) (word_of_nat (length blk)) = Inr blk"
proof -
  have u: "unat (word_of_nat (length pre) :: uint64) = length pre"
    "unat (word_of_nat (length blk) :: uint32) = length blk"
    using assms(1) by (simp_all add: unat_of_nat)
  have "sint (word_of_nat (length pre) :: uint64) = int (length pre)"
    using assms(1) by (simp add: signed_of_nat signed_take_bit_int_eq_self)
  moreover have "(word_of_nat (length blk) :: uint32) \<noteq> 0"
    using u(2) assms(2) by (metis length_0_conv unat_0)
  ultimately show ?thesis unfolding ReadAt_def u by (simp add: subslice_def)
qed

lemma index_of_reads:
  assumes "length (pre @ data_of bs) < 2 ^ 32"
  shows "list_all2 (\<lambda>e b. ReadAt (pre @ data_of bs) (ixOffset e) (ixLength e) = Inr (Block_Encode b) \<and>
    ixKey e = Key (hd b)) (index_of (length pre) bs) bs"
  using assms
proof (induction bs arbitrary: pre)
  case (Cons b bs)
  have "Block_Encode b \<noteq> []" using Block_Encode_pos [of b] by auto
  then have "ReadAt (pre @ Block_Encode b @ data_of bs) (word_of_nat (length pre))
      (word_of_nat (length (Block_Encode b))) = Inr (Block_Encode b)"
    using Cons.prems by (intro ReadAt_block) simp_all
  then show ?case using Cons.IH [of "pre @ Block_Encode b"] Cons.prems by simp
qed simp

lemma index_of_offsets:
  assumes "off + length (data_of bs) < 2 ^ 32"
  shows "(\<forall>e\<in>set (index_of off bs). off \<le> unat (ixOffset e)) \<and> distinct (map ixOffset (index_of off bs))"
  using assms
proof (induction bs arbitrary: off)
  case (Cons b bs)
  let ?off = "off + length (Block_Encode b)"
  have IH: "\<forall>e\<in>set (index_of ?off bs). ?off \<le> unat (ixOffset e)"
    "distinct (map ixOffset (index_of ?off bs))"
    using Cons.IH [of ?off] Cons.prems by simp_all
  have u: "unat (word_of_nat off :: uint64) = off" using Cons.prems by (simp add: unat_of_nat)
  have "ixOffset e \<noteq> word_of_nat off" if "e \<in> set (index_of ?off bs)" for e
    using IH(1) that u Block_Encode_pos [of b] by fastforce
  then show ?case using IH u by (fastforce dest: order_trans [OF le_add1])
qed simp

section \<open>The builder while entries are added\<close>

definition builder_inv :: "uint64 \<Rightarrow> SSTableBuilder \<Rightarrow> Entry list list \<Rightarrow> Entry list \<Rightarrow> bool" where
  "builder_inv bits b bs cur \<longleftrightarrow>
     tfData (bFiles b) = Some (data_of bs) \<and>
     bDataOffset b = word_of_nat (length (data_of bs)) \<and>
     bIndex b = index_of 0 bs \<and> bCurrBlock b = cur \<and> (\<forall>blk\<in>set bs. blk \<noteq> []) \<and>
     bloom_ok (bBloom b) \<and> bfBits (bBloom b) = bits \<and>
     (\<forall>e\<in>set (concat bs @ cur). bloom_has (bBloom b) (Key e)) \<and>
     (let es = concat bs @ cur in
        bMinKey b = (if es = [] then [] else Key (hd es)) \<and>
        bMaxKey b = (if es = [] then [] else Key (last es)) \<and>
        bEntryCount b = int (length es))"

lemma builder_inv_frame [frame]:
  assumes "tfData (bFiles b') = tfData (bFiles b)" "bDataOffset b' = bDataOffset b" "bIndex b' = bIndex b"
    "bCurrBlock b' = bCurrBlock b" "bBloom b' = bBloom b" "bMinKey b' = bMinKey b" "bMaxKey b' = bMaxKey b"
    "bEntryCount b' = bEntryCount b"
  shows "builder_inv bits b' bs cur = builder_inv bits b bs cur"
  by (simp only: builder_inv_def assms)

lemma Bloom_Add_bits: "Bloom_Add k bf = Some bf' \<Longrightarrow> bfBits bf' = bfBits bf"
  by (auto simp: Bloom_Add_def)

lemma flushBlock_inv:
  assumes inv: "builder_inv bits b bs cur" and io: "\<forall>x. io x"
    and size: "table_bound (concat bs @ cur) < 2 ^ 32"
  shows "\<exists>b' bs'. flushBlock io b = (None, b') \<and> builder_inv bits b' bs' [] \<and>
    concat bs' = concat bs @ cur \<and> bClosed b' = bClosed b \<and> bOpts b' = bOpts b"
proof (cases cur)
  case Nil
  then have "flushBlock io b = (None, b)" using inv by (simp add: flushBlock_def builder_inv_def)
  then show ?thesis using inv Nil by auto
next
  case (Cons first rest)
  have ne: "\<forall>blk\<in>set (bs @ [cur]). blk \<noteq> []" using inv Cons by (auto simp: builder_inv_def)
  have "length (data_of (bs @ [cur])) < 2 ^ 32"
    using data_of_bound [OF ne] size by simp
  then have len: "length (data_of bs) + length (Block_Encode cur) < 2 ^ 32" by simp
  then have "(ucast (word_of_nat (length (Block_Encode cur)) :: uint32) :: uint64) =
      word_of_nat (length (Block_Encode cur))"
    by (intro ucast_of_nat32) simp
  then show ?thesis
    using inv io Cons ne
    by (intro exI [of _ "snd (flushBlock io b)"] exI [of _ "bs @ [cur]"])
      (simp add: flushBlock_def builder_inv_def Let_def index_of_append Index_Add_def)
qed

lemma Add_inv:
  assumes inv: "builder_inv bits b bs cur" and io: "\<forall>x. io x" and open_b: "\<not> bClosed b"
    and size: "table_bound (concat bs @ cur @ [e]) < 2 ^ 32"
    and key: "Key e \<noteq> []" "\<forall>f\<in>set (concat bs @ cur). Key f \<noteq> [] \<and> Key f < Key e"
  shows "\<exists>b' bs' cur'. Builder_Add io e b = (None, b') \<and> builder_inv bits b' bs' cur' \<and>
    concat bs' @ cur' = concat bs @ cur @ [e] \<and> \<not> bClosed b' \<and> bOpts b' = bOpts b"
proof -
  let ?es = "concat bs @ cur"
  have min: "(if length (bMinKey b) = 0 \<or> bytes_compare (Key e) (bMinKey b) < 0 then Key e else bMinKey b) =
      Key (hd (?es @ [e]))"
  proof (cases "?es = []")
    case False
    then have "hd ?es \<in> set ?es" by (rule hd_in_set)
    then have "Key (hd ?es) \<noteq> []" "Key (hd ?es) < Key e" using key(2) by auto
    moreover have "bMinKey b = Key (hd ?es)"
      using inv False by (simp only: builder_inv_def Let_def if_False)
    moreover have "hd (?es @ [e]) = hd ?es" by (rule hd_append2 [OF False])
    ultimately show ?thesis by (auto simp del: append_assoc)
  qed (use inv in \<open>simp add: builder_inv_def\<close>)
  have max: "length (bMaxKey b) = 0 \<or> bytes_compare (Key e) (bMaxKey b) > 0"
  proof (cases "?es = []")
    case False
    then have "last ?es \<in> set ?es" by (rule last_in_set)
    then show ?thesis using inv key(2) False by (simp add: builder_inv_def Let_def)
  qed (use inv in \<open>simp add: builder_inv_def\<close>)
  obtain bloom where bloom: "Bloom_Add (Key e) (bBloom b) = Some bloom" "bloom_ok bloom"
    "bloom_has bloom (Key e)" "\<forall>k. bloom_has (bBloom b) k \<longrightarrow> bloom_has bloom k" "bfBits bloom = bits"
    using Bloom_Add_spec [of "bBloom b" "Key e"] Bloom_Add_bits [of "Key e" "bBloom b"] inv
    by (auto simp: builder_inv_def)
  define b3 where "b3 = b\<lparr>bMinKey := Key (hd (?es @ [e])), bMaxKey := Key e, bBloom := bloom,
    bCurrBlock := cur @ [e], bCurrBlockLen := bCurrBlockLen b + int (Size e),
    bEntryCount := bEntryCount b + 1\<rparr>"
  have add: "Builder_Add io e b =
      (if bCurrBlockLen b3 \<ge> oBlockSize (bOpts b3) then flushBlock io b3 else (None, b3))"
  proof -
    have "(if length (bMinKey b) = 0 \<or> bytes_compare (Key e) (bMinKey b) < 0
        then b\<lparr>bMinKey := Key e\<rparr> else b) = b\<lparr>bMinKey := Key (hd (?es @ [e]))\<rparr>"
    proof -
      have "(if P then b\<lparr>bMinKey := x\<rparr> else b) = b\<lparr>bMinKey := if P then x else bMinKey b\<rparr>" for P x
        by simp
      then show ?thesis by (simp only: min)
    qed
    moreover have "bCurrBlock b = cur" using inv by (simp add: builder_inv_def)
    ultimately show ?thesis
      using max open_b bloom(1) unfolding Builder_Add_def by (simp add: Let_def b3_def)
  qed
  have inv3: "builder_inv bits b3 bs (cur @ [e])"
    using inv bloom by (auto simp: builder_inv_def b3_def Let_def)
  have b3: "\<not> bClosed b3" "bOpts b3 = bOpts b" using open_b by (simp_all add: b3_def)
  show ?thesis
  proof (cases "bCurrBlockLen b3 \<ge> oBlockSize (bOpts b3)")
    case True
    obtain b' bs' where "flushBlock io b3 = (None, b')" "builder_inv bits b' bs' []"
      "concat bs' = concat bs @ cur @ [e]" "bClosed b' = bClosed b3" "bOpts b' = bOpts b3"
      using flushBlock_inv [OF inv3 io] size by auto
    then show ?thesis using True b3
      by (intro exI [of _ b'] exI [of _ bs'] exI [of _ "[]"]) (simp add: add)
  next
    case False
    then show ?thesis using inv3 b3 by (auto simp: add)
  qed
qed

text \<open>The callers' loop: the entries in order, up to the first error.\<close>

fun Builder_Adds ::
  "(builder_io \<Rightarrow> bool) \<Rightarrow> Entry list \<Rightarrow> SSTableBuilder \<Rightarrow> sst_error option \<times> SSTableBuilder" where
  "Builder_Adds io [] b = (None, b)"
| "Builder_Adds io (e # es) b =
     (case Builder_Add io e b of
        (Some err, b1) \<Rightarrow> (Some err, b1)
      | (None, b1) \<Rightarrow> Builder_Adds io es b1)"

lemma Adds_inv:
  assumes "builder_inv bits b bs cur" "\<forall>x. io x" "\<not> bClosed b"
    and "table_bound (concat bs @ cur @ es) < 2 ^ 32"
    and "\<forall>e\<in>set (concat bs @ cur @ es). Key e \<noteq> []" "keys_sorted (concat bs @ cur @ es)"
  shows "\<exists>b' bs' cur'. Builder_Adds io es b = (None, b') \<and> builder_inv bits b' bs' cur' \<and>
    concat bs' @ cur' = concat bs @ cur @ es \<and> \<not> bClosed b' \<and> bOpts b' = bOpts b"
  using assms
proof (induction es arbitrary: b bs cur)
  case Nil
  then show ?case by auto
next
  case (Cons e es)
  have "\<forall>f\<in>set (concat bs @ cur). Key f \<noteq> [] \<and> Key f < Key e"
    using Cons.prems(5,6) by (auto simp: sorted_wrt_append)
  then obtain b1 bs1 cur1 where b1: "Builder_Add io e b = (None, b1)" "builder_inv bits b1 bs1 cur1"
    "concat bs1 @ cur1 = concat bs @ cur @ [e]" "\<not> bClosed b1" "bOpts b1 = bOpts b"
    using Add_inv [OF Cons.prems(1-3), of e] Cons.prems(4,5) by auto
  have eq: "concat bs1 @ cur1 @ es = concat bs @ cur @ e # es"
    using arg_cong [OF b1(3), of "\<lambda>xs. xs @ es"] by simp
  show ?case
    using Cons.IH [OF b1(2) Cons.prems(2) b1(4)] Cons.prems(4-6) b1(1,5) unfolding eq by simp
qed

lemma New_inv:
  assumes "\<forall>x. io x"
  shows "\<exists>b. NewBuilder io opts files = Inr b \<and>
    builder_inv (bfBits (bBloom b)) b [] [] \<and> \<not> bClosed b \<and> oID (bOpts b) = oID opts \<and>
    oLevel (bOpts b) = oLevel opts"
  using assms bloom_ok_New by (auto simp: NewBuilder_def Let_def builder_inv_def NewSparseIndex_def)

section \<open>Finishing and opening\<close>

lemma Finish_files:
  assumes inv: "builder_inv bits b bs cur" and io: "\<forall>x. io x" and open_b: "\<not> bClosed b"
    and size: "table_bound (concat bs @ cur) < 2 ^ 32"
  shows "\<exists>b' bs' meta. Finish io now b = (Inr meta, b') \<and> builder_inv bits b' bs' [] \<and>
    concat bs' = concat bs @ cur \<and> tfIndex (bFiles b') = Some (Index_Encode (bIndex b')) \<and>
    tfFilter (bFiles b') = Some (Bloom_Encode (bBloom b')) \<and> tfMeta (bFiles b') = Some (MetaJson meta) \<and>
    data_synced (bFiles b') \<and>
    meta = \<lparr>mdID = oID (bOpts b), mdLevel = oLevel (bOpts b), mdEntryCount = bEntryCount b',
      mdDataSize = uint (bDataOffset b'), mdMinKey = bMinKey b', mdMaxKey = bMaxKey b', mdCreatedAt = now\<rparr>"
proof -
  have "builder_inv bits (b\<lparr>bClosed := True\<rparr>) bs cur" using inv by (subst builder_inv_frame) simp_all
  from flushBlock_inv [OF this io size] obtain b1 bs' where b1:
    "flushBlock io (b\<lparr>bClosed := True\<rparr>) = (None, b1)" "builder_inv bits b1 bs' []"
    "concat bs' = concat bs @ cur" "bOpts b1 = bOpts b" by auto
  let ?meta = "\<lparr>mdID = oID (bOpts b), mdLevel = oLevel (bOpts b), mdEntryCount = bEntryCount b1,
      mdDataSize = uint (bDataOffset b1), mdMinKey = bMinKey b1, mdMaxKey = bMaxKey b1, mdCreatedAt = now\<rparr>"
  let ?b' = "b1\<lparr>bFiles := (bFiles b1)\<lparr>tfSynced := length (contents (tfData (bFiles b1))), tfIndex := Some (Index_Encode (bIndex b1)),
    tfFilter := Some (Bloom_Encode (bBloom b1)), tfMeta := Some (MetaJson ?meta)\<rparr>\<rparr>"
  have "Finish io now b = (Inr ?meta, ?b')"
    using io open_b b1(1,4) by (simp add: Finish_def Let_def)
  moreover have "builder_inv bits ?b' bs' []" using b1(2) by (subst builder_inv_frame) simp_all
  ultimately show ?thesis using b1(3)
    by (intro exI [of _ ?b'] exI [of _ bs'] exI [of _ ?meta]) (simp add: data_synced_def)
qed

lemma storable_bound:
  "e \<in> set es \<Longrightarrow> length (Key e) < 2 ^ 16 \<Longrightarrow> table_bound es < 2 ^ 32 \<Longrightarrow> storable e"
  using entry_bound [of e es] by (auto simp: storable_def encodable_def EncodedSize_def)

lemma length_concat_ge: "\<forall>b\<in>set bs. b \<noteq> [] \<Longrightarrow> length bs \<le> length (concat bs)"
proof (induction bs)
  case (Cons b bs)
  then have "1 \<le> length b" by (cases b) auto
  with Cons show ?case by simp
qed simp

lemma index_of_keys: "e \<in> set (index_of off bs) \<Longrightarrow> \<exists>b\<in>set bs. ixKey e = Key (hd b)"
  by (induction bs arbitrary: off) auto

lemma table_bound_ge: "23 * length es \<le> table_bound es"
  by (induction es) (simp_all add: EncodedSize_def)

text \<open>A reader on files that hold the blocks \<open>bs\<close>.\<close>

lemma reader_of_blocks:
  assumes "rdIndex r = index_of 0 bs" "rdData r = data_of bs" "\<forall>b\<in>set bs. b \<noteq> []"
    and "table_bound (concat bs) < 2 ^ 32" "\<forall>e\<in>set (concat bs). length (Key e) < 2 ^ 16"
    and "keys_sorted (concat bs)"
  shows "table_ok r" "table_entries r = map nil_empty (concat bs)"
proof -
  have len: "length (data_of bs) < 2 ^ 32" using data_of_bound [OF assms(3)] assms(4) by simp
  have reads: "list_all2 (\<lambda>e b. ReadAt (rdData r) (ixOffset e) (ixLength e) = Inr (Block_Encode b) \<and>
      ixKey e = Key (hd b)) (rdIndex r) bs"
    using index_of_reads [of "[]" bs] len by (simp add: assms(1,2))
  have dec: "DecodeBlock (Block_Encode b) = Inr (map nil_empty b)" if "b \<in> set bs" for b
  proof (rule DecodeBlock_Encode, rule ballI)
    fix e assume "e \<in> set b"
    then have "e \<in> set (concat bs)" using that by auto
    then show "storable e" using assms(4,5) storable_bound by blast
  qed
  have at: "ReadAt (rdData r) (ixOffset (rdIndex r ! i)) (ixLength (rdIndex r ! i)) = Inr (Block_Encode (bs ! i)) \<and>
      ixKey (rdIndex r ! i) = Key (hd (bs ! i))" if "i < length bs" for i
    using reads that by (simp add: list_all2_conv_all_nth)
  have l: "length (rdIndex r) = length bs" by (simp add: assms(1))
  have "blocks_of r = map (map nil_empty) bs"
    unfolding blocks_of_def by (rule nth_equalityI) (simp_all add: l at dec block_of_def)
  then show ents: "table_entries r = map nil_empty (concat bs)"
    by (simp add: table_entries_def map_concat)
  have "\<exists>d es. ReadAt (rdData r) (ixOffset e) (ixLength e) = Inr d \<and>
        DecodeBlock d = Inr es \<and> es \<noteq> [] \<and> ixKey e = Key (hd es)" if e: "e \<in> set (rdIndex r)" for e
  proof -
    obtain i where i: "i < length bs" "e = rdIndex r ! i" using e l by (auto simp: in_set_conv_nth)
    then have "bs ! i \<noteq> []" "bs ! i \<in> set bs" using assms(3) by simp_all
    then show ?thesis using at [OF i(1)] dec i(2) by (simp add: hd_map)
  qed
  moreover have "distinct (map ixOffset (rdIndex r))"
    using index_of_offsets [of 0 bs] len by (simp add: assms(1))
  moreover have "keys_sorted (table_entries r)" using assms(6) by (simp add: ents comp_def)
  ultimately show "table_ok r" by (simp add: table_ok_def)
qed

text \<open>
  Files that, opened, give a sound reader on the entries \<open>es\<close> with the metadata \<open>meta\<close>, and whose
  data is on disk.
\<close>

definition files_hold :: "TableFiles \<Rightarrow> Metadata \<Rightarrow> Entry list \<Rightarrow> bool" where
  "files_hold files meta es \<longleftrightarrow>
     (\<forall>tid. \<exists>r. OpenReader tid files = Inr r \<and> rdId r = tid \<and> rdMeta r = meta \<and>
        \<not> rdBypassBloom r \<and> table_ok r \<and> lookup_ok r \<and> table_entries r = map nil_empty es) \<and>
     data_synced files \<and> mdEntryCount meta = int (length es) \<and>
     mdMinKey meta = (if es = [] then [] else Key (hd es)) \<and>
     mdMaxKey meta = (if es = [] then [] else Key (last es))"

text \<open>The entries fit the length fields of the files.\<close>

definition storable_run :: "Entry list \<Rightarrow> bool" where
  "storable_run es \<longleftrightarrow> keys_sorted es \<and> table_bound es < 2 ^ 32 \<and>
     (\<forall>e\<in>set es. Key e \<noteq> [] \<and> length (Key e) < 2 ^ 16)"

lemma Finish_holds:
  assumes inv: "builder_inv bits b bs cur" and io: "\<forall>x. io x" and open_b: "\<not> bClosed b"
    and run: "storable_run (concat bs @ cur)" and bits: "bits < 2 ^ 35"
  shows "\<exists>b' meta. Finish io now b = (Inr meta, b') \<and> files_hold (bFiles b') meta (concat bs @ cur) \<and>
    mdID meta = oID (bOpts b) \<and> mdLevel meta = oLevel (bOpts b)"
proof -
  define es where "es = concat bs @ cur"
  have es: "keys_sorted es" "table_bound es < 2 ^ 32" "\<forall>e\<in>set es. Key e \<noteq> []"
    "\<forall>e\<in>set es. length (Key e) < 2 ^ 16"
    using run unfolding es_def [symmetric] storable_run_def by auto
  obtain b2 bs' meta where b2: "Finish io now b = (Inr meta, b2)" "builder_inv bits b2 bs' []"
    "concat bs' = es" "tfIndex (bFiles b2) = Some (Index_Encode (bIndex b2))"
    "tfFilter (bFiles b2) = Some (Bloom_Encode (bBloom b2))" "tfMeta (bFiles b2) = Some (MetaJson meta)"
    "data_synced (bFiles b2)"
    "meta = \<lparr>mdID = oID (bOpts b), mdLevel = oLevel (bOpts b), mdEntryCount = bEntryCount b2,
      mdDataSize = uint (bDataOffset b2), mdMinKey = bMinKey b2, mdMaxKey = bMaxKey b2, mdCreatedAt = now\<rparr>"
    using Finish_files [OF inv io open_b, of now] es(2) unfolding es_def by blast
  have inv2: "tfData (bFiles b2) = Some (data_of bs')" "bIndex b2 = index_of 0 bs'" "\<forall>blk\<in>set bs'. blk \<noteq> []"
    "bloom_ok (bBloom b2)" "bfBits (bBloom b2) = bits"
    "\<forall>e\<in>set es. bloom_has (bBloom b2) (Key e)"
    "bMinKey b2 = (if es = [] then [] else Key (hd es))"
    "bMaxKey b2 = (if es = [] then [] else Key (last es))" "bEntryCount b2 = int (length es)"
    using b2(2,3) unfolding builder_inv_def Let_def by (simp_all del: concat_eq_Nil_conv)
  have "length (ixKey e) < 2 ^ 16" if e: "e \<in> set (bIndex b2)" for e
  proof -
    obtain x where x: "x \<in> set bs'" "ixKey e = Key (hd x)"
      using index_of_keys e unfolding inv2(2) by blast
    then have "hd x \<in> set x" using inv2(3) by simp
    then have "hd x \<in> set es" using x(1) by (auto simp flip: b2(3))
    then show ?thesis using es(4) x(2) by simp
  qed
  moreover have "length (bIndex b2) < 2 ^ 32"
  proof -
    have "length bs' \<le> length es" using length_concat_ge [OF inv2(3)] by (simp add: b2(3))
    then show ?thesis using table_bound_ge [of es] es(2) by (simp add: inv2(2))
  qed
  ultimately have dec_idx: "DecodeSparseIndex (Index_Encode (bIndex b2)) = Inr (bIndex b2)"
    using DecodeIndex_Encode [of "bIndex b2" "[]"] by simp
  have "unat (bfBits (bBloom b2)) < 2 ^ 35"
    using bits inv2(5) by (simp add: word_less_nat_alt)
  then have "length (bfBitmap (bBloom b2)) < 2 ^ 32" using inv2(4) by (simp add: bloom_ok_def)
  then have dec_bloom: "DecodeBloomFilter (Bloom_Encode (bBloom b2)) = Inr (bBloom b2)"
    using DecodeBloom_Encode [of "bBloom b2" "[]"] by simp
  have meta: "mdMinKey meta = bMinKey b2" "mdMaxKey meta = bMaxKey b2" "mdEntryCount meta = bEntryCount b2"
    "mdID meta = oID (bOpts b)" "mdLevel meta = oLevel (bOpts b)"
    by (simp_all add: b2(8))
  have bounds: "Key (hd es) \<le> Key e \<and> Key e \<le> Key (last es)" if "e \<in> set es" for e
    using keys_sorted_hd_le keys_sorted_le_last es(1) that by blast
  have "\<exists>r. OpenReader tid (bFiles b2) = Inr r \<and> rdId r = tid \<and> rdMeta r = meta \<and>
        \<not> rdBypassBloom r \<and> table_ok r \<and> lookup_ok r \<and> table_entries r = map nil_empty es" for tid
  proof -
    let ?r = "\<lparr>rdId = tid, rdMeta = meta, rdIndex = bIndex b2, rdBloom = bBloom b2,
      rdData = data_of bs', rdClosed = False, rdBypassBloom = False\<rparr>"
    have "OpenReader tid (bFiles b2) = Inr ?r"
      using b2(4-6) dec_idx dec_bloom inv2(1) by (simp add: OpenReader_def)
    moreover have tab: "table_ok ?r" "table_entries ?r = map nil_empty es"
      using reader_of_blocks [of ?r bs'] inv2(2,3) es by (simp_all add: b2(3))
    moreover have "lookup_ok ?r"
      using inv2(4,6-8) meta bounds by (auto simp: lookup_ok_def tab(2))
    ultimately show ?thesis by (intro exI [of _ ?r]) simp
  qed
  then have "files_hold (bFiles b2) meta es"
    using meta(1-3) inv2(7-9) b2(7) by (simp add: files_hold_def)
  then show ?thesis using b2(1) meta(4,5) es_def by blast
qed

text \<open>The whole life of a table: built from entries, closed, opened again.\<close>

definition built_table ::
  "BuilderOptions \<Rightarrow> TableFiles \<Rightarrow> int64 \<Rightarrow> uint64 \<Rightarrow> Entry list \<Rightarrow> sst_error + Metadata \<times> SSTableReader" where
  "built_table opts files now tid es =
     (case NewBuilder (\<lambda>_. True) opts files of
        Inl err \<Rightarrow> Inl err
      | Inr b \<Rightarrow>
          (case Builder_Adds (\<lambda>_. True) es b of
             (Some err, _) \<Rightarrow> Inl err
           | (None, b1) \<Rightarrow>
               (case Finish (\<lambda>_. True) now b1 of
                  (Inl err, _) \<Rightarrow> Inl err
                | (Inr meta, b2) \<Rightarrow>
                    (case OpenReader tid (bFiles b2) of
                       Inl err \<Rightarrow> Inl err
                     | Inr r \<Rightarrow> Inr (meta, r)))))"

text \<open>What a table must satisfy to be described by the fields of its files.\<close>

definition table_fits :: "BuilderOptions \<Rightarrow> Entry list \<Rightarrow> bool" where
  "table_fits opts es \<longleftrightarrow> storable_run es \<and>
     bfBits (NewBloomFilter (oBloomBits opts) (oBloomK opts)
       (if oEstKeys opts \<le> 0 then 1000 else oEstKeys opts)) < 2 ^ 35"

lemma built_table_spec:
  assumes fits: "table_fits opts es"
  shows "\<exists>meta r. built_table opts files now tid es = Inr (meta, r) \<and> rdMeta r = meta \<and> rdId r = tid \<and>
    table_ok r \<and> lookup_ok r \<and> table_entries r = map nil_empty es \<and> mdID meta = oID opts \<and>
    mdLevel meta = oLevel opts \<and> mdEntryCount meta = int (length es) \<and>
    mdMinKey meta = (if es = [] then [] else Key (hd es)) \<and>
    mdMaxKey meta = (if es = [] then [] else Key (last es))"
proof -
  let ?io = "\<lambda>_ :: builder_io. True"
  have es: "keys_sorted es" "table_bound es < 2 ^ 32" "\<forall>e\<in>set es. Key e \<noteq> []" "storable_run es"
    using fits by (auto simp: table_fits_def storable_run_def)
  obtain b where b: "NewBuilder ?io opts files = Inr b" "builder_inv (bfBits (bBloom b)) b [] []"
    "\<not> bClosed b" "oID (bOpts b) = oID opts" "oLevel (bOpts b) = oLevel opts"
    using New_inv [of ?io opts files] by auto
  have bits: "bfBits (bBloom b) < 2 ^ 35"
    using fits b(1) by (auto simp: table_fits_def NewBuilder_def Let_def split: if_splits)
  obtain b1 bs1 cur1 where b1: "Builder_Adds ?io es b = (None, b1)"
    "builder_inv (bfBits (bBloom b)) b1 bs1 cur1" "concat bs1 @ cur1 = es" "\<not> bClosed b1" "bOpts b1 = bOpts b"
    using Adds_inv [OF b(2) _ b(3), of ?io es] es by auto
  obtain b2 meta where b2: "Finish ?io now b1 = (Inr meta, b2)" "files_hold (bFiles b2) meta es"
    "mdID meta = oID (bOpts b1)" "mdLevel meta = oLevel (bOpts b1)"
    using Finish_holds [OF b1(2) _ b1(4) _ bits, of ?io now] es(4) by (auto simp: b1(3))
  obtain r where r: "OpenReader tid (bFiles b2) = Inr r" "rdId r = tid" "rdMeta r = meta"
    "table_ok r" "lookup_ok r" "table_entries r = map nil_empty es"
    using b2(2) by (auto simp: files_hold_def)
  have "built_table opts files now tid es = Inr (meta, r)"
    by (simp add: built_table_def b(1) b1(1) b2(1) r(1))
  then show ?thesis
    using r b2(2-4) b1(5) b(4,5) by (intro exI [of _ meta] exI [of _ r]) (simp add: files_hold_def)
qed

section \<open>Properties\<close>

text \<open>
  C26. Table lookup. Entries added in ascending key order to a new table are found again
  through its files: after building, closing and opening, a lookup through the key range, the Bloom
  filter, the index and the block gives exactly the entry added under the key, and nothing for a
  key that was not added. The entries have to fit the length fields (\<open>table_fits\<close>).
\<close>

theorem table_lookup_correct:
  assumes "table_fits opts es"
  shows "\<exists>meta r. built_table opts files now tid es = Inr (meta, r) \<and>
    (\<forall>k. Reader_Get r k = Inr (map_option nil_empty (find (\<lambda>e. Key e = k) es)))"
proof -
  obtain meta r where r: "built_table opts files now tid es = Inr (meta, r)" "table_ok r" "lookup_ok r"
    "table_entries r = map nil_empty es"
    using built_table_spec [OF assms, of files now tid] by blast
  have "find (\<lambda>e. Key e = k) (map nil_empty es) = map_option nil_empty (find (\<lambda>e. Key e = k) es)" for k
    by (induction es) auto
  then show ?thesis using r(1) Reader_Get_spec [OF r(2,3)] by (auto simp: r(4))
qed

text \<open>
  C27. Table iteration. The iterator of the opened table yields exactly the entries added,
  in key order, across all block boundaries; after \<open>Seek\<close> it yields those from the first key not
  below the target on. The metadata describe the entries.
\<close>

theorem table_iteration_correct:
  assumes "table_fits opts es"
  shows "\<exists>meta r it. built_table opts files now tid es = Inr (meta, r) \<and>
    Reader_NewIterator r = Inr it \<and>
    collect table_iterator n it = take n (map nil_empty es) \<and>
    collect table_iterator n (TableIter_Seek target it) =
      take n (filter (\<lambda>e. target \<le> Key e) (map nil_empty es)) \<and>
    mdEntryCount meta = int (length es) \<and> mdLevel meta = oLevel opts \<and>
    mdMinKey meta = (if es = [] then [] else Key (hd es)) \<and>
    mdMaxKey meta = (if es = [] then [] else Key (last es))"
proof -
  obtain meta r where r: "built_table opts files now tid es = Inr (meta, r)" "table_ok r" "lookup_ok r"
    "table_entries r = map nil_empty es" "mdEntryCount meta = int (length es)" "mdLevel meta = oLevel opts"
    "mdMinKey meta = (if es = [] then [] else Key (hd es))"
    "mdMaxKey meta = (if es = [] then [] else Key (last es))"
    using built_table_spec [OF assms, of files now tid] by blast
  obtain it where it: "Reader_NewIterator r = Inr it" "table_inv it" "tiReader it = r"
    "table_rest it = table_entries r"
    using NewIterator_table [OF r(2)] r(3) by (auto simp: lookup_ok_def)
  have sk: "table_inv (TableIter_Seek target it)"
    "table_rest (TableIter_Seek target it) = filter (\<lambda>e. target \<le> Key e) (map nil_empty es)"
    using table_Seek [of it target] r(2,4) it(3) table.all_sorted [OF it(2)]
    by (simp_all add: dropWhile_less_filter)
  show ?thesis
    using r it table.collect_rest [OF it(2)] table.collect_rest [OF sk(1)] sk(2)
    by (intro exI [of _ meta] exI [of _ r] exI [of _ it]) simp
qed

text \<open>Two entries, a small filter, and blocks of one entry each.\<close>

definition sample_opts :: BuilderOptions where
  "sample_opts = \<lparr>oID = 7, oLevel = 0, oBlockSize = 1, oEstKeys = 2,
     oBloomBits = (\<lambda>n. 20), oBloomK = (\<lambda>bits n. 3)\<rparr>"

definition sample_entries :: "Entry list" where
  "sample_entries = [NewPutEntry 3 [1] (Some [10]), NewDeleteEntry 4 [2]]"

lemma sample_fits: "table_fits sample_opts sample_entries"
  by (simp add: table_fits_def storable_run_def sample_opts_def sample_entries_def EncodedSize_def NewBloomFilter_def
      Let_def)

theorem table_lookup_correct_witness:
  "\<exists>meta r. built_table sample_opts no_files 99 7 sample_entries = Inr (meta, r) \<and>
    Reader_Get r [1] = Inr (Some (NewPutEntry 3 [1] (Some [10]))) \<and>
    Reader_Get r [2] = Inr (Some (NewDeleteEntry 4 [2])) \<and> Reader_Get r [3] = Inr None"
proof -
  obtain meta r where r: "built_table sample_opts no_files 99 7 sample_entries = Inr (meta, r)"
    "\<forall>k. Reader_Get r k = Inr (map_option nil_empty (find (\<lambda>e. Key e = k) sample_entries))"
    using table_lookup_correct [OF sample_fits] by blast
  then show ?thesis by (auto simp: sample_entries_def nil_empty_def)
qed

theorem table_iteration_correct_witness:
  "\<exists>meta r it. built_table sample_opts no_files 99 7 sample_entries = Inr (meta, r) \<and>
    Reader_NewIterator r = Inr it \<and>
    collect table_iterator 5 (TableIter_Seek [2] it) = [NewDeleteEntry 4 [2]]"
proof -
  obtain meta r it where "built_table sample_opts no_files 99 7 sample_entries = Inr (meta, r)"
    "Reader_NewIterator r = Inr it" "collect table_iterator 5 (TableIter_Seek [2] it) =
      take 5 (filter (\<lambda>e. [2] \<le> Key e) (map nil_empty sample_entries))"
    using table_iteration_correct [OF sample_fits] by blast
  then show ?thesis by (simp add: sample_entries_def nil_empty_def)
qed

section \<open>A damaged block in the middle\<close>

text \<open>The table up to block \<open>i\<close>, as a reader of its own.\<close>

definition first_blocks :: "nat \<Rightarrow> SSTableReader \<Rightarrow> SSTableReader" where
  "first_blocks i r = r\<lparr>rdIndex := take i (rdIndex r)\<rparr>"

definition unreadable :: "SSTableReader \<Rightarrow> nat \<Rightarrow> bool" where
  "unreadable r i \<longleftrightarrow> i < length (rdIndex r) \<and>
     (\<forall>d es. ReadAt (rdData r) (ixOffset (rdIndex r ! i)) (ixLength (rdIndex r ! i)) = Inr d \<longrightarrow>
        DecodeBlock d \<noteq> Inr es)"

text \<open>An iterator over the damaged table, and one over its first blocks, in the same position.\<close>

definition same_position :: "SSTableIterator \<Rightarrow> SSTableIterator \<Rightarrow> bool" where
  "same_position it it' \<longleftrightarrow>
     (if TableIter_Valid it'
      then tiBlockIdx it = tiBlockIdx it' \<and> tiEntryIdx it = tiEntryIdx it' \<and> tiCurrBlock it = tiCurrBlock it'
      else \<not> TableIter_Valid it)"

lemma Valid_same:
  "tiCurrBlock it = tiCurrBlock it' \<Longrightarrow> tiEntryIdx it = tiEntryIdx it' \<Longrightarrow>
   TableIter_Valid it = TableIter_Valid it'"
  by (simp only: TableIter_Valid_def)

lemma loadBlock_unreadable:
  "unreadable (tiReader it) i \<Longrightarrow> tiCurrBlock (snd (loadBlock (int i) it)) = tiCurrBlock it \<and>
    tiEntryIdx (snd (loadBlock (int i) it)) = tiEntryIdx it"
  by (auto simp: unreadable_def loadBlock_def Let_def split: sum.splits read_error.splits)

lemma same_position_load:
  assumes dmg: "unreadable (tiReader it) i" and r': "tiReader it' = first_blocks i (tiReader it)"
    and j: "j \<le> i" and pos: "\<not> TableIter_Valid it" and ok: "table_ok (tiReader it')"
  shows "same_position (snd (loadBlock (int j) it)) (snd (loadBlock (int j) it'))"
proof (cases "j < i")
  case True
  have "j < length (rdIndex (tiReader it'))" "j < length (rdIndex (tiReader it))"
    "rdIndex (tiReader it') ! j = rdIndex (tiReader it) ! j" "rdData (tiReader it') = rdData (tiReader it)"
    using True dmg by (simp_all add: r' first_blocks_def unreadable_def)
  then show ?thesis
    using table_block(1) [OF ok, of j] by (auto simp: loadBlock_def Let_def same_position_def TableIter_Valid_def)
next
  case False
  then have "j = i" using j by simp
  then have "\<not> TableIter_Valid (snd (loadBlock (int j) it))"
    using loadBlock_unreadable [OF dmg] pos Valid_same by metis
  moreover have "length (rdIndex (tiReader it')) \<le> j"
    using \<open>j = i\<close> by (simp add: r' first_blocks_def)
  then have "\<not> TableIter_Valid (snd (loadBlock (int j) it'))"
    using loadBlock_end [of it' j] by (simp add: TableIter_Valid_def)
  ultimately show ?thesis by (simp add: same_position_def)
qed

lemma loadBlock_reader [simp]: "tiReader (snd (loadBlock k it)) = tiReader it"
  by (auto simp: loadBlock_def Let_def split: sum.splits read_error.splits)

lemma same_position_Next:
  assumes dmg: "unreadable (tiReader it) i" and r': "tiReader it' = first_blocks i (tiReader it)"
    and pos: "same_position it it'" and inv: "table_inv it'"
  shows "same_position (TableIter_Next it) (TableIter_Next it')"
    "tiReader (TableIter_Next it) = tiReader it"
proof -
  show "tiReader (TableIter_Next it) = tiReader it"
    by (auto simp: TableIter_Next_def Let_def split: option.splits)
  show "same_position (TableIter_Next it) (TableIter_Next it')"
  proof (cases "TableIter_Valid it'")
    case False
    then show ?thesis using pos by (simp add: same_position_def TableIter_Next_def)
  next
    case True
    have same: "tiBlockIdx it = tiBlockIdx it'" "tiEntryIdx it = tiEntryIdx it'" "tiCurrBlock it = tiCurrBlock it'"
      using pos True by (simp_all add: same_position_def)
    have valid: "TableIter_Valid it" using True same Valid_same by metis
    obtain blk where blk: "tiCurrBlock it' = Some blk"
      using True by (cases "tiCurrBlock it'") (simp_all add: TableIter_Valid_def)
    let ?it = "it\<lparr>tiEntryIdx := tiEntryIdx it' + 1\<rparr>" and ?it' = "it'\<lparr>tiEntryIdx := tiEntryIdx it' + 1\<rparr>"
    let ?j = "Suc (nat (tiBlockIdx it'))"
    have b: "0 \<le> tiBlockIdx it'" "tiBlockIdx it' < int (length (rdIndex (tiReader it')))"
      using inv blk by (auto simp: table_inv_def)
    have j: "int ?j = tiBlockIdx it' + 1" "?j \<le> i" using b by (simp_all add: r' first_blocks_def nat_less_iff)
    show ?thesis
    proof (cases "tiEntryIdx it' + 1 \<ge> int (length blk)")
      case end_blk: True
      have "TableIter_Next it = snd (loadBlock (int ?j) ?it)" "TableIter_Next it' = snd (loadBlock (int ?j) ?it')"
        using end_blk True valid same blk b(1) by (simp_all add: TableIter_Next_def Let_def add.commute)
      moreover have "\<not> TableIter_Valid ?it" using end_blk same(3) blk by (simp add: TableIter_Valid_def)
      ultimately show ?thesis
        using same_position_load [of ?it i ?it' ?j] dmg r' j(2) inv by (simp add: table_inv_def)
    next
      case False
      then show ?thesis
        using True valid same blk by (simp add: TableIter_Next_def Let_def same_position_def TableIter_Valid_def)
    qed
  qed
qed

lemma collect_same:
  assumes "unreadable (tiReader it) i" "tiReader it' = first_blocks i (tiReader it)"
    "same_position it it'" "table_inv it'"
  shows "collect table_iterator n it = collect table_iterator n it'"
  using assms
proof (induction n arbitrary: it it')
  case (Suc n)
  have v: "itValid table_iterator it = itValid table_iterator it'"
    using Suc.prems(3) Valid_same [of it it'] by (auto simp: same_position_def table_iterator_def split: if_splits)
  show ?case
  proof (cases "TableIter_Valid it'")
    case True
    have "itEntry table_iterator it = itEntry table_iterator it'"
      using Suc.prems(3) True v by (simp add: same_position_def table_iterator_def TableIter_Entry_def)
    moreover have "collect table_iterator n (TableIter_Next it) = collect table_iterator n (TableIter_Next it')"
    proof (rule Suc.IH)
      note nx = same_position_Next [OF Suc.prems] and nx' = table_Next [OF Suc.prems(4)]
      show "unreadable (tiReader (TableIter_Next it)) i" "same_position (TableIter_Next it) (TableIter_Next it')"
        "tiReader (TableIter_Next it') = first_blocks i (tiReader (TableIter_Next it))"
        "table_inv (TableIter_Next it')"
        using nx nx' Suc.prems by simp_all
    qed
    ultimately show ?thesis using v by (simp add: table_iterator_def)
  qed (use v in \<open>simp add: table_iterator_def\<close>)
qed simp

text \<open>
  C31. A damaged block ends the iteration silently. When block \<open>i\<close> of a table cannot be
  read or decoded (a byte of it changed, say) while the blocks before it are sound, the iterator is
  created without an error and yields exactly the entries of the blocks before it, and then it is
  not valid any more, as at the end of the table: \<open>Next\<close> drops the error of \<open>loadBlock\<close>, and a
  compaction that reads the table this way drops all entries from the damaged block on.
\<close>

theorem table_iterator_hides_damage:
  assumes "table_ok (first_blocks i r)" "0 < i" "unreadable r i" "\<not> rdClosed r"
  shows "\<exists>it. Reader_NewIterator r = Inr it \<and>
    collect table_iterator n it = take n (table_entries (first_blocks i r))"
proof -
  let ?r = "first_blocks i r"
  let ?it = "\<lparr>tiReader = r, tiBlockIdx = 0, tiEntryIdx = 0, tiCurrBlock = None\<rparr>"
  let ?it' = "\<lparr>tiReader = ?r, tiBlockIdx = 0, tiEntryIdx = 0, tiCurrBlock = None\<rparr>"
  have i: "i < length (rdIndex r)" using assms(3) by (simp add: unreadable_def)
  have pos: "same_position (snd (loadBlock (int 0) ?it)) (snd (loadBlock (int 0) ?it'))"
    by (rule same_position_load) (use assms in \<open>simp_all add: TableIter_Valid_def\<close>)
  have "fst (loadBlock 0 ?it) = LoadOk"
    using table_block(1) [OF assms(1), of 0] i assms(2)
    by (auto simp: loadBlock_def Let_def first_blocks_def nth_take)
  then have new: "Reader_NewIterator r = Inr (snd (loadBlock 0 ?it))"
    using assms(4) by (auto simp: Reader_NewIterator_def split: prod.splits load_result.splits)
  note rest = loadBlock_rest [of ?it' 0]
  have "collect table_iterator n (snd (loadBlock 0 ?it)) = collect table_iterator n (snd (loadBlock 0 ?it'))"
    by (rule collect_same [where i = i]) (use assms pos rest in simp_all)
  also have "\<dots> = take n (table_entries ?r)"
    using table.collect_rest [of "snd (loadBlock 0 ?it')" n] rest assms(1) by (simp add: table_entries_def)
  finally show ?thesis using new by blast
qed

text \<open>A table of two blocks whose data file ends after the first one.\<close>

definition cut_table :: SSTableReader where
  "cut_table = \<lparr>rdId = 1,
     rdMeta = \<lparr>mdID = 1, mdLevel = 0, mdEntryCount = 2, mdDataSize = 60, mdMinKey = [1], mdMaxKey = [2],
       mdCreatedAt = 0\<rparr>,
     rdIndex = index_of 0 [[NewPutEntry 3 [1] (Some [10])]] @ [\<lparr>ixKey = [2], ixOffset = 25, ixLength = 24\<rparr>],
     rdBloom = NewBloomFilter (\<lambda>n. 20) (\<lambda>bits n. 3) 2,
     rdData = data_of [[NewPutEntry 3 [1] (Some [10])]], rdClosed = False, rdBypassBloom = False\<rparr>"

theorem table_iterator_hides_damage_witness:
  "\<exists>it. Reader_NewIterator cut_table = Inr it \<and>
    collect table_iterator 9 it = [NewPutEntry 3 [1] (Some [10])]"
proof -
  let ?r = "first_blocks 1 cut_table" and ?e = "NewPutEntry 3 [1] (Some [10])"
  have "table_ok ?r \<and> table_entries ?r = map nil_empty [?e]"
    using reader_of_blocks [of ?r "[[?e]]"]
    by (simp add: first_blocks_def cut_table_def EncodedSize_def)
  moreover have "unreadable cut_table 1"
    by (simp add: unreadable_def cut_table_def ReadAt_def length_Block_Encode EncodedSize_def)
  moreover have "\<not> rdClosed cut_table" by (simp add: cut_table_def)
  ultimately show ?thesis
    using table_iterator_hides_damage [of 1 cut_table 9] by (simp add: nil_empty_def)
qed

end
