(* ===== verification/Compactor.thy ===== *)
theory Compactor
  imports Picker MergerProps SSTableBuild
begin

text \<open>
  \<open>pkg/compactor/compactor.go\<close>: one compaction reads its input tables through the merge iterator
  and writes the entries to new tables, which replace the inputs in the manifest.
\<close>

section \<open>The state\<close>

record CompactorStats =
  csTotalCompactions :: int
  csBytesRead :: int
  csBytesWritten :: int
  csTombstonesPurged :: int
  csLastDuration :: int

record Compactor =
  cpConfig :: LevelConfig
  cpTargetTable :: int
  cpStats :: CompactorStats

definition NewCompactor :: "LevelConfig \<Rightarrow> int \<Rightarrow> Compactor" where
  "NewCompactor cfg targetTableSize =
     \<lparr>cpConfig = cfg,
      cpTargetTable = (if targetTableSize \<le> 0 then 2 * 1024 * 1024 else targetTableSize),
      cpStats = \<lparr>csTotalCompactions = 0, csBytesRead = 0, csBytesWritten = 0,
        csTombstonesPurged = 0, csLastDuration = 0\<rparr>\<rparr>"

definition Compactor_Stats :: "Compactor \<Rightarrow> CompactorStats" where
  "Compactor_Stats c = cpStats c"

text \<open>The table files of the directory, by table id.\<close>
type_synonym disk = "uint64 \<Rightarrow> TableFiles"

text \<open>
  What the environment decides: the results of the system calls per table, the clock at the end of
  each table, the time taken, and the Bloom filter sizes for a false positive rate of 0.01.
\<close>

record compact_env =
  ceIO :: "uint64 \<Rightarrow> builder_io \<Rightarrow> bool"
  ceNow :: "uint64 \<Rightarrow> int64"
  ceDuration :: int
  ceBloomBits :: "int \<Rightarrow> uint64"
  ceBloomK :: "uint64 \<Rightarrow> int \<Rightarrow> uint32"

datatype compactor_error =
    MissingReader uint64 | OpenIterator uint64 sst_error | StartTable sst_error
  | AddFailed sst_error | FinishFailed sst_error | CommitFailed | NoBuilder

text \<open>The variables of \<open>Compact\<close> that its loop updates.\<close>

record 'm compact_state =
  ksManifest :: 'm
  ksDisk :: disk
  ksNew :: "uint64 list"
  ksBuilder :: "SSTableBuilder option"
  ksSize :: int
  ksBytes :: int
  ksPurged :: int

section \<open>One output entry\<close>

definition keep_builder :: "SSTableBuilder \<Rightarrow> 'm compact_state \<Rightarrow> 'm compact_state" where
  "keep_builder b st =
     st\<lparr>ksBuilder := Some b, ksDisk := (ksDisk st)(oID (bOpts b) := bFiles b)\<rparr>"

definition compact_opts :: "compact_env \<Rightarrow> CompactionTask \<Rightarrow> uint64 \<Rightarrow> BuilderOptions" where
  "compact_opts E task newID =
     \<lparr>oID = newID, oLevel = ToLevel task, oBlockSize = 4096, oEstKeys = 5000,
      oBloomBits = ceBloomBits E, oBloomK = ceBloomK E\<rparr>"

definition startNewTable ::
  "'m Manifest \<Rightarrow> compact_env \<Rightarrow> CompactionTask \<Rightarrow> 'm compact_state
     \<Rightarrow> compactor_error option \<times> 'm compact_state" where
  "startNewTable M E task st =
     (case mfNextID M (ksManifest st) of
        (newID, m1) \<Rightarrow>
          (case NewBuilder (ceIO E newID) (compact_opts E task newID) (ksDisk st newID) of
             Inl err \<Rightarrow> (Some (StartTable err), st\<lparr>ksManifest := m1\<rparr>)
           | Inr b \<Rightarrow>
               (None, (keep_builder b st)\<lparr>ksManifest := m1, ksSize := 0, ksNew := ksNew st @ [newID]\<rparr>)))"

definition finish_table ::
  "compact_env \<Rightarrow> SSTableBuilder \<Rightarrow> 'm compact_state \<Rightarrow> compactor_error option \<times> 'm compact_state" where
  "finish_table E b st =
     (let tid = oID (bOpts b)
      in case Finish (ceIO E tid) (ceNow E tid) b of
           (Inl err, b1) \<Rightarrow> (Some (FinishFailed err), keep_builder b1 st)
         | (Inr meta, b1) \<Rightarrow> (None, (keep_builder b1 st)\<lparr>ksBuilder := None\<rparr>))"

definition add_entry ::
  "compact_env \<Rightarrow> int \<Rightarrow> Entry \<Rightarrow> 'm compact_state \<Rightarrow> compactor_error option \<times> 'm compact_state" where
  "add_entry E target entry st =
     (case ksBuilder st of
        None \<Rightarrow> (Some NoBuilder, st)
      | Some b \<Rightarrow>
          (case Builder_Add (ceIO E (oID (bOpts b))) entry b of
             (Some err, b1) \<Rightarrow> (Some (AddFailed err), keep_builder b1 st)
           | (None, b1) \<Rightarrow>
               let entrySize = int (Size entry);
                   st1 = (keep_builder b1 st)\<lparr>ksSize := ksSize st + entrySize,
                           ksBytes := ksBytes st + entrySize\<rparr>
               in if ksSize st1 \<ge> target then finish_table E b1 st1 else (None, st1)))"

definition compact_entry ::
  "'m Manifest \<Rightarrow> compact_env \<Rightarrow> int \<Rightarrow> CompactionTask \<Rightarrow> Entry \<Rightarrow> 'm compact_state
     \<Rightarrow> compactor_error option \<times> 'm compact_state" where
  "compact_entry M E target task entry st =
     (if ksBuilder st = None
      then case startNewTable M E task st of
             (Some err, st1) \<Rightarrow> (Some err, st1)
           | (None, st1) \<Rightarrow> add_entry E target entry st1
      else add_entry E target entry st)"

section \<open>The compaction\<close>

text \<open>The loop over the merge iterator; \<open>None\<close> is a panic or a loop that never ends.\<close>

partial_function (option) compact_loop ::
  "'m Manifest \<Rightarrow> compact_env \<Rightarrow> int \<Rightarrow> CompactionTask \<Rightarrow> SSTableIterator MergedIterator
     \<Rightarrow> 'm compact_state \<Rightarrow> (compactor_error option \<times> 'm compact_state) option" where
  "compact_loop M E target task it st =
     (if \<not> Merged_Valid it then Some (None, st)
      else case Merged_Entry it of
        None \<Rightarrow> None
      | Some entry \<Rightarrow>
          if IsBottom task \<and> IsTombstone entry
          then Option.bind (Merged_Next table_iterator it)
            (\<lambda>it1. compact_loop M E target task it1 (st\<lparr>ksPurged := ksPurged st + 1\<rparr>))
          else case compact_entry M E target task entry st of
            (err, st1) \<Rightarrow>
              (if err \<noteq> None then Some (err, st1)
               else Option.bind (Merged_Next table_iterator it)
                 (\<lambda>it1. compact_loop M E target task it1 st1)))"

fun open_inputs ::
  "readers \<Rightarrow> uint64 list \<Rightarrow> int \<Rightarrow> compactor_error + SSTableIterator list \<times> int" where
  "open_inputs readers [] inputBytes = Inr ([], inputBytes)"
| "open_inputs readers (tid # tids) inputBytes =
     (case readers tid of
        None \<Rightarrow> Inl (MissingReader tid)
      | Some r \<Rightarrow>
          (case Reader_NewIterator r of
             Inl err \<Rightarrow> Inl (OpenIterator tid err)
           | Inr it \<Rightarrow>
               (case open_inputs readers tids (inputBytes + mdDataSize (rdMeta r)) of
                  Inl err \<Rightarrow> Inl err
                | Inr (its, n) \<Rightarrow> Inr (it # its, n))))"

definition commit_stats :: "compact_env \<Rightarrow> int \<Rightarrow> 'm compact_state \<Rightarrow> Compactor \<Rightarrow> Compactor" where
  "commit_stats E inputBytes st c =
     (let s = cpStats c
      in c\<lparr>cpStats := \<lparr>csTotalCompactions = csTotalCompactions s + 1,
             csBytesRead = csBytesRead s + inputBytes,
             csBytesWritten = csBytesWritten s + ksBytes st,
             csTombstonesPurged = csTombstonesPurged s + ksPurged st,
             csLastDuration = ceDuration E\<rparr>\<rparr>)"

definition compaction_edit :: "CompactionTask \<Rightarrow> uint64 list \<Rightarrow> VersionEdit" where
  "compaction_edit task newIDs =
     \<lparr>AddedTables = map (\<lambda>nid. \<lparr>tmID = nid, tmLevel = ToLevel task\<rparr>) newIDs,
      DeletedTables = InputFrom task @ InputTo task\<rparr>"

type_synonym 'm compact_result =
  "(compactor_error + uint64 list \<times> uint64 list) \<times> Compactor \<times> 'm \<times> disk"

definition Compact ::
  "'f float_ops \<Rightarrow> 'm Manifest \<Rightarrow> compact_env \<Rightarrow> readers \<Rightarrow> Compactor \<Rightarrow> 'm \<Rightarrow> disk
     \<Rightarrow> 'm compact_result option" where
  "Compact F M E readers c m disk =
     (case PickCompaction F (cpConfig c) (level_of (mfGetAllLevels M m)) readers of
        None \<Rightarrow> Some (Inr ([], []), c, m, disk)
      | Some task \<Rightarrow>
          (let allInputs = InputFrom task @ InputTo task
           in case open_inputs readers allInputs 0 of
                Inl err \<Rightarrow> Some (Inl err, c, m, disk)
              | Inr (inputs, inputBytes) \<Rightarrow>
                  Option.bind (NewMergedIterator table_iterator (map Some inputs) (IsBottom task)) (\<lambda>it.
                  Option.bind (compact_loop M E (cpTargetTable c) task it
                    \<lparr>ksManifest = m, ksDisk = disk, ksNew = [], ksBuilder = None, ksSize = 0,
                     ksBytes = 0, ksPurged = 0\<rparr>) (\<lambda>(err, st).
                    Some
                      (case err of
                         Some e \<Rightarrow> (Inl e, c, ksManifest st, ksDisk st)
                       | None \<Rightarrow>
                           (case (case ksBuilder st of
                                    None \<Rightarrow> (None, st)
                                  | Some b \<Rightarrow> finish_table E b st) of
                              (Some e, st1) \<Rightarrow> (Inl e, c, ksManifest st1, ksDisk st1)
                            | (None, st1) \<Rightarrow>
                                (case mfLogAndApply M (compaction_edit task (ksNew st1)) (ksManifest st1) of
                                   (False, m2) \<Rightarrow> (Inl CommitFailed, c, m2, ksDisk st1)
                                 | (True, m2) \<Rightarrow>
                                     (Inr (ksNew st1, allInputs), commit_stats E inputBytes st1 c,
                                      m2, ksDisk st1))))))))"

definition RemoveSSTableFiles :: "uint64 \<Rightarrow> disk \<Rightarrow> disk" where
  "RemoveSSTableFiles tid d = d(tid := no_files)"

end
