(* ===== verification/CompactorProps.thy ===== *)
theory CompactorProps
  imports Compactor
begin

text \<open>
  The output tables of a compaction hold, one after the other, the merged view of its inputs, in
  the order in which the task lists them.
\<close>

section \<open>The tables written so far\<close>

definition tables_written :: "disk \<Rightarrow> int \<Rightarrow> uint64 list \<Rightarrow> Entry list list \<Rightarrow> bool" where
  "tables_written disk lvl ids groups \<longleftrightarrow>
     list_all2 (\<lambda>tid g. g \<noteq> [] \<and>
       (\<exists>meta. files_hold (disk tid) meta g \<and> mdID meta = tid \<and> mdLevel meta = lvl)) ids groups"

lemma tables_written_cong:
  "(\<And>t. t \<in> set ids \<Longrightarrow> d t = d' t) \<Longrightarrow> tables_written d lvl ids groups = tables_written d' lvl ids groups"
  by (auto simp: tables_written_def list_all2_conv_all_nth)

lemma tables_written_lengths: "tables_written d lvl ids groups \<Longrightarrow> length ids \<le> length (concat groups)"
  unfolding tables_written_def
proof (induction rule: list_all2_induct)
  case (Cons x xs y ys)
  then have "1 \<le> length y" by (cases y) auto
  with Cons show ?case by simp
qed simp

definition open_builder :: "int \<Rightarrow> SSTableBuilder \<Rightarrow> Entry list \<Rightarrow> bool" where
  "open_builder lvl b cur \<longleftrightarrow>
     (\<exists>bits bs blk. builder_inv bits b bs blk \<and> bits < 2 ^ 35 \<and> concat bs @ blk = cur \<and>
        \<not> bClosed b \<and> oLevel (bOpts b) = lvl)"

lemma storable_run_append:
  "storable_run (xs @ ys) \<Longrightarrow> storable_run xs \<and> storable_run ys"
  by (auto simp: storable_run_def sorted_wrt_append)

lemma open_builder_Add:
  assumes b: "open_builder lvl b cur" and io: "\<forall>x. io x" and run: "storable_run (cur @ [e])"
  shows "\<exists>b'. Builder_Add io e b = (None, b') \<and> open_builder lvl b' (cur @ [e]) \<and> bOpts b' = bOpts b"
proof -
  obtain bits bs blk where inv: "builder_inv bits b bs blk" "bits < 2 ^ 35" "concat bs @ blk = cur"
    "\<not> bClosed b" "oLevel (bOpts b) = lvl"
    using b by (auto simp: open_builder_def)
  have "table_bound (concat bs @ blk @ [e]) < 2 ^ 32" "Key e \<noteq> []"
    "\<forall>f\<in>set (concat bs @ blk). Key f \<noteq> [] \<and> Key f < Key e"
    using run inv(3) by (auto simp: storable_run_def sorted_wrt_append simp flip: append_assoc)
  from Add_inv [OF inv(1) io inv(4) this] show ?thesis
    using inv(2,3,5) unfolding open_builder_def by (metis append_assoc)
qed

section \<open>The variables of the loop\<close>

definition compact_at ::
  "'m Manifest \<Rightarrow> ('m \<Rightarrow> uint64 set) \<Rightarrow> 'm \<Rightarrow> disk \<Rightarrow> int \<Rightarrow> 'm compact_state
     \<Rightarrow> uint64 list \<Rightarrow> Entry list list \<Rightarrow> Entry list \<Rightarrow> bool" where
  "compact_at M used m0 disk0 lvl st ids groups cur \<longleftrightarrow>
     tables_written (ksDisk st) lvl ids groups \<and>
     (case ksBuilder st of
        None \<Rightarrow> cur = [] \<and> ksNew st = ids
      | Some b \<Rightarrow> ksNew st = ids @ [oID (bOpts b)] \<and> open_builder lvl b cur) \<and>
     distinct (ksNew st) \<and> set (ksNew st) \<inter> used m0 = {} \<and>
     used (ksManifest st) = used m0 \<union> set (ksNew st) \<and>
     mfGetLevelTables M (ksManifest st) = mfGetLevelTables M m0 \<and>
     (\<forall>t. t \<notin> set (ksNew st) \<longrightarrow> ksDisk st t = disk0 t) \<and> ksPurged st = 0"

text \<open>The system calls succeed, and the filter of a table is not absurdly large.\<close>

definition compact_env_ok :: "compact_env \<Rightarrow> bool" where
  "compact_env_ok E \<longleftrightarrow> (\<forall>tid x. ceIO E tid x) \<and>
     bfBits (NewBloomFilter (ceBloomBits E) (ceBloomK E) 5000) < 2 ^ 35"

lemma fresh_room:
  fixes used :: "uint64 set"
  assumes "card used + n < 2 ^ 64" "length ids \<le> n"
  shows "used \<union> set ids \<noteq> UNIV"
proof
  assume "used \<union> set ids = UNIV"
  then have "card (used \<union> set ids) = 2 ^ 64" by (simp add: card_word)
  moreover have "card (used \<union> set ids) \<le> card used + card (set ids)" by (rule card_Un_le)
  moreover have "card (set ids) \<le> length ids" by (rule card_length)
  ultimately show False using assms by linarith
qed

lemma startNewTable_at:
  assumes laws: "manifest_laws M used" and env: "compact_env_ok E"
    and st: "compact_at M used m0 disk0 (ToLevel task) st ids groups []" and "ksBuilder st = None"
    and room: "card (used m0) + length (concat groups) < 2 ^ 64"
  shows "\<exists>st'. startNewTable M E task st = (None, st') \<and> ksBuilder st' \<noteq> None \<and>
    compact_at M used m0 disk0 (ToLevel task) st' ids groups []"
proof -
  obtain nid m1 where nid: "mfNextID M (ksManifest st) = (nid, m1)" by fastforce
  have new: "ksNew st = ids" and w: "tables_written (ksDisk st) (ToLevel task) ids groups"
    using st assms(4) by (simp_all add: compact_at_def)
  have "used m0 \<union> set ids \<noteq> UNIV"
    using fresh_room [OF room tables_written_lengths [OF w]] .
  then have fresh: "nid \<notin> used m0 \<union> set ids"
    using manifest_NextID(3) [OF laws nid] st new by (simp add: compact_at_def)
  note m1 = manifest_NextID(1,2) [OF laws nid]
  let ?opts = "compact_opts E task nid"
  have "\<forall>x. ceIO E nid x" using env by (simp add: compact_env_ok_def)
  then obtain b where b: "NewBuilder (ceIO E nid) ?opts (ksDisk st nid) = Inr b"
    "builder_inv (bfBits (bBloom b)) b [] []" "\<not> bClosed b" "oID (bOpts b) = nid"
    "oLevel (bOpts b) = ToLevel task"
    using New_inv [of "ceIO E nid" ?opts "ksDisk st nid"] by (auto simp: compact_opts_def)
  have "bBloom b = NewBloomFilter (ceBloomBits E) (ceBloomK E) 5000"
    using b(1) by (auto simp: NewBuilder_def Let_def compact_opts_def split: if_splits)
  then have "open_builder (ToLevel task) b []"
    using b env unfolding open_builder_def compact_env_ok_def
    by (intro exI [of _ "bfBits (bBloom b)"] exI [of _ "[]"]) simp
  moreover have "tables_written ((ksDisk st)(nid := bFiles b)) (ToLevel task) ids groups"
    using w fresh by (subst tables_written_cong [of ids _ "ksDisk st"]) auto
  ultimately show ?thesis
    using st fresh nid b(1,4) new assms(4) m1
    by (auto simp: startNewTable_def keep_builder_def compact_at_def)
qed

lemma finish_table_at:
  assumes env: "compact_env_ok E" and st: "compact_at M used m0 disk0 lvl st ids groups cur"
    and b: "ksBuilder st = Some b" and cur: "cur \<noteq> []" "storable_run cur"
  shows "\<exists>st'. finish_table E b st = (None, st') \<and> ksBuilder st' = None \<and>
    compact_at M used m0 disk0 lvl st' (ids @ [oID (bOpts b)]) (groups @ [cur]) []"
proof -
  let ?tid = "oID (bOpts b)"
  obtain bits bs blk where inv: "builder_inv bits b bs blk" "bits < 2 ^ 35" "concat bs @ blk = cur"
    "\<not> bClosed b" "oLevel (bOpts b) = lvl"
    using st b by (auto simp: compact_at_def open_builder_def)
  have io: "\<forall>x. ceIO E ?tid x" using env by (simp add: compact_env_ok_def)
  obtain b' meta where fin: "Finish (ceIO E ?tid) (ceNow E ?tid) b = (Inr meta, b')"
    "files_hold (bFiles b') meta cur" "mdID meta = ?tid" "mdLevel meta = lvl"
    using Finish_holds [OF inv(1) io inv(4) _ inv(2), of "ceNow E ?tid"] cur(2) inv(3,5) by auto
  have "bOpts b' = bOpts b"
    using fin(1) by (auto simp: Finish_def Let_def flushBlock_def split: if_splits prod.splits option.splits list.splits)
  moreover have "tables_written ((ksDisk st)(?tid := bFiles b')) lvl ids groups"
    using st b by (subst tables_written_cong [of ids _ "ksDisk st"]) (auto simp: compact_at_def)
  then have "tables_written ((ksDisk st)(?tid := bFiles b')) lvl (ids @ [?tid]) (groups @ [cur])"
    using fin(2-4) cur(1) by (auto simp: tables_written_def intro!: list_all2_appendI)
  ultimately show ?thesis
    using st b fin(1) by (auto simp: finish_table_def Let_def keep_builder_def compact_at_def)
qed

lemma add_entry_at:
  assumes env: "compact_env_ok E" and st: "compact_at M used m0 disk0 lvl st ids groups cur"
    and b: "ksBuilder st = Some b" and run: "storable_run (cur @ [e])"
  shows "\<exists>st' ids' groups' cur'. add_entry E target e st = (None, st') \<and>
    compact_at M used m0 disk0 lvl st' ids' groups' cur' \<and>
    concat groups' @ cur' = concat groups @ cur @ [e] \<and> (ksBuilder st' \<noteq> None \<longrightarrow> cur' \<noteq> []) \<and>
    (cur' = [] \<or> cur' = cur @ [e])"
proof -
  let ?tid = "oID (bOpts b)"
  have io: "\<forall>x. ceIO E ?tid x" using env by (simp add: compact_env_ok_def)
  have "open_builder lvl b cur" using st b by (simp add: compact_at_def)
  from open_builder_Add [OF this io run] obtain b1 where b1: "Builder_Add (ceIO E ?tid) e b = (None, b1)"
    "open_builder lvl b1 (cur @ [e])" "bOpts b1 = bOpts b" by blast
  define st1 where "st1 = (keep_builder b1 st)\<lparr>ksSize := ksSize st + int (Size e),
    ksBytes := ksBytes st + int (Size e)\<rparr>"
  have at: "compact_at M used m0 disk0 lvl st1 ids groups (cur @ [e])"
  proof -
    have "tables_written ((ksDisk st)(?tid := bFiles b1)) lvl ids groups"
      using st b by (subst tables_written_cong [of ids _ "ksDisk st"]) (auto simp: compact_at_def)
    then show ?thesis using st b b1(2,3) by (auto simp: compact_at_def st1_def keep_builder_def)
  qed
  have b1': "ksBuilder st1 = Some b1" by (simp add: st1_def keep_builder_def)
  have eq: "add_entry E target e st = (if ksSize st1 \<ge> target then finish_table E b1 st1 else (None, st1))"
    using b b1(1) by (simp add: add_entry_def Let_def st1_def)
  show ?thesis
  proof (cases "ksSize st1 \<ge> target")
    case True
    obtain st' where "finish_table E b1 st1 = (None, st')" "ksBuilder st' = None"
      "compact_at M used m0 disk0 lvl st' (ids @ [oID (bOpts b1)]) (groups @ [cur @ [e]]) []"
      using finish_table_at [OF env at b1' _ run] by auto
    then show ?thesis using True eq
      by (intro exI [of _ st'] exI [of _ "ids @ [oID (bOpts b1)]"] exI [of _ "groups @ [cur @ [e]]"]
        exI [of _ "[]"]) simp
  next
    case False
    then show ?thesis using at eq
      by (intro exI [of _ st1] exI [of _ ids] exI [of _ groups] exI [of _ "cur @ [e]"]) simp
  qed
qed

lemma compact_entry_at:
  assumes laws: "manifest_laws M used" and env: "compact_env_ok E"
    and st: "compact_at M used m0 disk0 (ToLevel task) st ids groups cur"
    and run: "storable_run (cur @ [e])" and room: "card (used m0) + length (concat groups) < 2 ^ 64"
  shows "\<exists>st' ids' groups' cur'. compact_entry M E target task e st = (None, st') \<and>
    compact_at M used m0 disk0 (ToLevel task) st' ids' groups' cur' \<and>
    concat groups' @ cur' = concat groups @ cur @ [e] \<and> (ksBuilder st' \<noteq> None \<longrightarrow> cur' \<noteq> []) \<and>
    (cur' = [] \<or> cur' = cur @ [e])"
proof (cases "ksBuilder st")
  case None
  then have cur: "cur = []" using st by (simp add: compact_at_def)
  obtain st1 b where st1: "startNewTable M E task st = (None, st1)" "ksBuilder st1 = Some b"
    "compact_at M used m0 disk0 (ToLevel task) st1 ids groups []"
    using startNewTable_at [OF laws env _ None room] st cur by blast
  show ?thesis
    using add_entry_at [OF env st1(3,2), of e target] run cur None st1(1)
    by (simp add: compact_entry_def)
next
  case (Some b)
  then show ?thesis using add_entry_at [OF env st Some run, of target] by (simp add: compact_entry_def)
qed


section \<open>The loop\<close>

text \<open>The merge iterator over tables; its locale lemmas at the table iterator.\<close>

abbreviation tables_merged :: "SSTableIterator MergedIterator \<Rightarrow> Entry list \<Rightarrow> bool" where
  "tables_merged \<equiv> sorted_iterator.merged_at table_iterator table_inv table_rest"

lemmas tables_Next = sorted_iterator.Next_spec [OF table.sorted_iterator_axioms]
lemmas tables_Entry = sorted_iterator.Entry_spec [OF table.sorted_iterator_axioms]
lemmas tables_New = sorted_iterator.New_spec [OF table.sorted_iterator_axioms]

lemma tables_Valid: "tables_merged it vs \<Longrightarrow> Merged_Valid it \<longleftrightarrow> vs \<noteq> []"
  by (simp add: Merged_Valid_def sorted_iterator.merged_at_def [OF table.sorted_iterator_axioms])

lemma compact_loop_at:
  assumes laws: "manifest_laws M used" and env: "compact_env_ok E"
    and "tables_merged it vs" "\<forall>e\<in>set vs. \<not> (IsBottom task \<and> IsTombstone e)"
    and "compact_at M used m0 disk0 (ToLevel task) st ids groups cur" "ksBuilder st \<noteq> None \<longrightarrow> cur \<noteq> []"
    and "storable_run (concat groups @ cur @ vs)"
    and "card (used m0) + length (concat groups @ cur @ vs) < 2 ^ 64"
  shows "\<exists>st' ids' groups' cur'. compact_loop M E target task it st = Some (None, st') \<and>
    compact_at M used m0 disk0 (ToLevel task) st' ids' groups' cur' \<and>
    concat groups' @ cur' = concat groups @ cur @ vs \<and> (ksBuilder st' \<noteq> None \<longrightarrow> cur' \<noteq> [])"
  using assms(3-)
proof (induction vs arbitrary: it st ids groups cur)
  case Nil
  then show ?case using tables_Valid [OF Nil.prems(1)]
    by (subst compact_loop.simps)
      (intro exI [of _ st] exI [of _ ids] exI [of _ groups] exI [of _ cur], simp)
next
  case (Cons e vs)
  have "storable_run ((concat groups @ cur @ [e]) @ vs)" using Cons.prems(5) by simp
  then have "storable_run (cur @ [e])" using storable_run_append by blast
  moreover have "card (used m0) + length (concat groups) < 2 ^ 64" using Cons.prems(6) by simp
  ultimately obtain st1 ids1 groups1 cur1 where st1: "compact_entry M E target task e st = (None, st1)"
    "compact_at M used m0 disk0 (ToLevel task) st1 ids1 groups1 cur1"
    "concat groups1 @ cur1 = concat groups @ cur @ [e]" "ksBuilder st1 \<noteq> None \<longrightarrow> cur1 \<noteq> []"
    using compact_entry_at [OF laws env Cons.prems(3), of e target] by blast
  obtain it1 where it1: "Merged_Next table_iterator it = Some it1" "tables_merged it1 vs"
    using tables_Next [OF Cons.prems(1)] by auto
  have all: "concat groups1 @ cur1 @ vs = concat groups @ cur @ e # vs"
    using arg_cong [OF st1(3), of "\<lambda>xs. xs @ vs"] by simp
  have "\<exists>st' ids' groups' cur'. compact_loop M E target task it1 st1 = Some (None, st') \<and>
    compact_at M used m0 disk0 (ToLevel task) st' ids' groups' cur' \<and>
    concat groups' @ cur' = concat groups1 @ cur1 @ vs \<and> (ksBuilder st' \<noteq> None \<longrightarrow> cur' \<noteq> [])"
    by (rule Cons.IH [OF it1(2) _ st1(2,4)]) (use Cons.prems in \<open>simp_all only: all\<close>, simp)
  moreover have "compact_loop M E target task it st = compact_loop M E target task it1 st1"
    using tables_Valid [OF Cons.prems(1)] tables_Entry [OF Cons.prems(1)] Cons.prems(2) st1(1) it1(1)
    by (subst compact_loop.simps) auto
  ultimately show ?case by (simp only: all)
qed

section \<open>A whole compaction\<close>

text \<open>The inputs are open, sound tables.\<close>

definition inputs_ok :: "readers \<Rightarrow> uint64 list \<Rightarrow> bool" where
  "inputs_ok readers tids \<longleftrightarrow>
     (\<forall>tid\<in>set tids. \<exists>r. readers tid = Some r \<and> table_ok r \<and> \<not> rdClosed r)"

definition input_runs :: "readers \<Rightarrow> uint64 list \<Rightarrow> Entry list list" where
  "input_runs readers tids = map (\<lambda>tid. table_entries (the (readers tid))) tids"

lemma open_inputs_ok:
  assumes "inputs_ok readers tids"
  shows "\<exists>its bytes. open_inputs readers tids n = Inr (its, bytes) \<and> (\<forall>it\<in>set its. table_inv it) \<and>
    map table_rest its = input_runs readers tids"
  using assms
proof (induction tids arbitrary: n)
  case (Cons tid tids)
  obtain r where r: "readers tid = Some r" "table_ok r" "\<not> rdClosed r"
    using Cons.prems by (auto simp: inputs_ok_def)
  obtain it where "Reader_NewIterator r = Inr it" "table_inv it" "table_rest it = table_entries r"
    using NewIterator_table [OF r(2,3)] by blast
  moreover have "inputs_ok readers tids" using Cons.prems by (simp add: inputs_ok_def)
  from Cons.IH [OF this, of "n + mdDataSize (rdMeta r)"] obtain its bytes where
    "open_inputs readers tids (n + mdDataSize (rdMeta r)) = Inr (its, bytes)" "\<forall>it\<in>set its. table_inv it"
    "map table_rest its = input_runs readers tids" by blast
  ultimately show ?case
    using r(1) by (intro exI [of _ "it # its"]) (simp add: input_runs_def)
qed (simp add: input_runs_def)

text \<open>
  What the compaction of a task does: \<open>None\<close> for the commit means that the manifest refused the
  edit. The new tables hold the merged view of the inputs, cut into groups.
\<close>

lemma Compact_spec:
  fixes M :: "'m Manifest"
  assumes laws: "manifest_laws M used" and env: "compact_env_ok E"
    and pick: "PickCompaction F (cpConfig c) (mfGetLevelTables M m) readers = Some task"
    and inputs: "inputs_ok readers (InputFrom task @ InputTo task)"
    and view: "view = merged_view (IsBottom task) (input_runs readers (InputFrom task @ InputTo task))"
    and fits: "storable_run view" "card (used m) + length view < 2 ^ 64"
  shows "\<exists>newIDs groups m1 disk' bytes (st :: 'm compact_state).
    tables_written disk' (ToLevel task) newIDs groups \<and> concat groups = view \<and>
    distinct newIDs \<and> set newIDs \<inter> used m = {} \<and> used m1 = used m \<union> set newIDs \<and>
    mfGetLevelTables M m1 = mfGetLevelTables M m \<and> (\<forall>t. t \<notin> set newIDs \<longrightarrow> disk' t = disk t) \<and>
    ksPurged st = 0 \<and>
    Compact F M E readers c m disk = Some
      (case mfLogAndApply M (compaction_edit task newIDs) m1 of
         (False, m2) \<Rightarrow> (Inl CommitFailed, c, m2, disk')
       | (True, m2) \<Rightarrow> (Inr (newIDs, InputFrom task @ InputTo task), commit_stats E bytes st c, m2, disk'))"
proof -
  let ?ins = "InputFrom task @ InputTo task"
  obtain its bytes where its: "open_inputs readers ?ins 0 = Inr (its, bytes)" "\<forall>it\<in>set its. table_inv it"
    "map table_rest its = input_runs readers ?ins"
    using open_inputs_ok [OF inputs] by blast
  have "runs_of table_rest (map Some its) = input_runs readers ?ins"
    using its(3) by (simp add: runs_of_def comp_def)
  then obtain it where it: "NewMergedIterator table_iterator (map Some its) (IsBottom task) = Some it"
    "tables_merged it view"
    using tables_New [of "map Some its" "IsBottom task"] its(2) view by auto
  let ?start = "\<lparr>ksManifest = m, ksDisk = disk, ksNew = [], ksBuilder = None, ksSize = 0, ksBytes = 0, ksPurged = 0\<rparr>"
  have "compact_at M used m disk (ToLevel task) ?start [] [] []"
    by (simp add: compact_at_def tables_written_def)
  moreover have "\<forall>e\<in>set view. \<not> (IsBottom task \<and> IsTombstone e)"
    using view by (auto simp: merged_view_mem)
  ultimately obtain st ids groups cur where st:
    "compact_loop M E (cpTargetTable c) task it ?start = Some (None, st)"
    "compact_at M used m disk (ToLevel task) st ids groups cur" "concat groups @ cur = view"
    "ksBuilder st \<noteq> None \<longrightarrow> cur \<noteq> []"
    using compact_loop_at [OF laws env it(2), of task m disk ?start "[]" "[]" "[]" "cpTargetTable c"] fits
    by auto
  have "\<exists>st1 ids1 groups1. (case ksBuilder st of None \<Rightarrow> (None, st) | Some b \<Rightarrow> finish_table E b st) = (None, st1) \<and>
      compact_at M used m disk (ToLevel task) st1 ids1 groups1 [] \<and> concat groups1 = view \<and> ksBuilder st1 = None"
  proof (cases "ksBuilder st")
    case None
    moreover have "cur = []" using st(2) None by (simp add: compact_at_def)
    ultimately show ?thesis using st(2,3) by auto
  next
    case (Some b)
    have "storable_run cur" using fits(1) storable_run_append st(3) by metis
    then show ?thesis
      using finish_table_at [OF env st(2) Some] st(3,4) Some by fastforce
  qed
  then obtain st1 ids1 groups1 where st1:
    "(case ksBuilder st of None \<Rightarrow> (None, st) | Some b \<Rightarrow> finish_table E b st) = (None, st1)"
    "compact_at M used m disk (ToLevel task) st1 ids1 groups1 []" "concat groups1 = view" "ksBuilder st1 = None"
    by blast
  have new: "ksNew st1 = ids1" using st1(2,4) by (simp add: compact_at_def)
  have "Compact F M E readers c m disk = Some
      (case mfLogAndApply M (compaction_edit task ids1) (ksManifest st1) of
         (False, m2) \<Rightarrow> (Inl CommitFailed, c, m2, ksDisk st1)
       | (True, m2) \<Rightarrow> (Inr (ids1, ?ins), commit_stats E bytes st1 c, m2, ksDisk st1))"
    unfolding Compact_def manifest_levels [OF laws] pick
    by (simp add: its(1) it(1) st(1) st1(1) new split: bool.splits prod.splits)
  moreover have "tables_written (ksDisk st1) (ToLevel task) ids1 groups1" "distinct ids1"
    "set ids1 \<inter> used m = {}" "used (ksManifest st1) = used m \<union> set ids1"
    "mfGetLevelTables M (ksManifest st1) = mfGetLevelTables M m"
    "\<forall>t. t \<notin> set ids1 \<longrightarrow> ksDisk st1 t = disk t" "ksPurged st1 = 0"
    using st1(2) by (simp_all add: compact_at_def st1(4) new)
  ultimately show ?thesis using st1(3)
    by (intro exI [of _ ids1] exI [of _ groups1] exI [of _ "ksManifest st1"] exI [of _ "ksDisk st1"]
      exI [of _ bytes] exI [of _ st1] conjI) assumption+
qed


section \<open>Properties\<close>

text \<open>
  C34. A compaction keeps the merged view of its inputs. When the system calls succeed and the manifest
  accepts the edit, the new tables, opened and read one after the other, hold every key of the
  inputs once, in ascending order, with the entry of the first input table in the order of the task
  that has it, without the tombstones at the bottom; their ids are new, other tables' files are left alone,
  and the manifest lists the new tables in place of the inputs. \<open>TombstonesPurged\<close> stays as it
  was: the merge iterator has dropped the tombstones before the loop could count them.
\<close>

theorem compaction_writes_merged_view:
  assumes "manifest_laws M used" "compact_env_ok E" "\<forall>edit m. fst (mfLogAndApply M edit m)"
    and "PickCompaction F (cpConfig c) (mfGetLevelTables M m) readers = Some task"
    and "inputs_ok readers (InputFrom task @ InputTo task)"
    and "view = merged_view (IsBottom task) (input_runs readers (InputFrom task @ InputTo task))"
    and "storable_run view" "card (used m) + length view < 2 ^ 64"
  shows "\<exists>newIDs groups c' m' disk'.
    Compact F M E readers c m disk = Some (Inr (newIDs, InputFrom task @ InputTo task), c', m', disk') \<and>
    tables_written disk' (ToLevel task) newIDs groups \<and> concat groups = view \<and>
    distinct newIDs \<and> set newIDs \<inter> used m = {} \<and> (\<forall>t. t \<notin> set newIDs \<longrightarrow> disk' t = disk t) \<and>
    mfGetLevelTables M m' = apply_edit (compaction_edit task newIDs) (mfGetLevelTables M m) \<and>
    csTombstonesPurged (cpStats c') = csTombstonesPurged (cpStats c)"
proof -
  obtain newIDs groups m1 disk' bytes and st :: "'a compact_state" where *:
    "tables_written disk' (ToLevel task) newIDs groups" "concat groups = view" "distinct newIDs"
    "set newIDs \<inter> used m = {}" "mfGetLevelTables M m1 = mfGetLevelTables M m"
    "\<forall>t. t \<notin> set newIDs \<longrightarrow> disk' t = disk t" "ksPurged st = 0"
    "Compact F M E readers c m disk = Some
      (case mfLogAndApply M (compaction_edit task newIDs) m1 of
         (False, m2) \<Rightarrow> (Inl CommitFailed, c, m2, disk')
       | (True, m2) \<Rightarrow> (Inr (newIDs, InputFrom task @ InputTo task), commit_stats E bytes st c, m2, disk'))"
    using Compact_spec [OF assms(1,2,4-8), of disk] by blast
  obtain m2 where m2: "mfLogAndApply M (compaction_edit task newIDs) m1 = (True, m2)"
    using assms(3) by (metis prod.collapse)
  then have "mfGetLevelTables M m2 = apply_edit (compaction_edit task newIDs) (mfGetLevelTables M m)"
    using manifest_apply(1) [OF assms(1) m2] *(5) by simp
  then show ?thesis
    using *(1-4,6-8) m2
    by (intro exI [of _ newIDs] exI [of _ groups] exI [of _ "commit_stats E bytes st c"] exI [of _ m2]
      exI [of _ disk']) (simp add: commit_stats_def Let_def)
qed

text \<open>Two tables of level 0 with one key: the first is the older one.\<close>

definition old_entries :: "Entry list" where "old_entries = [NewPutEntry 1 [7] (Some [10])]"
definition new_entries :: "Entry list" where "new_entries = [NewPutEntry 2 [7] (Some [20])]"

definition sample_env :: compact_env where
  "sample_env = \<lparr>ceIO = (\<lambda>_ _. True), ceNow = (\<lambda>_. 0), ceDuration = 0, ceBloomBits = (\<lambda>n. 20),
     ceBloomK = (\<lambda>bits n. 3)\<rparr>"

definition two_tables :: mem_manifest where
  "two_tables = \<lparr>mmNext = 3, mmTables = [\<lparr>tmID = 1, tmLevel = 0\<rparr>, \<lparr>tmID = 2, tmLevel = 0\<rparr>]\<rparr>"

definition two_compactor :: Compactor where
  "two_compactor = NewCompactor (DefaultLevelConfig\<lparr>L0CompactionTrigger := 2\<rparr>) 0"

lemma sample_run_fits: "table_fits sample_opts old_entries" "table_fits sample_opts new_entries"
  by (simp_all add: table_fits_def storable_run_def sample_opts_def old_entries_def new_entries_def
      EncodedSize_def NewBloomFilter_def Let_def)

lemma two_task:
  "PickCompaction exact_ops (cpConfig two_compactor) (mfGetLevelTables mem_manifest two_tables) readers =
    Some \<lparr>FromLevel = 0, ToLevel = 1, InputFrom = [1, 2], InputTo = [], IsBottom = True\<rparr>"
  by (simp add: PickCompaction_def two_compactor_def NewCompactor_def DefaultLevelConfig_def mem_manifest_def
      mem_tables_def two_tables_def findOverlapping_def isBottomLevel_def list_all_iff)

lemma two_env: "compact_env_ok sample_env"
  by (simp add: compact_env_ok_def sample_env_def NewBloomFilter_def Let_def)

lemma card_two_tables: "card (mem_used two_tables) \<le> 3"
  unfolding mem_used_def two_tables_def using card_image_le [of "{..<3::nat}" word_of_nat] by simp

lemma two_view: "merged_view True [old_entries, new_entries] = old_entries"
  by (simp add: merged_view_def version_def old_entries_def new_entries_def)

text \<open>Both tables hold the key; the compacted table holds the older value.\<close>

theorem compaction_writes_merged_view_witness:
  "\<exists>r1 r2 newIDs groups c' m' disk'. table_entries r1 = old_entries \<and> table_entries r2 = new_entries \<and>
    Compact exact_ops mem_manifest sample_env [1 \<mapsto> r1, 2 \<mapsto> r2] two_compactor two_tables (\<lambda>_. no_files) =
      Some (Inr (newIDs, [1, 2]), c', m', disk') \<and>
    tables_written disk' 1 newIDs groups \<and> concat groups = old_entries"
proof -
  obtain r1 r2 where r: "table_ok r1" "lookup_ok r1" "table_entries r1 = map nil_empty old_entries"
    "table_ok r2" "lookup_ok r2" "table_entries r2 = map nil_empty new_entries"
    using built_table_spec [OF sample_run_fits(1), of no_files 0 1]
      built_table_spec [OF sample_run_fits(2), of no_files 0 2] by blast
  let ?readers = "[1 \<mapsto> r1, 2 \<mapsto> r2] :: readers"
  let ?task = "\<lparr>FromLevel = 0, ToLevel = 1, InputFrom = [1, 2], InputTo = [], IsBottom = True\<rparr> :: CompactionTask"
  have ents: "table_entries r1 = old_entries" "table_entries r2 = new_entries"
    using r(3,6) by (simp_all add: old_entries_def new_entries_def nil_empty_def)
  have "inputs_ok ?readers (InputFrom ?task @ InputTo ?task)"
    using r by (simp add: inputs_ok_def lookup_ok_def)
  moreover have "old_entries = merged_view (IsBottom ?task) (input_runs ?readers (InputFrom ?task @ InputTo ?task))"
    using two_view ents by (simp add: input_runs_def)
  moreover have "storable_run old_entries" using sample_run_fits(1) by (simp add: table_fits_def)
  moreover have "card (mem_used two_tables) + length old_entries < 2 ^ 64"
    using card_two_tables by (simp add: old_entries_def)
  moreover have "\<forall>edit m. fst (mfLogAndApply mem_manifest edit m)" by (simp add: mem_manifest_def)
  ultimately show ?thesis
    using compaction_writes_merged_view [OF mem_manifest_laws two_env _ two_task, of ?readers old_entries
      "\<lambda>_. no_files"] ents by auto
qed

end
