(* ===== verification/Wal.thy ===== *)
theory Wal
  imports Entry
begin

text \<open>
  \<open>pkg/wal/wal.go\<close>: the write-ahead log. The file is modelled with what the operating system
  holds and how much of it is known to be on disk, the \<open>bufio.Writer\<close> in front of it with its
  buffer and its sticky error; the results of the system calls are a script of the
  environment. Recovery is a function of the file's bytes.
\<close>

section \<open>The file and the buffered writer\<close>

text \<open>The result of one write or fsync; \<open>IoErr n\<close> wrote \<open>n\<close> bytes before it failed.\<close>
datatype io_result = IoOk | IoErr nat

text \<open>
  \<open>fdata\<close> is the content a reader of the file sees (it survives the death of the process),
  \<open>fsynced\<close> the length of the prefix an fsync has forced to disk (it survives a power loss),
  \<open>fio\<close> the results of the next system calls (when it runs out, they succeed).
\<close>

record File =
  fdata :: bytes
  fsynced :: nat
  fio :: "io_result list"

definition next_io :: "File \<Rightarrow> io_result \<times> File" where
  "next_io f = (case fio f of [] \<Rightarrow> (IoOk, f) | r # rs \<Rightarrow> (r, f\<lparr>fio := rs\<rparr>))"

definition file_Write :: "bytes \<Rightarrow> File \<Rightarrow> nat \<times> bool \<times> File" where
  "file_Write p f =
     (case next_io f of
        (IoOk, f') \<Rightarrow> (length p, True, f'\<lparr>fdata := fdata f' @ p\<rparr>)
      | (IoErr n, f') \<Rightarrow> (min n (length p), False, f'\<lparr>fdata := fdata f' @ take n p\<rparr>))"

definition file_Sync :: "File \<Rightarrow> bool \<times> File" where
  "file_Sync f =
     (case next_io f of
        (IoOk, f') \<Rightarrow> (True, f'\<lparr>fsynced := length (fdata f')\<rparr>)
      | (IoErr _, f') \<Rightarrow> (False, f'))"

text \<open>\<open>bufio.Writer\<close>: the buffered bytes, the buffer's size and the sticky error.\<close>

record BufWriter =
  wbuf :: bytes
  wsize :: nat
  werr :: bool

definition bufio_Flush :: "BufWriter \<Rightarrow> File \<Rightarrow> bool \<times> BufWriter \<times> File" where
  "bufio_Flush b f =
     (if werr b then (False, b, f)
      else if wbuf b = [] then (True, b, f)
      else case file_Write (wbuf b) f of
        (n, True, f') \<Rightarrow> (True, b\<lparr>wbuf := []\<rparr>, f')
      | (n, False, f') \<Rightarrow> (False, b\<lparr>wbuf := drop n (wbuf b), werr := True\<rparr>, f'))"

text \<open>
  \<open>bufio.Writer.Write\<close>. The library's loop runs at most twice: a non-empty buffer is filled
  and flushed, and what is still larger than the then empty buffer is written directly.
\<close>

definition bufio_put :: "bytes \<Rightarrow> BufWriter \<Rightarrow> File \<Rightarrow> bool \<times> BufWriter \<times> File" where
  "bufio_put p b f =
     (if length p \<le> wsize b then (True, b\<lparr>wbuf := p\<rparr>, f)
      else case file_Write p f of
        (n, True, f') \<Rightarrow> (True, b, f')
      | (n, False, f') \<Rightarrow> (False, b\<lparr>werr := True\<rparr>, f'))"

definition bufio_Write :: "bytes \<Rightarrow> BufWriter \<Rightarrow> File \<Rightarrow> bool \<times> BufWriter \<times> File" where
  "bufio_Write p b f =
     (let avail = wsize b - length (wbuf b)
      in if werr b then (False, b, f)
         else if length p \<le> avail then (True, b\<lparr>wbuf := wbuf b @ p\<rparr>, f)
         else if wbuf b = [] then bufio_put p b f
         else case bufio_Flush (b\<lparr>wbuf := wbuf b @ take avail p\<rparr>) f of
           (True, b', f') \<Rightarrow> bufio_put (drop avail p) b' f'
         | (False, b', f') \<Rightarrow> (False, b', f'))"

section \<open>The log\<close>

datatype SyncPolicy = SyncAlways | SyncBatch | SyncNone

record WalOptions =
  optSyncPolicy :: SyncPolicy
  optSyncInterval :: int
  optBufferSize :: int

record WAL =
  walId :: nat
  walFile :: File
  walWriter :: BufWriter
  walOptions :: WalOptions
  walClosed :: bool
  bytesWritten :: nat
  encodeBuf :: bytes

datatype wal_error = WalClosed | WalWriteFrame | WalFlush | WalSync | WalClose | WalOpen

text \<open>
  \<open>Open\<close> on the file's present content (the empty list when it is created); \<open>io_ok\<close> says that
  the directory, the open and the stat succeeded.
\<close>

definition WAL_Open :: "bool \<Rightarrow> nat \<Rightarrow> WalOptions \<Rightarrow> File \<Rightarrow> wal_error + WAL" where
  "WAL_Open io_ok wid opts file =
     (let o1 = (if optBufferSize opts \<le> 0 then opts\<lparr>optBufferSize := 64 * 1024\<rparr> else opts);
          o2 = (if optSyncInterval o1 \<le> 0 then o1\<lparr>optSyncInterval := 50000000\<rparr> else o1)
      in if \<not> io_ok then Inl WalOpen
         else Inr \<lparr>walId = wid, walFile = file,
                   walWriter = \<lparr>wbuf = [], wsize = nat (optBufferSize o2), werr = False\<rparr>,
                   walOptions = o2, walClosed = False, bytesWritten = length (fdata file),
                   encodeBuf = []\<rparr>)"

definition WAL_Write :: "Entry \<Rightarrow> WAL \<Rightarrow> wal_error option \<times> WAL" where
  "WAL_Write entry w =
     (if walClosed w then (Some WalClosed, w)
      else
        let buf = EncodeFrameTo (encodeBuf w) entry;
            w1 = w\<lparr>encodeBuf := buf\<rparr>
        in case bufio_Write buf (walWriter w1) (walFile w1) of
             (False, b, f) \<Rightarrow> (Some WalWriteFrame, w1\<lparr>walWriter := b, walFile := f\<rparr>)
           | (True, b, f) \<Rightarrow>
               let w2 = w1\<lparr>walWriter := b, walFile := f,
                          bytesWritten := bytesWritten w1 + length buf\<rparr>
               in if optSyncPolicy (walOptions w2) = SyncAlways
                  then case bufio_Flush (walWriter w2) (walFile w2) of
                         (False, b', f') \<Rightarrow> (Some WalFlush, w2\<lparr>walWriter := b', walFile := f'\<rparr>)
                       | (True, b', f') \<Rightarrow>
                           (case file_Sync f' of
                              (ok, f'') \<Rightarrow> (if ok then None else Some WalSync,
                                          w2\<lparr>walWriter := b', walFile := f''\<rparr>))
                  else (None, w2))"

definition WAL_Sync :: "WAL \<Rightarrow> wal_error option \<times> WAL" where
  "WAL_Sync w =
     (if walClosed w then (None, w)
      else case bufio_Flush (walWriter w) (walFile w) of
        (False, b, f) \<Rightarrow> (Some WalFlush, w\<lparr>walWriter := b, walFile := f\<rparr>)
      | (True, b, f) \<Rightarrow>
          (case file_Sync f of
             (ok, f') \<Rightarrow> (if ok then None else Some WalSync,
                        w\<lparr>walWriter := b, walFile := f'\<rparr>)))"

text \<open>The ticker of \<open>periodicSyncer\<close> ignores the result of \<open>Sync\<close>.\<close>

definition periodicSyncer_tick :: "WAL \<Rightarrow> WAL" where
  "periodicSyncer_tick w = snd (WAL_Sync w)"

text \<open>\<open>Close\<close> goes on after an error and returns the first one; \<open>close_ok\<close> is \<open>file.Close()\<close>.\<close>

definition WAL_Close :: "bool \<Rightarrow> WAL \<Rightarrow> wal_error option \<times> WAL" where
  "WAL_Close close_ok w =
     (if walClosed w then (None, w)
      else
        let w1 = w\<lparr>walClosed := True\<rparr>
        in case bufio_Flush (walWriter w1) (walFile w1) of
             (fok, b, f) \<Rightarrow>
               (case file_Sync f of
                  (sok, f') \<Rightarrow>
                    (if \<not> fok then Some WalFlush else if \<not> sok then Some WalSync
                     else if \<not> close_ok then Some WalClose else None,
                     w1\<lparr>walWriter := b, walFile := f'\<rparr>)))"

section \<open>Recovery\<close>

definition MaxRecordPayload :: nat where
  "MaxRecordPayload = 64 * 1024 * 1024"

record RecoveryReport =
  ValidRecords :: nat
  BytesRecovered :: nat
  CorruptionDetected :: bool
  CorruptionType :: string
  CorruptionOffset :: nat
  FileTruncated :: bool

definition empty_report :: RecoveryReport where
  "empty_report =
     \<lparr>ValidRecords = 0, BytesRecovered = 0, CorruptionDetected = False, CorruptionType = [],
      CorruptionOffset = 0, FileTruncated = False\<rparr>"

datatype 'e recover_error = OpenFailed | ReadFailed | HandlerFailed 'e | RecoverPanic

text \<open>The report when the loop ends by itself, cleanly or with a detected corruption.\<close>

definition clean_report :: "nat \<Rightarrow> nat \<Rightarrow> RecoveryReport" where
  "clean_report valid off = empty_report\<lparr>ValidRecords := valid, BytesRecovered := off\<rparr>"

definition corrupt_report :: "string \<Rightarrow> bool \<Rightarrow> nat \<Rightarrow> nat \<Rightarrow> RecoveryReport" where
  "corrupt_report ty truncated valid off =
     (clean_report valid off)\<lparr>CorruptionDetected := True, CorruptionType := ty,
       CorruptionOffset := off, FileTruncated := truncated\<rparr>"

type_synonym ('s, 'e) recovery =
  "RecoveryReport \<times> 'e recover_error option \<times> bytes \<times> 's"

text \<open>
  A corruption at \<open>off\<close> that \<open>Truncate\<close> is applied to (\<open>trunc_ok\<close>: the call succeeds), or
  that is left in the file.
\<close>

definition stop_truncate :: "bool \<Rightarrow> string \<Rightarrow> bytes \<Rightarrow> nat \<Rightarrow> nat \<Rightarrow> 's \<Rightarrow> ('s, 'e) recovery" where
  "stop_truncate trunc_ok ty file off valid s =
     (corrupt_report ty trunc_ok valid off, None, if trunc_ok then take off file else file, s)"

definition stop_keep :: "string \<Rightarrow> bytes \<Rightarrow> nat \<Rightarrow> nat \<Rightarrow> 's \<Rightarrow> ('s, 'e) recovery" where
  "stop_keep ty file off valid s = (corrupt_report ty False valid off, None, file, s)"

text \<open>
  The replay loop. \<open>rd off n\<close> says that reading \<open>n\<close> bytes at \<open>off\<close> meets no I/O error (the end
  of the file is not one); \<open>onEntry\<close> is the handler with the state it updates. A panic of the
  decoder is not an error the loop handles: it ends the recovery as \<open>RecoverPanic\<close>.
\<close>

function recover_loop ::
  "(nat \<Rightarrow> nat \<Rightarrow> bool) \<Rightarrow> bool \<Rightarrow> ('s \<Rightarrow> Entry \<Rightarrow> 'e + 's) \<Rightarrow> bytes \<Rightarrow> nat \<Rightarrow> nat \<Rightarrow> 's
     \<Rightarrow> ('s, 'e) recovery" where
  "recover_loop rd trunc_ok onEntry file off valid s =
     (let fileSize = length file; rest = drop off file
      in if \<not> rd off 8 then (empty_report, Some ReadFailed, file, s)
         else if rest = [] then (clean_report valid off, None, file, s)
         else if length rest < 8
         then stop_truncate trunc_ok ''truncated_tail'' file off valid s
         else
           let checksum = Uint32 (subslice rest 0 4);
               payloadLen = unat (Uint32 (subslice rest 4 8))
           in if payloadLen > MaxRecordPayload \<or> payloadLen > fileSize
              then if off + 8 \<ge> fileSize
                   then stop_truncate trunc_ok ''bad_length'' file off valid s
                   else stop_keep ''bad_length_middle'' file off valid s
              else if \<not> rd (off + 8) payloadLen then (empty_report, Some ReadFailed, file, s)
              else if length rest < 8 + payloadLen
              then stop_truncate trunc_ok ''truncated_tail'' file off valid s
              else
                let payload = subslice rest 8 (8 + payloadLen)
                in if ChecksumIEEE payload \<noteq> checksum
                   then if off + 8 + payloadLen \<ge> fileSize
                        then stop_truncate trunc_ok ''bad_crc_tail'' file off valid s
                        else stop_keep ''corrupt_middle'' file off valid s
                   else case DecodeEntry payload of
                          Inl DecodePanic \<Rightarrow> (empty_report, Some RecoverPanic, file, s)
                        | Inl _ \<Rightarrow>
                            if off + 8 + payloadLen \<ge> fileSize
                            then stop_truncate trunc_ok ''decode_error'' file off valid s
                            else stop_keep ''decode_error'' file off valid s
                        | Inr entry \<Rightarrow>
                            (case onEntry s entry of
                               Inl err \<Rightarrow> (empty_report, Some (HandlerFailed err), file, s)
                             | Inr s' \<Rightarrow>
                                 recover_loop rd trunc_ok onEntry file
                                   (off + 8 + payloadLen) (valid + 1) s'))"
  by pat_completeness auto
termination
  by (relation "measure (\<lambda>(rd, t, h, file, off, v, s). length file - off)") auto

declare recover_loop.simps [simp del]

text \<open>\<open>None\<close> for the file: it cannot be opened.\<close>

definition RecoverWithReport ::
  "(nat \<Rightarrow> nat \<Rightarrow> bool) \<Rightarrow> bool \<Rightarrow> ('s \<Rightarrow> Entry \<Rightarrow> 'e + 's) \<Rightarrow> bytes option \<Rightarrow> 's
     \<Rightarrow> RecoveryReport \<times> 'e recover_error option \<times> bytes option \<times> 's" where
  "RecoverWithReport rd trunc_ok onEntry file s =
     (case file of
        None \<Rightarrow> (empty_report, Some OpenFailed, None, s)
      | Some d \<Rightarrow>
          (case recover_loop rd trunc_ok onEntry d 0 0 s of
             (report, err, d', s') \<Rightarrow> (report, err, Some d', s')))"

definition Recover ::
  "(nat \<Rightarrow> nat \<Rightarrow> bool) \<Rightarrow> bool \<Rightarrow> ('s \<Rightarrow> Entry \<Rightarrow> 'e + 's) \<Rightarrow> bytes option \<Rightarrow> 's
     \<Rightarrow> nat \<times> 'e recover_error option \<times> bytes option \<times> 's" where
  "Recover rd trunc_ok onEntry file s =
     (case RecoverWithReport rd trunc_ok onEntry file s of
        (report, err, file', s') \<Rightarrow> (ValidRecords report, err, file', s'))"

section \<open>The frames of a log\<close>

definition frames :: "Entry list \<Rightarrow> bytes" where
  "frames es = concat (map frame_layout es)"

text \<open>An entry the recovery can read back: the header fields hold its sizes, its payload is allowed.\<close>

definition loggable :: "Entry \<Rightarrow> bool" where
  "loggable e \<longleftrightarrow> encodable e \<and> EncodedSize e \<le> MaxRecordPayload"

lemma frames_simps [simp]:
  "frames [] = []" "frames (e # es) = frame_layout e @ frames es"
  "frames (es @ fs) = frames es @ frames fs"
  by (simp_all add: frames_def)

lemma loggable_size:
  "loggable e \<Longrightarrow> unat (word_of_nat (EncodedSize e) :: uint32) = EncodedSize e"
  by (rule unat_of_nat32) (simp add: loggable_def MaxRecordPayload_def)

text \<open>The three parts of a frame at the head of the unread bytes.\<close>

lemma frame_parts:
  "Uint32 (subslice (frame_layout e @ z) 0 4) = ChecksumIEEE (entry_layout e)"
  "Uint32 (subslice (frame_layout e @ z) 4 8) = word_of_nat (EncodedSize e)"
  "subslice (frame_layout e @ z) 8 (8 + EncodedSize e) = entry_layout e"
proof -
  show "subslice (frame_layout e @ z) 8 (8 + EncodedSize e) = entry_layout e"
    using subslice_second [of "PutUint32 (ChecksumIEEE (entry_layout e)) @
      PutUint32 (word_of_nat (EncodedSize e))" 8 "entry_layout e" "8 + EncodedSize e" z]
    by (simp add: frame_layout_def)
qed (simp_all add: frame_layout_def)

text \<open>A handler that never fails is replayed by a fold.\<close>

definition total_handler :: "('s \<Rightarrow> Entry \<Rightarrow> 's) \<Rightarrow> 's \<Rightarrow> Entry \<Rightarrow> 'e + 's" where
  "total_handler h s e = Inr (h s e)"

definition no_read_error :: "nat \<Rightarrow> nat \<Rightarrow> bool" where
  "no_read_error off n = True"

abbreviation replay_loop ::
  "bool \<Rightarrow> ('s \<Rightarrow> Entry \<Rightarrow> 's) \<Rightarrow> bytes \<Rightarrow> nat \<Rightarrow> nat \<Rightarrow> 's \<Rightarrow> ('s, unit) recovery" where
  "replay_loop t h \<equiv> recover_loop no_read_error t (total_handler h)"

text \<open>One intact frame advances the loop by the frame.\<close>

lemma loop_frame:
  assumes hd: "drop off file = frame_layout e @ z" and e: "loggable e"
  shows "replay_loop t h file off v s =
         replay_loop t h file (off + 8 + EncodedSize e) (Suc v) (h s (nil_empty e))"
proof -
  have len: "length (drop off file) = 8 + EncodedSize e + length z"
    using arg_cong [OF hd, of length] by simp
  have dec: "DecodeEntry (entry_layout e) = Inr (nil_empty e)"
    using decode_encode_append [of e "[]"] e by (simp add: loggable_def)
  have "\<not> (EncodedSize e > MaxRecordPayload \<or> EncodedSize e > length file)"
    using len e by (auto simp: loggable_def)
  moreover have "drop off file \<noteq> []" "\<not> length (drop off file) < 8"
    "\<not> length (drop off file) < 8 + EncodedSize e"
    using len by auto
  ultimately show ?thesis
    using loggable_size [OF e] dec
    by (subst recover_loop.simps)
      (simp only: Let_def hd frame_parts no_read_error_def total_handler_def sum.case
        if_True if_False not_True_eq_False Suc_eq_plus1 simp_thms)
qed

lemma loop_frames:
  assumes "file = pre @ frames es @ z" "\<forall>e\<in>set es. loggable e"
  shows "replay_loop t h file (length pre) v s =
         replay_loop t h file (length pre + length (frames es)) (v + length es)
           (foldl h s (map nil_empty es))"
  using assms
proof (induction es arbitrary: pre v s)
  case (Cons e es)
  have "replay_loop t h file (length pre) v s =
        replay_loop t h file (length (pre @ frame_layout e)) (Suc v) (h s (nil_empty e))"
    using Cons.prems by (subst loop_frame [where e = e and z = "frames es @ z"]) (auto simp: add.assoc)
  also have "\<dots> = replay_loop t h file (length (pre @ frame_layout e) + length (frames es))
        (Suc v + length es) (foldl h (h s (nil_empty e)) (map nil_empty es))"
    by (rule Cons.IH) (use Cons.prems in auto)
  finally show ?case by (simp add: add.assoc)
qed simp

text \<open>What stops the loop, by the bytes that are left.\<close>

lemma loop_end: "drop off file = [] \<Longrightarrow>
    replay_loop t h file off v s = (clean_report v off, None, file, s)"
  by (subst recover_loop.simps) (simp add: no_read_error_def)

lemma loop_short_header:
  assumes "off < length file" "length file < off + 8"
  shows "replay_loop t h file off v s = stop_truncate t ''truncated_tail'' file off v s"
proof -
  have "drop off file \<noteq> []" "length (drop off file) < 8" using assms by auto
  then show ?thesis
    by (subst recover_loop.simps) (simp only: Let_def no_read_error_def simp_thms if_True if_False)
qed

lemma not_short: "off + 8 \<le> length file \<Longrightarrow> \<not> length file - off < 8"
  by simp

lemma loop_bad_length:
  assumes header: "off + 8 \<le> length file"
    and n: "unat (Uint32 (subslice (drop off file) 4 8)) = n"
    and "n > MaxRecordPayload \<or> n > length file"
  shows "replay_loop t h file off v s =
    (if off + 8 \<ge> length file then stop_truncate t ''bad_length'' file off v s
     else stop_keep ''bad_length_middle'' file off v s)"
  using assms not_short [OF header]
  by (subst recover_loop.simps) (simp only: Let_def n no_read_error_def, simp)

lemma loop_short_payload:
  assumes header: "off + 8 \<le> length file"
    and n: "unat (Uint32 (subslice (drop off file) 4 8)) = n"
    and "n \<le> MaxRecordPayload" "n \<le> length file" "length file < off + 8 + n"
  shows "replay_loop t h file off v s = stop_truncate t ''truncated_tail'' file off v s"
proof -
  have "\<not> (n > MaxRecordPayload \<or> n > length file)" "drop off file \<noteq> []"
    "\<not> length (drop off file) < 8" "length (drop off file) < 8 + n"
    using assms by auto
  then show ?thesis
    by (subst recover_loop.simps)
      (simp only: Let_def n no_read_error_def simp_thms if_True if_False)
qed

lemma loop_bad_crc:
  assumes header: "off + 8 \<le> length file"
    and n: "unat (Uint32 (subslice (drop off file) 4 8)) = n"
    and "off + 8 + n \<le> length file" "n \<le> MaxRecordPayload"
    and "ChecksumIEEE (subslice (drop off file) 8 (8 + n)) \<noteq> Uint32 (subslice (drop off file) 0 4)"
  shows "replay_loop t h file off v s =
    (if off + 8 + n \<ge> length file then stop_truncate t ''bad_crc_tail'' file off v s
     else stop_keep ''corrupt_middle'' file off v s)"
proof -
  have "\<not> length (drop off file) < 8 + n" using assms by simp
  with assms not_short [OF header] show ?thesis
    by (subst recover_loop.simps) (simp only: Let_def n no_read_error_def, simp)
qed

end
