(* ===== verification/SkipList.thy ===== *)
theory SkipList
  imports Iterator
begin

text \<open>
  \<open>pkg/memtable/skiplist.go\<close> and \<open>memtable.go\<close>: the skip list of the memtable as a store of nodes
  linked by addresses (the head is address 0), its search and insertion, the snapshot iterator
  with its binary search, and the memtable around it. A nil dereference, an index out of range
  and a walk that does not end are \<open>None\<close>. The coin flips of the random heights are a stream held
  in the state.
\<close>

section \<open>Nodes\<close>

definition maxHeight :: nat where "maxHeight = 20"

record node =
  nEntry :: "Entry option"
  nNext :: "nat option list"

definition newNode :: "Entry option \<Rightarrow> nat \<Rightarrow> node" where
  "newNode entry height = \<lparr>nEntry = entry, nNext = replicate height None\<rparr>"

text \<open>\<open>curr.next[i]\<close> and \<open>curr.entry.Key\<close>.\<close>

definition node_next :: "node list \<Rightarrow> nat \<Rightarrow> nat \<Rightarrow> nat option option" where
  "node_next mem a i =
     (if a < length mem \<and> i < length (nNext (mem ! a)) then Some (nNext (mem ! a) ! i) else None)"

definition node_key :: "node list \<Rightarrow> nat \<Rightarrow> bytes option" where
  "node_key mem a = (if a < length mem then map_option Key (nEntry (mem ! a)) else None)"

definition set_next :: "node list \<Rightarrow> nat \<Rightarrow> nat \<Rightarrow> nat option \<Rightarrow> node list" where
  "set_next mem a i x = mem[a := (mem ! a)\<lparr>nNext := (nNext (mem ! a))[i := x]\<rparr>]"

section \<open>The skip list\<close>

record SkipList =
  slNodes :: "node list"
  slHeight :: nat
  slLength :: int
  slBytes :: int
  slRnd :: "nat \<Rightarrow> bool"

definition NewSkipList :: "(nat \<Rightarrow> bool) \<Rightarrow> SkipList" where
  "NewSkipList rnd =
     \<lparr>slNodes = [newNode None maxHeight], slHeight = 1, slLength = 0, slBytes = 0, slRnd = rnd\<rparr>"

text \<open>\<open>rnd 0\<close> is the next flip, \<open>s.rnd.Float64() < probability\<close>.\<close>

function random_height_loop :: "nat \<Rightarrow> (nat \<Rightarrow> bool) \<Rightarrow> nat \<times> (nat \<Rightarrow> bool)" where
  "random_height_loop h rnd =
     (if h < maxHeight
      then if rnd 0 then random_height_loop (h + 1) (\<lambda>n. rnd (Suc n)) else (h, \<lambda>n. rnd (Suc n))
      else (h, rnd))"
  by pat_completeness auto
termination by (relation "measure (\<lambda>(h, rnd). maxHeight - h)") auto

declare random_height_loop.simps [simp del]

definition randomHeight :: "SkipList \<Rightarrow> nat \<times> SkipList" where
  "randomHeight s = (case random_height_loop 1 (slRnd s) of (h, rnd) \<Rightarrow> (h, s\<lparr>slRnd := rnd\<rparr>))"

text \<open>The inner loop: forward on one level while the next key is less.\<close>

partial_function (option) forward_level :: "node list \<Rightarrow> nat \<Rightarrow> bytes \<Rightarrow> nat \<Rightarrow> nat option" where
  "forward_level mem i key cur =
     Option.bind (node_next mem cur i) (\<lambda>nxt.
       case nxt of None \<Rightarrow> Some cur
       | Some a \<Rightarrow> Option.bind (node_key mem a) (\<lambda>k.
           if bytes_compare k key < 0 then forward_level mem i key a else Some cur))"

text \<open>The loop over the levels, \<open>i\<close> from \<open>n - 1\<close> down to 0; \<open>Put\<close> also records the path.\<close>

primrec find_path ::
  "node list \<Rightarrow> bytes \<Rightarrow> nat \<Rightarrow> nat \<Rightarrow> nat option list \<Rightarrow> (nat \<times> nat option list) option" where
  "find_path mem key 0 cur upd = Some (cur, upd)"
| "find_path mem key (Suc i) cur upd =
     Option.bind (forward_level mem i key cur)
       (\<lambda>c. find_path mem key i c (upd[i := Some c]))"

primrec descend :: "node list \<Rightarrow> bytes \<Rightarrow> nat \<Rightarrow> nat \<Rightarrow> nat option" where
  "descend mem key 0 cur = Some cur"
| "descend mem key (Suc i) cur =
     Option.bind (forward_level mem i key cur) (\<lambda>c. descend mem key i c)"

text \<open>\<open>for i := s.height; i < h; i++ { update[i] = s.head }\<close>\<close>

definition raise_height :: "nat \<Rightarrow> nat \<Rightarrow> nat option list \<Rightarrow> nat option list" where
  "raise_height old h upd = fold (\<lambda>i u. u[i := Some 0]) [old..<h] upd"

text \<open>The splice of the new node \<open>n\<close> into the levels \<open>i\<close> of the list.\<close>

primrec splice_levels :: "nat \<Rightarrow> nat option list \<Rightarrow> nat list \<Rightarrow> node list \<Rightarrow> node list option" where
  "splice_levels n upd [] mem = Some mem"
| "splice_levels n upd (i # js) mem =
     Option.bind (upd ! i) (\<lambda>u.
     Option.bind (node_next mem u i) (\<lambda>x.
       splice_levels n upd js (set_next (set_next mem n i x) u i (Some n))))"

definition SkipList_Put :: "Entry \<Rightarrow> SkipList \<Rightarrow> SkipList option" where
  "SkipList_Put entry s =
     Option.bind (find_path (slNodes s) (Key entry) (slHeight s) 0 (replicate maxHeight None))
       (\<lambda>(cur, upd).
     Option.bind (node_next (slNodes s) cur 0) (\<lambda>candidate.
       let insert_new =
         (case randomHeight s of (h, s1) \<Rightarrow>
           let upd1 = (if h > slHeight s1 then raise_height (slHeight s1) h upd else upd);
               s2 = (if h > slHeight s1 then s1\<lparr>slHeight := h\<rparr> else s1);
               n = length (slNodes s2)
           in Option.bind (splice_levels n upd1 [0..<h] (slNodes s2 @ [newNode (Some entry) h]))
             (\<lambda>mem. Some (s2\<lparr>slNodes := mem, slLength := slLength s2 + 1,
                slBytes := slBytes s2 + (int (Size entry) + (32 + int h * 8))\<rparr>)))
       in case candidate of
            None \<Rightarrow> insert_new
          | Some c \<Rightarrow>
              Option.bind (nEntry (slNodes s ! c)) (\<lambda>old.
                if Key old = Key entry
                then Some (s\<lparr>slNodes := (slNodes s)[c := (slNodes s ! c)\<lparr>nEntry := Some entry\<rparr>],
                       slBytes := slBytes s + (int (Size entry) - int (Size old))\<rparr>)
                else insert_new)))"

text \<open>The outer option is the panic, the inner one the pair \<open>(entry, found)\<close>.\<close>

definition SkipList_Get :: "SkipList \<Rightarrow> bytes \<Rightarrow> Entry option option" where
  "SkipList_Get s key =
     Option.bind (descend (slNodes s) key (slHeight s) 0) (\<lambda>cur.
     Option.bind (node_next (slNodes s) cur 0) (\<lambda>candidate.
       case candidate of
         None \<Rightarrow> Some None
       | Some c \<Rightarrow>
           Option.bind (nEntry (slNodes s ! c)) (\<lambda>e.
             Some (if Key e = key then Some e else None))))"

definition SkipList_Length :: "SkipList \<Rightarrow> int" where "SkipList_Length s = slLength s"
definition SkipList_ByteSize :: "SkipList \<Rightarrow> int" where "SkipList_ByteSize s = slBytes s"

section \<open>The iterator\<close>

record SkipListIterator =
  siEntries :: "Entry list"
  siIdx :: int

text \<open>The snapshot: the loop along level 0. The head has no entry and is never passed.\<close>

partial_function (option) snapshot_level0 ::
  "node list \<Rightarrow> nat option \<Rightarrow> Entry list \<Rightarrow> Entry list option" where
  "snapshot_level0 mem cur acc =
     (case cur of None \<Rightarrow> Some acc
      | Some a \<Rightarrow>
          Option.bind (if a < length mem then nEntry (mem ! a) else None) (\<lambda>e.
          Option.bind (node_next mem a 0) (\<lambda>nxt. snapshot_level0 mem nxt (acc @ [e]))))"

definition SkipList_NewIterator :: "SkipList \<Rightarrow> SkipListIterator option" where
  "SkipList_NewIterator s =
     Option.bind (node_next (slNodes s) 0 0) (\<lambda>first.
     Option.bind (snapshot_level0 (slNodes s) first []) (\<lambda>es.
       Some \<lparr>siEntries = es, siIdx = 0\<rparr>))"

definition SkipIter_Valid :: "SkipListIterator \<Rightarrow> bool" where
  "SkipIter_Valid it \<longleftrightarrow> siIdx it \<ge> 0 \<and> siIdx it < int (length (siEntries it))"

definition SkipIter_Next :: "SkipListIterator \<Rightarrow> SkipListIterator" where
  "SkipIter_Next it = (if SkipIter_Valid it then it\<lparr>siIdx := siIdx it + 1\<rparr> else it)"

function seek_search :: "Entry list \<Rightarrow> bytes \<Rightarrow> int \<Rightarrow> int \<Rightarrow> int \<Rightarrow> int" where
  "seek_search es target low high ans =
     (if low \<le> high
      then let mid = (low + high) div 2
           in if bytes_compare (Key (es ! nat mid)) target \<ge> 0
              then seek_search es target low (mid - 1) mid
              else seek_search es target (mid + 1) high ans
      else ans)"
  by pat_completeness auto
termination by (relation "measure (\<lambda>(es, t, low, high, ans). nat (high - low + 1))") auto

declare seek_search.simps [simp del]

definition SkipIter_Seek :: "bytes \<Rightarrow> SkipListIterator \<Rightarrow> SkipListIterator" where
  "SkipIter_Seek target it =
     it\<lparr>siIdx := seek_search (siEntries it) target 0 (int (length (siEntries it)) - 1)
          (int (length (siEntries it)))\<rparr>"

definition SkipIter_Entry :: "SkipListIterator \<Rightarrow> Entry option" where
  "SkipIter_Entry it = (if \<not> SkipIter_Valid it then None else Some (siEntries it ! nat (siIdx it)))"

definition SkipIter_Key :: "SkipListIterator \<Rightarrow> bytes" where
  "SkipIter_Key it = (if \<not> SkipIter_Valid it then [] else Key (siEntries it ! nat (siIdx it)))"

definition SkipIter_Value :: "SkipListIterator \<Rightarrow> slice" where
  "SkipIter_Value it = (if \<not> SkipIter_Valid it then None else Value (siEntries it ! nat (siIdx it)))"

definition SkipIter_Close :: "SkipListIterator \<Rightarrow> bool \<times> SkipListIterator" where
  "SkipIter_Close it = (True, it\<lparr>siEntries := [], siIdx := -1\<rparr>)"

definition skip_iterator :: "SkipListIterator Iterator" where
  "skip_iterator = \<lparr>itValid = SkipIter_Valid, itNext = SkipIter_Next, itSeek = SkipIter_Seek,
     itKey = SkipIter_Key, itValue = SkipIter_Value, itEntry = SkipIter_Entry,
     itClose = SkipIter_Close\<rparr>"

section \<open>The memtable\<close>

record MemTable =
  mtId :: uint64
  mtList :: SkipList
  mtImmutable :: bool
  mtMaxBytes :: int

definition MemTable_New :: "(nat \<Rightarrow> bool) \<Rightarrow> uint64 \<Rightarrow> int \<Rightarrow> MemTable" where
  "MemTable_New rnd mid max_bytes =
     \<lparr>mtId = mid, mtList = NewSkipList rnd, mtImmutable = False,
      mtMaxBytes = (if max_bytes \<le> 0 then 4 * 1024 * 1024 else max_bytes)\<rparr>"

definition MemTable_Put :: "Entry \<Rightarrow> MemTable \<Rightarrow> MemTable option" where
  "MemTable_Put entry m = map_option (\<lambda>l. m\<lparr>mtList := l\<rparr>) (SkipList_Put entry (mtList m))"

definition MemTable_Get :: "MemTable \<Rightarrow> bytes \<Rightarrow> Entry option option" where
  "MemTable_Get m key = SkipList_Get (mtList m) key"

definition ShouldFlush :: "MemTable \<Rightarrow> bool" where
  "ShouldFlush m \<longleftrightarrow> SkipList_ByteSize (mtList m) \<ge> mtMaxBytes m"

definition MarkImmutable :: "MemTable \<Rightarrow> MemTable" where
  "MarkImmutable m = m\<lparr>mtImmutable := True\<rparr>"

definition IsImmutable :: "MemTable \<Rightarrow> bool" where "IsImmutable m = mtImmutable m"

definition MemTable_ByteSize :: "MemTable \<Rightarrow> int" where
  "MemTable_ByteSize m = SkipList_ByteSize (mtList m)"

definition EntryCount :: "MemTable \<Rightarrow> int" where "EntryCount m = SkipList_Length (mtList m)"

definition MemTable_NewIterator :: "MemTable \<Rightarrow> SkipListIterator option" where
  "MemTable_NewIterator m = SkipList_NewIterator (mtList m)"

end
