(* ===== verification/SkipListProps.thy ===== *)
theory SkipListProps
  imports SkipList MergerProps
begin

text \<open>
  The skip list refines a map: the store represents a strictly sorted list of entries, the search
  finds the lookup of that list and the insertion its update, without panics and with
  terminating walks. The snapshot iterator keeps the iterator contract.
\<close>

section \<open>The representation\<close>

definition hgt :: "node list \<Rightarrow> nat \<Rightarrow> nat" where "hgt mem a = length (nNext (mem ! a))"
definition node_entry :: "node list \<Rightarrow> nat \<Rightarrow> Entry" where "node_entry mem a = the (nEntry (mem ! a))"
definition link :: "node list \<Rightarrow> nat \<Rightarrow> nat \<Rightarrow> nat option" where "link mem i a = nNext (mem ! a) ! i"

fun linked :: "(nat \<Rightarrow> nat option) \<Rightarrow> nat list \<Rightarrow> bool" where
  "linked f [] \<longleftrightarrow> True"
| "linked f [a] \<longleftrightarrow> f a = None"
| "linked f (a # b # as) \<longleftrightarrow> f a = Some b \<and> linked f (b # as)"

text \<open>The nodes of level \<open>i\<close> are those whose height exceeds it, in the order of the list.\<close>

abbreviation level :: "node list \<Rightarrow> nat \<Rightarrow> nat list \<Rightarrow> nat list" where
  "level mem i xs \<equiv> filter (\<lambda>a. i < hgt mem a) xs"

definition sl_store :: "node list \<Rightarrow> nat \<Rightarrow> nat list \<Rightarrow> bool" where
  "sl_store mem h xs \<longleftrightarrow>
     distinct (0 # xs) \<and> set (0 # xs) = {..<length mem} \<and>
     hgt mem 0 = maxHeight \<and> 1 \<le> h \<and> h \<le> maxHeight \<and>
     (\<forall>a\<in>set xs. nEntry (mem ! a) \<noteq> None \<and> 1 \<le> hgt mem a \<and> hgt mem a \<le> h) \<and>
     sorted_wrt (<) (map (\<lambda>a. Key (node_entry mem a)) xs) \<and>
     (\<forall>i<maxHeight. linked (link mem i) (0 # level mem i xs))"

definition sl_inv :: "SkipList \<Rightarrow> Entry list \<Rightarrow> bool" where
  "sl_inv s es \<longleftrightarrow>
     (\<exists>xs. sl_store (slNodes s) (slHeight s) xs \<and> es = map (node_entry (slNodes s)) xs \<and>
        slLength s = int (length xs) \<and>
        slBytes s = (\<Sum>a\<leftarrow>xs. int (Size (node_entry (slNodes s) a)) + 32 + 8 * int (hgt (slNodes s) a)))"

lemma sl_storeD:
  assumes "sl_store mem h xs"
  shows "distinct (0 # xs)" "\<And>a. a = 0 \<or> a \<in> set xs \<Longrightarrow> a < length mem"
    "hgt mem 0 = maxHeight" "1 \<le> h" "h \<le> maxHeight"
    "\<And>a. a \<in> set xs \<Longrightarrow> nEntry (mem ! a) = Some (node_entry mem a)"
    "\<And>a. a \<in> set xs \<Longrightarrow> 1 \<le> hgt mem a \<and> hgt mem a \<le> h"
    "sorted_wrt (<) (map (\<lambda>a. Key (node_entry mem a)) xs)"
    "\<And>i. i < maxHeight \<Longrightarrow> linked (link mem i) (0 # level mem i xs)"
  using assms by (auto simp: sl_store_def node_entry_def)

lemma sl_inv_sorted: "sl_inv s es \<Longrightarrow> keys_sorted es"
  by (auto simp: sl_inv_def sl_store_def comp_def)

section \<open>Linked lists\<close>

lemma linked_suffix: "linked f (as @ b # bs) \<Longrightarrow> linked f (b # bs)"
proof (induction as)
  case (Cons a as)
  then show ?case by (cases as) auto
qed simp

lemma linked_head: "linked f (a # bs) \<Longrightarrow> f a = (case bs of [] \<Rightarrow> None | b # _ \<Rightarrow> Some b)"
  by (cases bs) auto

lemma linked_cong: "(\<And>a. a \<in> set as \<Longrightarrow> f a = g a) \<Longrightarrow> linked f as = linked g as"
  by (induction f as rule: linked.induct) auto

lemma linked_insert:
  assumes "linked f (as @ p # bs)" "distinct (as @ p # bs)" "n \<notin> set (as @ p # bs)"
    and "g p = Some n" "g n = f p" "\<And>a. a \<noteq> p \<Longrightarrow> a \<noteq> n \<Longrightarrow> g a = f a"
  shows "linked g (as @ p # n # bs)"
  using assms(1-3)
proof (induction as)
  case Nil
  have "linked g bs = linked f bs"
  proof (rule linked_cong)
    fix a assume "a \<in> set bs"
    then have "a \<noteq> p" "a \<noteq> n" using Nil by auto
    then show "g a = f a" by (rule assms(6))
  qed
  with Nil show ?case using assms(4,5) by (cases bs) auto
next
  case (Cons a as)
  then have "g a = f a" by (intro assms(6)) auto
  with Cons show ?case by (cases as) auto
qed

section \<open>The search\<close>

lemma forward_level_spec:
  assumes "linked (link mem i) (c # post)"
    and "\<And>a. a \<in> set (c # post) \<Longrightarrow> a < length mem \<and> i < hgt mem a"
    and "\<And>a. a \<in> set post \<Longrightarrow> nEntry (mem ! a) = Some (node_entry mem a)"
  shows "forward_level mem i k c =
    Some (last (c # takeWhile (\<lambda>a. Key (node_entry mem a) < k) post))"
  using assms
proof (induction post arbitrary: c)
  case Nil
  then show ?case
    by (subst forward_level.simps) (auto simp: node_next_def link_def hgt_def)
next
  case (Cons a post)
  have "node_next mem c i = Some (Some a)" "node_key mem a = Some (Key (node_entry mem a))"
    using Cons.prems by (auto simp: node_next_def node_key_def link_def hgt_def)
  moreover have "forward_level mem i k a =
      Some (last (a # takeWhile (\<lambda>a. Key (node_entry mem a) < k) post))"
    using Cons.prems by (intro Cons.IH) auto
  ultimately show ?case by (subst forward_level.simps) simp
qed

text \<open>\<open>pred\<close>: the last node of a level, the head included, whose key is less.\<close>

definition pred :: "node list \<Rightarrow> nat list \<Rightarrow> nat \<Rightarrow> nat" where
  "pred mem lows i = last (0 # level mem i lows)"

text \<open>The list splits into the nodes with a key less than \<open>k\<close> and the others.\<close>

lemma sl_split:
  assumes "sl_store mem h xs"
  obtains lows highs where "xs = lows @ highs"
    "\<And>a. a \<in> set lows \<Longrightarrow> Key (node_entry mem a) < k"
    "\<And>a. a \<in> set highs \<Longrightarrow> k \<le> Key (node_entry mem a)"
proof
  let ?P = "\<lambda>a. Key (node_entry mem a) < k"
  show "xs = takeWhile ?P xs @ dropWhile ?P xs" by simp
  show "Key (node_entry mem a) < k" if "a \<in> set (takeWhile ?P xs)" for a
    using set_takeWhileD [OF that] by simp
  show "k \<le> Key (node_entry mem a)" if a: "a \<in> set (dropWhile ?P xs)" for a
    using sl_storeD(8) [OF assms] a
  proof (induction xs)
    case (Cons x xs)
    then show ?case by (auto split: if_splits dest: order.strict_trans2)
  qed simp
qed

text \<open>One level: from a node of the lower part the walk stops at the predecessor on this level.\<close>

lemma forward_to_pred:
  assumes s: "sl_store mem h (lows @ highs)" and i: "i < maxHeight"
    and low: "\<And>a. a \<in> set lows \<Longrightarrow> Key (node_entry mem a) < k"
    and high: "\<And>a. a \<in> set highs \<Longrightarrow> k \<le> Key (node_entry mem a)"
    and c: "c \<in> set (0 # level mem i lows)"
  shows "forward_level mem i k c = Some (pred mem lows i)"
proof -
  obtain us vs where split: "0 # level mem i lows = us @ c # vs" using split_list [OF c] by auto
  have vs: "set vs \<subseteq> set lows"
  proof (cases us)
    case Nil
    then have "vs = level mem i lows" using split by simp
    then show ?thesis by auto
  next
    case (Cons u us')
    then have "level mem i lows = us' @ c # vs" using split by simp
    then have "set vs \<subseteq> set (level mem i lows)" by auto
    then show ?thesis by auto
  qed
  have "0 # level mem i (lows @ highs) = us @ c # vs @ level mem i highs"
    using arg_cong [OF split, of "\<lambda>as. as @ level mem i highs"] by simp
  then have "linked (link mem i) (us @ c # vs @ level mem i highs)"
    using sl_storeD(9) [OF s i] by (simp only:)
  then have lk: "linked (link mem i) (c # vs @ level mem i highs)" by (rule linked_suffix)
  have all: "a < length mem \<and> i < hgt mem a" if a: "a \<in> set (c # vs @ level mem i highs)" for a
  proof -
    have "set (c # vs) \<subseteq> set (0 # level mem i lows)" using split by (metis set_append Un_upper2)
    then have "a = 0 \<or> a \<in> set (level mem i (lows @ highs))" using a by auto
    then show ?thesis using sl_storeD(2) [OF s, of a] sl_storeD(3) [OF s] i by auto
  qed
  have entries: "nEntry (mem ! a) = Some (node_entry mem a)" if "a \<in> set (vs @ level mem i highs)" for a
    using that vs by (intro sl_storeD(6) [OF s]) auto
  have "takeWhile (\<lambda>a. Key (node_entry mem a) < k) (vs @ level mem i highs) = vs"
  proof -
    have "takeWhile (\<lambda>a. Key (node_entry mem a) < k) (level mem i highs) = []"
    proof (cases "level mem i highs")
      case (Cons a as)
      then have "a \<in> set (level mem i highs)" by (metis list.set_intros(1))
      then have "a \<in> set highs" by simp
      then show ?thesis using high [of a] Cons by simp
    qed simp
    moreover have "takeWhile (\<lambda>a. Key (node_entry mem a) < k) vs = vs"
      using vs low by (auto intro!: takeWhile_eq_all_conv [THEN iffD2])
    ultimately show ?thesis using vs low by (simp add: takeWhile_append2 subsetD)
  qed
  moreover have "last (c # vs) = pred mem lows i" unfolding pred_def split by simp
  ultimately show ?thesis
    using forward_level_spec [OF lk all entries, of k] by simp
qed

lemma pred_mem: "i \<le> j \<Longrightarrow> pred mem lows j \<in> set (0 # level mem i lows)"
  using last_in_set [of "0 # level mem j lows"] by (auto simp: pred_def split: if_splits)

lemma find_path_spec:
  assumes s: "sl_store mem h (lows @ highs)"
    and low: "\<And>a. a \<in> set lows \<Longrightarrow> Key (node_entry mem a) < k"
    and high: "\<And>a. a \<in> set highs \<Longrightarrow> k \<le> Key (node_entry mem a)"
    and n: "n \<le> maxHeight" and c: "c = 0 \<or> c = pred mem lows n"
  shows "\<exists>upd'. find_path mem k n c upd = Some (if n = 0 then c else pred mem lows 0, upd') \<and>
    length upd' = length upd \<and>
    (\<forall>i<length upd. upd' ! i = (if i < n then Some (pred mem lows i) else upd ! i))"
  using n c
proof (induction n arbitrary: c upd)
  case (Suc n)
  have "c \<in> set (0 # level mem n lows)" using Suc.prems(2) pred_mem [of n "Suc n" mem lows] by auto
  then have "forward_level mem n k c = Some (pred mem lows n)"
    using Suc.prems(1) by (intro forward_to_pred [OF s _ low high]) auto
  then show ?case
    using Suc.IH [of "pred mem lows n" "upd[n := Some (pred mem lows n)]"] Suc.prems(1)
    by (auto simp: nth_list_update less_Suc_eq)
qed simp

lemma descend_find_path: "descend mem k n c = map_option fst (find_path mem k n c upd)"
proof (induction n arbitrary: c upd)
  case (Suc n)
  then show ?case by (cases "forward_level mem n k c") simp_all
qed simp

text \<open>Below the predecessor on level 0 lies the first node whose key is not less.\<close>

lemma candidate_spec:
  assumes s: "sl_store mem h (lows @ highs)"
  shows "node_next mem (pred mem lows 0) 0 =
    Some (case highs of [] \<Rightarrow> None | a # _ \<Rightarrow> Some a)"
proof -
  have pos: "level mem 0 as = as" if "set as \<subseteq> set (lows @ highs)" for as
    using sl_storeD(7) [OF s] that by (intro filter_True) (auto simp: Suc_le_eq)
  have "linked (link mem 0) (0 # lows @ highs)"
    using sl_storeD(9) [OF s, of 0] pos [of "lows @ highs"] by (simp add: maxHeight_def)
  moreover have "0 # lows = butlast (0 # lows) @ [last (0 # lows)]"
    by (rule append_butlast_last_id [symmetric]) simp
  ultimately have "linked (link mem 0) (butlast (0 # lows) @ last (0 # lows) # highs)"
    by (metis append.assoc append_Cons append_Nil)
  then have "linked (link mem 0) (pred mem lows 0 # highs)"
    using pos [of lows] by (simp add: pred_def linked_suffix del: butlast.simps)
  then have "link mem 0 (pred mem lows 0) = (case highs of [] \<Rightarrow> None | a # _ \<Rightarrow> Some a)"
    by (rule linked_head)
  moreover have "pred mem lows 0 = 0 \<or> pred mem lows 0 \<in> set (lows @ highs)"
    using pred_mem [of 0 0 mem lows] by auto
  then have "pred mem lows 0 < length mem" "0 < hgt mem (pred mem lows 0)"
    using sl_storeD(2,3,7) [OF s] by (auto simp: maxHeight_def Suc_le_eq)
  ultimately show ?thesis by (simp add: node_next_def link_def hgt_def)
qed

lemma pred_bounds:
  assumes "sl_store mem h (lows @ highs)" "i < maxHeight"
  shows "pred mem lows i < length mem" "i < hgt mem (pred mem lows i)"
proof -
  have "pred mem lows i = 0 \<or> pred mem lows i \<in> set (level mem i lows)"
    using pred_mem [of i i mem lows] by auto
  then show "pred mem lows i < length mem" "i < hgt mem (pred mem lows i)"
    using sl_storeD(2,3) [OF assms(1)] assms(2) by auto
qed

section \<open>Lookup\<close>

lemma find_in_split:
  assumes "\<And>a. a \<in> set lows \<Longrightarrow> Key (f a) < k" and "sorted_wrt (<) (map (\<lambda>a. Key (f a)) (lows @ highs))"
    and "\<And>a. a \<in> set highs \<Longrightarrow> k \<le> Key (f a)"
  shows "find (\<lambda>e. Key e = k) (map f (lows @ highs)) =
    (case highs of [] \<Rightarrow> None | a # _ \<Rightarrow> if Key (f a) = k then Some (f a) else None)"
proof -
  have low: "find (\<lambda>e. Key e = k) (map f lows) = None"
    using assms(1) by (auto simp: find_None_set)
  show ?thesis
  proof (cases highs)
    case Nil
    then show ?thesis using low by simp
  next
    case (Cons a as)
    have "find (\<lambda>e. Key e = k) (map f as) = None"
    proof -
      have "Key (f a) < Key (f b)" if "b \<in> set as" for b
        using assms(2) that by (simp add: Cons sorted_wrt_append)
      then show ?thesis using assms(3) [of a] by (force simp: find_None_set Cons)
    qed
    then show ?thesis using low by (simp add: Cons find_append)
  qed
qed

lemma Get_refines:
  assumes "sl_inv s es"
  shows "SkipList_Get s k = Some (find (\<lambda>e. Key e = k) es)"
proof -
  obtain xs where xs: "sl_store (slNodes s) (slHeight s) xs" "es = map (node_entry (slNodes s)) xs"
    using assms by (auto simp: sl_inv_def)
  obtain lows highs where split: "xs = lows @ highs"
    and low: "\<And>a. a \<in> set lows \<Longrightarrow> Key (node_entry (slNodes s) a) < k"
    and high: "\<And>a. a \<in> set highs \<Longrightarrow> k \<le> Key (node_entry (slNodes s) a)"
    using sl_split [OF xs(1), of k] by blast
  note st = xs(1) [unfolded split]
  have d: "descend (slNodes s) k (slHeight s) 0 = Some (pred (slNodes s) lows 0)"
    using find_path_spec [OF st low high sl_storeD(5) [OF st], of 0 "[]"] sl_storeD(4) [OF st]
    by (auto simp: descend_find_path [where upd = "[]"])
  show ?thesis
    using find_in_split [OF low sl_storeD(8) [OF st] high]
      sl_storeD(6) [OF st, of "hd highs"]
    by (cases highs) (auto simp: SkipList_Get_def d candidate_spec [OF st] xs(2) split)
qed

section \<open>Insertion\<close>

text \<open>The update of a sorted entry list.\<close>

definition put_entry :: "Entry \<Rightarrow> Entry list \<Rightarrow> Entry list" where
  "put_entry e es = filter (\<lambda>x. Key x < Key e) es @ e # filter (\<lambda>x. Key e < Key x) es"

lemma put_entry_find:
  "find (\<lambda>x. Key x = k) (put_entry e es) =
    (if k = Key e then Some e else find (\<lambda>x. Key x = k) es)"
  if "keys_sorted es"
proof -
  have low: "find (\<lambda>x. Key x = k) (filter (\<lambda>x. Key x < Key e) es) =
      (if k < Key e then find (\<lambda>x. Key x = k) es else None)"
    by (induction es) auto
  have high: "find (\<lambda>x. Key x = k) (filter (\<lambda>x. Key e < Key x) es) =
      (if Key e < k then find (\<lambda>x. Key x = k) es else None)"
    by (induction es) auto
  show ?thesis
    unfolding put_entry_def find_append low
    by (cases k "Key e" rule: linorder_cases) (auto simp: high split: option.splits)
qed

lemma put_entry_sorted: "keys_sorted es \<Longrightarrow> keys_sorted (put_entry e es)"
  by (auto simp: put_entry_def sorted_wrt_append sorted_wrt_map sorted_wrt_filter
      intro: order.strict_trans)

lemma random_height_range:
  "1 \<le> h \<Longrightarrow> h \<le> maxHeight \<Longrightarrow>
   1 \<le> fst (random_height_loop h rnd) \<and> fst (random_height_loop h rnd) \<le> maxHeight"
proof (induction h rnd rule: random_height_loop.induct)
  case (1 h rnd)
  then show ?case by (subst (1 2) random_height_loop.simps) auto
qed

text \<open>The splice, on the levels it has to treat.\<close>

lemma set_next_simps:
  assumes "u < length mem"
  shows "length (set_next mem u i x) = length mem"
    "nEntry (set_next mem u i x ! a) = nEntry (mem ! a)"
    "hgt (set_next mem u i x) a = hgt mem a"
    "i < hgt mem u \<Longrightarrow> link (set_next mem u i x) j a = (if a = u \<and> j = i then x else link mem j a)"
  using assms by (auto simp: set_next_def hgt_def link_def nth_list_update)

lemma splice_levels_spec:
  assumes "n < length mem" "distinct js"
    and "\<And>j. j \<in> set js \<Longrightarrow> j < hgt mem n \<and> upd ! j = Some (p j) \<and> p j < length mem \<and> j < hgt mem (p j) \<and> p j \<noteq> n"
  shows "\<exists>mem'. splice_levels n upd js mem = Some mem' \<and> length mem' = length mem \<and>
    (\<forall>a. nEntry (mem' ! a) = nEntry (mem ! a)) \<and> (\<forall>a. hgt mem' a = hgt mem a) \<and>
    (\<forall>j a. link mem' j a =
       (if j \<in> set js then if a = n then link mem j (p j) else if a = p j then Some n else link mem j a
        else link mem j a))"
  using assms
proof (induction js arbitrary: mem)
  case (Cons j js)
  have j: "j < hgt mem n" "upd ! j = Some (p j)" "p j < length mem" "j < hgt mem (p j)" "p j \<noteq> n"
    using Cons.prems(3) [of j] by auto
  define mem1 where "mem1 = set_next mem n j (link mem j (p j))"
  define mem2 where "mem2 = set_next mem1 (p j) j (Some n)"
  have m1: "length mem1 = length mem" "\<And>a. nEntry (mem1 ! a) = nEntry (mem ! a)"
    "\<And>a. hgt mem1 a = hgt mem a"
    "\<And>i a. link mem1 i a = (if a = n \<and> i = j then link mem j (p j) else link mem i a)"
    using Cons.prems(1) j(1) by (simp_all add: mem1_def set_next_simps)
  have m2: "length mem2 = length mem" "\<And>a. nEntry (mem2 ! a) = nEntry (mem ! a)"
    "\<And>a. hgt mem2 a = hgt mem a"
    "\<And>i a. link mem2 i a = (if a = p j \<and> i = j then Some n
        else if a = n \<and> i = j then link mem j (p j) else link mem i a)"
    using j(3,4) m1 by (simp_all add: mem2_def set_next_simps)
  have step: "splice_levels n upd (j # js) mem = splice_levels n upd js mem2"
    using j by (simp add: node_next_def mem2_def mem1_def link_def hgt_def)
  have "\<exists>mem'. splice_levels n upd js mem2 = Some mem' \<and> length mem' = length mem2 \<and>
    (\<forall>a. nEntry (mem' ! a) = nEntry (mem2 ! a)) \<and> (\<forall>a. hgt mem' a = hgt mem2 a) \<and>
    (\<forall>j a. link mem' j a =
       (if j \<in> set js then if a = n then link mem2 j (p j) else if a = p j then Some n else link mem2 j a
        else link mem2 j a))"
    by (rule Cons.IH) (use Cons.prems m2(1,3) in auto)
  then obtain mem' where mem': "splice_levels n upd js mem2 = Some mem'" "length mem' = length mem"
    "\<forall>a. nEntry (mem' ! a) = nEntry (mem ! a)" "\<forall>a. hgt mem' a = hgt mem a"
    "\<forall>j a. link mem' j a =
       (if j \<in> set js then if a = n then link mem2 j (p j) else if a = p j then Some n else link mem2 j a
        else link mem2 j a)"
    unfolding m2(1-3) by blast
  have "j \<notin> set js" using Cons.prems(2) by simp
  then have "\<forall>i a. link mem' i a =
       (if i \<in> set (j # js) then if a = n then link mem i (p i) else if a = p i then Some n else link mem i a
        else link mem i a)"
    using mem'(5) j(5) by (auto simp: m2(4))
  with mem' show ?case unfolding step by blast
qed simp

lemma raise_height_spec:
  "length (raise_height old h upd) = length upd \<and>
   (\<forall>i<length upd. raise_height old h upd ! i = (if old \<le> i \<and> i < h then Some 0 else upd ! i))"
proof (induction h)
  case (Suc h)
  then show ?case by (cases "old \<le> h") (auto simp: raise_height_def nth_list_update less_Suc_eq)
qed (simp add: raise_height_def)

lemma pred_above: "sl_store mem h (lows @ highs) \<Longrightarrow> h \<le> i \<Longrightarrow> pred mem lows i = 0"
proof -
  assume s: "sl_store mem h (lows @ highs)" and i: "h \<le> i"
  have "level mem i lows = []" using sl_storeD(7) [OF s] i by (fastforce simp: filter_empty_conv)
  then show ?thesis by (simp add: pred_def)
qed

text \<open>Replacing the entry of a node by one with the same key.\<close>

lemma replace_entry:
  assumes s: "sl_store mem h xs" and c: "c \<in> set xs" "Key (node_entry mem c) = Key e"
  defines "mem' \<equiv> mem[c := (mem ! c)\<lparr>nEntry := Some e\<rparr>]"
  shows "sl_store mem' h xs" "\<And>a. node_entry mem' a = (if a = c then e else node_entry mem a)"
    "\<And>a. hgt mem' a = hgt mem a"
proof -
  have cl: "c < length mem" using sl_storeD(2) [OF s] c by simp
  have en: "nEntry (mem' ! a) = (if a = c then Some e else nEntry (mem ! a))" for a
    using cl by (simp add: mem'_def nth_list_update)
  show ne: "node_entry mem' a = (if a = c then e else node_entry mem a)" for a
    by (simp add: node_entry_def en)
  have nx: "nNext (mem' ! a) = nNext (mem ! a)" for a
    using cl by (simp add: mem'_def nth_list_update)
  show hg: "hgt mem' a = hgt mem a" for a by (simp add: hgt_def nx)
  have keys: "(\<lambda>a. Key (node_entry mem' a)) = (\<lambda>a. Key (node_entry mem a))"
    using c(2) by (auto simp: ne)
  have "link mem' = link mem" by (auto simp: link_def nx fun_eq_iff)
  then show "sl_store mem' h xs"
    using s unfolding sl_store_def keys hg en by (simp add: mem'_def)
qed

text \<open>Splicing a new node between the two parts.\<close>

lemma splice_store:
  assumes s: "sl_store mem h (lows @ highs)" and hh: "1 \<le> h'" "h' \<le> maxHeight"
    and low: "\<And>a. a \<in> set lows \<Longrightarrow> Key (node_entry mem a) < Key e"
    and high: "\<And>a. a \<in> set highs \<Longrightarrow> Key e < Key (node_entry mem a)"
    and upd: "\<And>i. i < h' \<Longrightarrow> upd ! i = Some (pred mem lows i)"
  defines "n \<equiv> length mem"
  shows "\<exists>mem'. splice_levels n upd [0..<h'] (mem @ [newNode (Some e) h']) = Some mem' \<and>
    sl_store mem' (max h h') (lows @ n # highs) \<and>
    (\<forall>a. a < n \<longrightarrow> node_entry mem' a = node_entry mem a \<and> hgt mem' a = hgt mem a) \<and>
    node_entry mem' n = e \<and> hgt mem' n = h'"
proof -
  let ?mem = "mem @ [newNode (Some e) h']"
  have old: "nEntry (?mem ! a) = nEntry (mem ! a)" "hgt ?mem a = hgt mem a" "link ?mem j a = link mem j a"
    if "a < n" for a j
    using that by (simp_all add: n_def nth_append hgt_def link_def)
  have new: "nEntry (?mem ! n) = Some e" "hgt ?mem n = h'"
    by (simp_all add: n_def newNode_def hgt_def)
  have lt: "a < n" if "a = 0 \<or> a \<in> set lows \<or> a \<in> set highs" for a
    using sl_storeD(2) [OF s, of a] that by (auto simp: n_def)
  have pb: "pred mem lows j < n" "j < hgt mem (pred mem lows j)" if "j < h'" for j
    using pred_bounds [OF s, of j] that hh(2) by (auto simp: n_def)
  have "\<exists>mem'. splice_levels n upd [0..<h'] ?mem = Some mem' \<and> length mem' = length ?mem \<and>
    (\<forall>a. nEntry (mem' ! a) = nEntry (?mem ! a)) \<and> (\<forall>a. hgt mem' a = hgt ?mem a) \<and>
    (\<forall>j a. link mem' j a =
       (if j \<in> set [0..<h'] then if a = n then link ?mem j (pred mem lows j)
          else if a = pred mem lows j then Some n else link ?mem j a
        else link ?mem j a))"
  proof (rule splice_levels_spec)
    show "n < length ?mem" by (simp add: n_def)
    fix j assume "j \<in> set [0..<h']"
    then have j: "j < h'" by simp
    then show "j < hgt ?mem n \<and> upd ! j = Some (pred mem lows j) \<and> pred mem lows j < length ?mem \<and>
        j < hgt ?mem (pred mem lows j) \<and> pred mem lows j \<noteq> n"
      using pb [OF j] upd [OF j] old(2) [OF pb(1) [OF j]] new(2) by (simp add: n_def)
  qed simp
  then obtain mem' where m': "splice_levels n upd [0..<h'] ?mem = Some mem'" "length mem' = Suc n"
    "\<And>a. nEntry (mem' ! a) = nEntry (?mem ! a)" "\<And>a. hgt mem' a = hgt ?mem a"
    "\<And>j a. link mem' j a =
       (if j < h' then if a = n then link ?mem j (pred mem lows j)
          else if a = pred mem lows j then Some n else link ?mem j a
        else link ?mem j a)"
    by (auto simp: n_def)
  have en: "node_entry mem' a = node_entry mem a" "hgt mem' a = hgt mem a" if "a < n" for a
    using that by (simp_all add: node_entry_def m'(3,4) old)
  have nn: "node_entry mem' n = e" "hgt mem' n = h'" by (simp_all add: node_entry_def m'(3,4) new)
  have lev: "level mem' j lows = level mem j lows" "level mem' j highs = level mem j highs" for j
    by (intro filter_cong refl; simp add: en lt)+
  have notin: "n \<notin> set (0 # lows @ highs)" using lt by fastforce
  have linked': "linked (link mem' j) (0 # level mem' j (lows @ n # highs))" if j: "j < maxHeight" for j
  proof -
    have ln: "linked (link mem j) (0 # level mem j (lows @ highs))" by (rule sl_storeD(9) [OF s j])
    show ?thesis
    proof (cases "j < h'")
      case False
      then have "linked (link mem' j) (0 # level mem j (lows @ highs)) =
          linked (link mem j) (0 # level mem j (lows @ highs))"
        using lt by (intro linked_cong) (auto simp: m'(5) old)
      then show ?thesis using ln False by (simp add: lev nn)
    next
      case True
      let ?bl = "butlast (0 # level mem j lows)"
      have bl: "0 # level mem j lows = ?bl @ [pred mem lows j]"
        unfolding pred_def by (rule append_butlast_last_id [symmetric]) simp
      have eq: "0 # level mem j (lows @ highs) = ?bl @ pred mem lows j # level mem j highs"
        using arg_cong [OF bl, of "\<lambda>as. as @ level mem j highs"] by simp
      have eq': "0 # level mem' j (lows @ n # highs) = ?bl @ pred mem lows j # n # level mem j highs"
        using arg_cong [OF bl, of "\<lambda>as. as @ n # level mem j highs"] True by (simp add: lev nn)
      have d: "distinct (0 # level mem j (lows @ highs))" using sl_storeD(1) [OF s] by auto
      have n: "n \<notin> set (0 # level mem j (lows @ highs))" using notin by auto
      have upd_eq: "link mem' j (pred mem lows j) = Some n" "link mem' j n = link mem j (pred mem lows j)"
        using True pb(1) [OF True] by (simp_all add: m'(5) old)
      have other: "link mem' j a = link mem j a" if "a \<noteq> pred mem lows j" "a \<noteq> n" "a < n" for a
        using that by (simp add: m'(5) old)
      define g where "g = (\<lambda>a. if a \<le> n then link mem' j a else link mem j a)"
      have "linked g (?bl @ pred mem lows j # n # level mem j highs)"
        using ln d n unfolding eq
        by (rule linked_insert) (use upd_eq other pb(1) [OF True] in \<open>auto simp: g_def\<close>)
      moreover have "linked g (0 # level mem' j (lows @ n # highs)) =
          linked (link mem' j) (0 # level mem' j (lows @ n # highs))"
      proof (rule linked_cong)
        fix a assume "a \<in> set (0 # level mem' j (lows @ n # highs))"
        then have "a = n \<or> a < n" using lt [of a] by (auto split: if_splits)
        then show "g a = link mem' j a" by (auto simp: g_def)
      qed
      ultimately show ?thesis unfolding eq' by simp
    qed
  qed
  have "sl_store mem' (max h h') (lows @ n # highs)"
    unfolding sl_store_def
  proof (intro conjI)
    show "distinct (0 # lows @ n # highs)" using sl_storeD(1) [OF s] notin by auto
    have "set (0 # lows @ highs) = {..<n}" using s by (simp only: sl_store_def n_def)
    moreover have "set (0 # lows @ n # highs) = insert n (set (0 # lows @ highs))" by auto
    ultimately show "set (0 # lows @ n # highs) = {..<length mem'}" by (simp only: m'(2) lessThan_Suc)
    show "hgt mem' 0 = maxHeight" using en(2) [of 0] lt [of 0] sl_storeD(3) [OF s] by simp
    show "1 \<le> max h h'" "max h h' \<le> maxHeight" using sl_storeD(4,5) [OF s] hh by auto
    show "\<forall>a\<in>set (lows @ n # highs). nEntry (mem' ! a) \<noteq> None \<and> 1 \<le> hgt mem' a \<and> hgt mem' a \<le> max h h'"
      using sl_storeD(6,7) [OF s] lt hh
      by (auto simp: m'(3) old new en nn le_max_iff_disj)
    show "sorted_wrt (<) (map (\<lambda>a. Key (node_entry mem' a)) (lows @ n # highs))"
    proof -
      have eq: "map (\<lambda>a. Key (node_entry mem' a)) (lows @ n # highs) =
          map (\<lambda>a. Key (node_entry mem a)) lows @ Key e # map (\<lambda>a. Key (node_entry mem a)) highs"
        using lt by (simp add: en nn)
      show ?thesis
        unfolding eq using sl_storeD(8) [OF s] low high
        by (auto simp: sorted_wrt_append intro: order.strict_trans)
    qed
    show "\<forall>i<maxHeight. linked (link mem' i) (0 # level mem' i (lows @ n # highs))"
      using linked' by blast
  qed
  with m'(1) en nn show ?thesis by blast
qed

lemma filter_split:
  assumes "\<forall>a\<in>set lows. Key (f a) < k" "\<forall>a\<in>set highs. k < Key (f a)"
  shows "filter (\<lambda>x. Key x < k) (map f (lows @ mid @ highs)) =
      map f lows @ filter (\<lambda>x. Key x < k) (map f mid)"
    "filter (\<lambda>x. k < Key x) (map f (lows @ mid @ highs)) =
      filter (\<lambda>x. k < Key x) (map f mid) @ map f highs"
proof -
  have "filter (\<lambda>x. Key x < k) (map f lows) = map f lows"
    using assms(1) by (intro filter_True) auto
  moreover have "filter (\<lambda>x. k < Key x) (map f highs) = map f highs"
    using assms(2) by (intro filter_True) auto
  moreover have "filter (\<lambda>x. k < Key x) (map f lows) = []"
    using assms(1) by (intro filter_False) auto
  moreover have "filter (\<lambda>x. Key x < k) (map f highs) = []"
    using assms(2) by (intro filter_False) auto
  ultimately show "filter (\<lambda>x. Key x < k) (map f (lows @ mid @ highs)) =
      map f lows @ filter (\<lambda>x. Key x < k) (map f mid)"
    "filter (\<lambda>x. k < Key x) (map f (lows @ mid @ highs)) =
      filter (\<lambda>x. k < Key x) (map f mid) @ map f highs"
    by simp_all
qed

lemma Put_refines:
  assumes inv: "sl_inv s es"
  shows "\<exists>s'. SkipList_Put e s = Some s' \<and> sl_inv s' (put_entry e es)"
proof -
  let ?mem = "slNodes s" and ?h = "slHeight s" and ?k = "Key e"
  obtain xs where xs: "sl_store ?mem ?h xs" "es = map (node_entry ?mem) xs"
      "slLength s = int (length xs)"
      "slBytes s = (\<Sum>a\<leftarrow>xs. int (Size (node_entry ?mem a)) + 32 + 8 * int (hgt ?mem a))"
    using inv by (auto simp: sl_inv_def)
  obtain lows highs where split: "xs = lows @ highs"
    and low: "\<And>a. a \<in> set lows \<Longrightarrow> Key (node_entry ?mem a) < ?k"
    and high: "\<And>a. a \<in> set highs \<Longrightarrow> ?k \<le> Key (node_entry ?mem a)"
    using sl_split [OF xs(1), of ?k] by blast
  note st = xs(1) [unfolded split]
  obtain upd where upd: "find_path ?mem ?k ?h 0 (replicate maxHeight None) = Some (pred ?mem lows 0, upd)"
      "length upd = maxHeight"
      "\<And>i. i < maxHeight \<Longrightarrow> upd ! i = (if i < ?h then Some (pred ?mem lows i) else None)"
    using find_path_spec [OF st low high sl_storeD(5) [OF st], of 0 "replicate maxHeight None"]
      sl_storeD(4) [OF st] by auto
  note cand = candidate_spec [OF st]
  show ?thesis
  proof (cases "highs \<noteq> [] \<and> Key (node_entry ?mem (hd highs)) = ?k")
    case True
    then obtain c rest where highs: "highs = c # rest" and ck: "Key (node_entry ?mem c) = ?k"
      by (cases highs) auto
    let ?s = "s\<lparr>slNodes := ?mem[c := (?mem ! c)\<lparr>nEntry := Some e\<rparr>],
      slBytes := slBytes s + (int (Size e) - int (Size (node_entry ?mem c)))\<rparr>"
    have cs: "c \<in> set (lows @ highs)" by (simp add: highs)
    have put: "SkipList_Put e s = Some ?s"
      using cand sl_storeD(6) [OF st cs] ck by (simp add: SkipList_Put_def upd(1) highs Let_def)
    note r = replace_entry [OF st cs ck]
    have gt: "\<And>a. a \<in> set rest \<Longrightarrow> ?k < Key (node_entry ?mem a)"
      using sl_storeD(8) [OF st] ck by (simp add: highs sorted_wrt_append)
    have nc: "c \<notin> set lows" "c \<notin> set rest" using sl_storeD(1) [OF st] by (auto simp: highs)
    have ents: "map (node_entry (slNodes ?s)) (lows @ highs) =
        map (node_entry ?mem) lows @ e # map (node_entry ?mem) rest"
      using nc by (auto simp: r(2) highs)
    have fs: "filter (\<lambda>x. Key x < ?k) es = map (node_entry ?mem) lows"
      "filter (\<lambda>x. ?k < Key x) es = map (node_entry ?mem) rest"
      using filter_split [of lows "node_entry ?mem" ?k rest "[c]"] low gt ck
      by (simp_all add: xs(2) split highs)
    have "map (node_entry (slNodes ?s)) (lows @ highs) = put_entry e es"
      unfolding ents put_entry_def fs ..
    moreover have "slBytes ?s =
      (\<Sum>a\<leftarrow>lows @ highs. int (Size (node_entry (slNodes ?s) a)) + 32 + 8 * int (hgt (slNodes ?s) a))"
    proof -
      have "(\<Sum>a\<leftarrow>as. int (Size (node_entry (slNodes ?s) a)) + 32 + 8 * int (hgt (slNodes ?s) a)) =
          (\<Sum>a\<leftarrow>as. int (Size (node_entry ?mem a)) + 32 + 8 * int (hgt ?mem a))"
        if "c \<notin> set as" for as
        using that by (intro arg_cong [where f = sum_list] map_cong) (auto simp: r)
      from this [OF nc(1)] this [OF nc(2)] show ?thesis
        using xs(4) by (simp add: split highs r)
    qed
    ultimately have "sl_inv ?s (put_entry e es)"
      using r(1) xs(3) unfolding sl_inv_def split
      by (intro exI [of _ "lows @ highs"]) simp
    with put show ?thesis by blast
  next
    case False
    have gt: "\<And>a. a \<in> set highs \<Longrightarrow> ?k < Key (node_entry ?mem a)"
    proof -
      fix a assume a: "a \<in> set highs"
      then obtain c rest where highs: "highs = c # rest" by (cases highs) auto
      have "?k < Key (node_entry ?mem c)" using False high [of c] by (auto simp: highs order_less_le)
      moreover have "Key (node_entry ?mem c) \<le> Key (node_entry ?mem a)"
        using sl_storeD(8) [OF st] a by (auto simp: highs sorted_wrt_append less_imp_le)
      ultimately show "?k < Key (node_entry ?mem a)" by (rule order.strict_trans2)
    qed
    obtain h rnd where h: "random_height_loop 1 (slRnd s) = (h, rnd)" by fastforce
    have hr: "1 \<le> h" "h \<le> maxHeight"
      using random_height_range [of 1 "slRnd s"] unfolding h maxHeight_def by simp_all
    have rh: "randomHeight s = (h, s\<lparr>slRnd := rnd\<rparr>)" unfolding randomHeight_def h by simp
    define upd1 where "upd1 = (if h > ?h then raise_height ?h h upd else upd)"
    have upd1: "upd1 ! i = Some (pred ?mem lows i)" if "i < h" for i
      using that hr(2) upd(2) upd(3) [of i] raise_height_spec [of ?h h upd] pred_above [OF st, of i]
      by (auto simp: upd1_def)
    let ?n = "length ?mem"
    obtain mem' where mem': "splice_levels ?n upd1 [0..<h] (?mem @ [newNode (Some e) h]) = Some mem'"
      "sl_store mem' (max ?h h) (lows @ ?n # highs)"
      "\<And>a. a < ?n \<Longrightarrow> node_entry mem' a = node_entry ?mem a \<and> hgt mem' a = hgt ?mem a"
      "node_entry mem' ?n = e" "hgt mem' ?n = h"
      using splice_store [OF st hr low gt upd1] by blast
    let ?s = "s\<lparr>slNodes := mem', slHeight := max ?h h, slRnd := rnd, slLength := slLength s + 1,
      slBytes := slBytes s + (int (Size e) + (32 + int h * 8))\<rparr>"
    have put: "SkipList_Put e s = Some ?s"
    proof (cases highs)
      case Nil
      then show ?thesis using cand mem'(1)
        by (simp add: SkipList_Put_def upd(1) Let_def rh upd1_def max_def split: if_splits)
    next
      case (Cons c rest)
      then have "Key (node_entry ?mem c) \<noteq> ?k" using False by simp
      moreover have "nEntry (?mem ! c) = Some (node_entry ?mem c)"
        using sl_storeD(6) [OF st] Cons by simp
      ultimately show ?thesis using cand mem'(1) Cons
        by (simp add: SkipList_Put_def upd(1) Let_def rh upd1_def max_def split: if_splits)
    qed
    have lt: "a < ?n" if "a \<in> set lows \<or> a \<in> set highs" for a
      using sl_storeD(2) [OF st, of a] that by auto
    have same: "node_entry mem' a = node_entry ?mem a" "hgt mem' a = hgt ?mem a"
      if "a \<in> set lows \<or> a \<in> set highs" for a
      using mem'(3) lt [OF that] by auto
    have fs: "filter (\<lambda>x. Key x < ?k) es = map (node_entry ?mem) lows"
      "filter (\<lambda>x. ?k < Key x) es = map (node_entry ?mem) highs"
      using filter_split [of lows "node_entry ?mem" ?k highs "[]"] low gt
      by (simp_all add: xs(2) split)
    have "map (node_entry mem') (lows @ ?n # highs) = put_entry e es"
      unfolding put_entry_def fs by (simp add: mem'(4) same)
    moreover have "slBytes ?s =
      (\<Sum>a\<leftarrow>lows @ ?n # highs. int (Size (node_entry mem' a)) + 32 + 8 * int (hgt mem' a))"
      using xs(4) by (simp add: split mem'(4,5) same cong: map_cong)
    ultimately have "sl_inv ?s (put_entry e es)"
      using mem'(2) xs(3) unfolding sl_inv_def split
      by (intro exI [of _ "lows @ ?n # highs"]) simp
    with put show ?thesis by blast
  qed
qed

lemma sl_inv_New: "sl_inv (NewSkipList rnd) []"
  unfolding sl_inv_def sl_store_def NewSkipList_def
  by (intro exI [of _ "[]"]) (auto simp: newNode_def hgt_def maxHeight_def link_def)

section \<open>The snapshot and its iterator\<close>

lemma snapshot_level0_spec:
  assumes "linked (link mem 0) as" "\<And>a. a \<in> set as \<Longrightarrow> a < length mem \<and> 0 < hgt mem a \<and> nEntry (mem ! a) = Some (node_entry mem a)"
  shows "snapshot_level0 mem (case as of [] \<Rightarrow> None | a # _ \<Rightarrow> Some a) acc =
    Some (acc @ map (node_entry mem) as)"
  using assms
proof (induction as arbitrary: acc)
  case Nil
  then show ?case by (subst snapshot_level0.simps) simp
next
  case (Cons a as)
  have "node_next mem a 0 = Some (case as of [] \<Rightarrow> None | a # _ \<Rightarrow> Some a)"
    using linked_head [OF Cons.prems(1)] Cons.prems(2) [of a]
    by (simp add: node_next_def link_def hgt_def)
  moreover have "linked (link mem 0) as" using Cons.prems(1) by (cases as) auto
  ultimately show ?case
    using Cons.IH Cons.prems(2) by (subst snapshot_level0.simps) simp
qed

lemma NewIterator_spec:
  assumes "sl_inv s es"
  shows "SkipList_NewIterator s = Some \<lparr>siEntries = es, siIdx = 0\<rparr>"
proof -
  obtain xs where xs: "sl_store (slNodes s) (slHeight s) xs" "es = map (node_entry (slNodes s)) xs"
    using assms by (auto simp: sl_inv_def)
  have pos: "level (slNodes s) 0 xs = xs"
    using sl_storeD(7) [OF xs(1)] by (intro filter_True) (auto simp: Suc_le_eq)
  then have lk: "linked (link (slNodes s) 0) (0 # xs)"
    using sl_storeD(9) [OF xs(1), of 0] by (simp add: maxHeight_def)
  have "node_next (slNodes s) 0 0 = Some (case xs of [] \<Rightarrow> None | a # _ \<Rightarrow> Some a)"
    using linked_head [OF lk] sl_storeD(2) [OF xs(1), of 0] sl_storeD(3) [OF xs(1)]
    by (simp add: node_next_def link_def hgt_def maxHeight_def)
  moreover have "linked (link (slNodes s) 0) xs" using lk by (cases xs) auto
  then have "snapshot_level0 (slNodes s) (case xs of [] \<Rightarrow> None | a # _ \<Rightarrow> Some a) [] =
      Some ([] @ map (node_entry (slNodes s)) xs)"
    using sl_storeD(2,6,7) [OF xs(1)] by (intro snapshot_level0_spec) (auto simp: Suc_le_eq)
  ultimately show ?thesis by (simp add: SkipList_NewIterator_def xs(2))
qed

text \<open>The binary search: what lies before the window is less, what lies from \<open>ans\<close> on is not.\<close>

lemma seek_search_spec:
  assumes "keys_sorted es" "0 \<le> low" "high < int (length es)" "low \<le> high + 1" "ans = high + 1"
    and "\<And>j. j < nat low \<Longrightarrow> Key (es ! j) < k"
    and "\<And>j. nat (high + 1) \<le> j \<Longrightarrow> j < length es \<Longrightarrow> k \<le> Key (es ! j)"
  shows "\<exists>n\<le>length es. seek_search es k low high ans = int n \<and>
    (\<forall>j<n. Key (es ! j) < k) \<and> (\<forall>j. n \<le> j \<and> j < length es \<longrightarrow> k \<le> Key (es ! j))"
  using assms
proof (induction es k low high ans rule: seek_search.induct)
  case (1 es k low high ans)
  show ?case
  proof (cases "low \<le> high")
    case False
    then have lh: "low = high + 1" using 1(6) by linarith
    then have eq: "seek_search es k low high ans = int (nat low)" "nat (high + 1) = nat low"
      using 1(4,7) by (subst seek_search.simps, simp_all)
    show ?thesis using 1(4-9) False eq by (intro exI [of _ "nat low"]) auto
  next
    case True
    define mid where "mid = (low + high) div 2"
    have mid: "low \<le> mid" "mid \<le> high" "nat mid < length es" "0 \<le> mid"
      using True 1(4,5) by (auto simp: mid_def)
    have mono: "Key (es ! i) < Key (es ! j)" if "i < j" "j < length es" for i j
      using 1(3) that by (simp add: sorted_wrt_iff_nth_less)
    have unfold: "seek_search es k low high ans =
        (if k \<le> Key (es ! nat mid) then seek_search es k low (mid - 1) mid
         else seek_search es k (mid + 1) high ans)"
      using True by (subst seek_search.simps) (simp add: mid_def [symmetric] Let_def)
    show ?thesis
    proof (cases "k \<le> Key (es ! nat mid)")
      case ge: True
      have "k \<le> Key (es ! j)" if "nat (mid - 1 + 1) \<le> j" "j < length es" for j
        using ge mono [of "nat mid" j] that by (cases "j = nat mid") auto
      then show ?thesis
        unfolding unfold using 1(1) [OF True mid_def] ge 1(3-8) mid by simp
    next
      case lt: False
      have "Key (es ! j) < k" if "j < nat (mid + 1)" for j
      proof (cases "j = nat mid")
        case False
        then have "j < nat mid" using that mid by linarith
        then show ?thesis using lt mono [of j "nat mid"] mid by (auto simp: not_le intro: order.strict_trans)
      qed (use lt in simp)
      then show ?thesis
        unfolding unfold using 1(2) [OF True mid_def] lt 1(3-9) mid by simp
    qed
  qed
qed

definition skip_inv :: "SkipListIterator \<Rightarrow> bool" where
  "skip_inv it \<longleftrightarrow> keys_sorted (siEntries it) \<and> 0 \<le> siIdx it \<and> siIdx it \<le> int (length (siEntries it))"

definition skip_rest :: "SkipListIterator \<Rightarrow> Entry list" where
  "skip_rest it = drop (nat (siIdx it)) (siEntries it)"

lemma drop_eq_dropWhile:
  assumes "n \<le> length xs" "\<forall>j<n. P (xs ! j)" "n < length xs \<Longrightarrow> \<not> P (xs ! n)"
  shows "drop n xs = dropWhile P xs"
proof -
  have "dropWhile P (take n xs @ drop n xs) = dropWhile P (drop n xs)"
    using assms(1,2) by (intro dropWhile_append2) (auto simp: in_set_conv_nth)
  also have "dropWhile P (drop n xs) = drop n xs"
    using assms(1,3) by (cases "n < length xs") (auto simp: Cons_nth_drop_Suc [symmetric])
  finally show ?thesis by simp
qed

lemma SkipIter_Seek_spec:
  assumes "keys_sorted (siEntries it)"
  shows "skip_rest (SkipIter_Seek k it) = dropWhile (\<lambda>e. Key e < k) (siEntries it)"
    "skip_inv (SkipIter_Seek k it)" "siEntries (SkipIter_Seek k it) = siEntries it"
proof -
  let ?es = "siEntries it"
  obtain n where n: "n \<le> length ?es" "seek_search ?es k 0 (int (length ?es) - 1) (int (length ?es)) = int n"
    "\<forall>j<n. Key (?es ! j) < k" "\<forall>j. n \<le> j \<and> j < length ?es \<longrightarrow> k \<le> Key (?es ! j)"
    using seek_search_spec [of ?es 0 "int (length ?es) - 1" "int (length ?es)" k] assms by auto
  have "drop n ?es = dropWhile (\<lambda>e. Key e < k) ?es"
    by (rule drop_eq_dropWhile) (use n in \<open>auto simp: not_less\<close>)
  then show "skip_rest (SkipIter_Seek k it) = dropWhile (\<lambda>e. Key e < k) ?es"
    by (simp add: skip_rest_def SkipIter_Seek_def n(2))
  show "skip_inv (SkipIter_Seek k it)" "siEntries (SkipIter_Seek k it) = ?es"
    using assms n by (simp_all add: skip_inv_def SkipIter_Seek_def)
qed

lemma skip_rest_simps:
  assumes "skip_inv it"
  shows "SkipIter_Valid it \<longleftrightarrow> skip_rest it \<noteq> []"
    "skip_rest it \<noteq> [] \<Longrightarrow> hd (skip_rest it) = siEntries it ! nat (siIdx it)"
    "skip_rest (SkipIter_Next it) = tl (skip_rest it)"
    "skip_inv (SkipIter_Next it)" "siEntries (SkipIter_Next it) = siEntries it"
  using assms
  by (auto simp: SkipIter_Valid_def SkipIter_Next_def skip_rest_def skip_inv_def hd_drop_conv_nth
      nat_less_iff nat_add_distrib drop_Suc tl_drop not_less le_nat_iff zless_nat_conj)

interpretation skip: sorted_iterator skip_iterator skip_inv siEntries skip_rest
proof unfold_locales
  fix it k
  assume inv: "skip_inv it"
  then show "keys_sorted (siEntries it)" by (simp add: skip_inv_def)
  show "\<exists>n. skip_rest it = drop n (siEntries it)" by (auto simp: skip_rest_def)
  show "itValid skip_iterator it \<longleftrightarrow> skip_rest it \<noteq> []"
    using skip_rest_simps(1) [OF inv] by (simp add: skip_iterator_def)
  show "itEntry skip_iterator it = Some (hd (skip_rest it))"
    "itKey skip_iterator it = Key (hd (skip_rest it))" if "skip_rest it \<noteq> []"
    using skip_rest_simps(1,2) [OF inv] that
    by (simp_all add: skip_iterator_def SkipIter_Entry_def SkipIter_Key_def)
  show "skip_rest (itNext skip_iterator it) = tl (skip_rest it)"
    "skip_inv (itNext skip_iterator it) \<and> siEntries (itNext skip_iterator it) = siEntries it"
    using skip_rest_simps(3-5) [OF inv] by (simp_all add: skip_iterator_def)
  have "keys_sorted (siEntries it)" using inv by (simp add: skip_inv_def)
  then show "skip_rest (itSeek skip_iterator k it) = dropWhile (\<lambda>e. Key e < k) (siEntries it)"
    "skip_inv (itSeek skip_iterator k it) \<and> siEntries (itSeek skip_iterator k it) = siEntries it"
    using SkipIter_Seek_spec by (simp_all add: skip_iterator_def)
qed

section \<open>Sequences of insertions\<close>

text \<open>What a client of the skip list does: a sequence of \<open>Put\<close>s, and lookups at any time.\<close>

fun SkipList_Puts :: "Entry list \<Rightarrow> SkipList \<Rightarrow> SkipList option" where
  "SkipList_Puts [] s = Some s"
| "SkipList_Puts (e # es) s = Option.bind (SkipList_Put e s) (SkipList_Puts es)"

lemma Puts_refines:
  "sl_inv s es \<Longrightarrow> \<exists>s'. SkipList_Puts ops s = Some s' \<and> sl_inv s' (fold put_entry ops es)"
proof (induction ops arbitrary: s es)
  case (Cons e ops)
  obtain s' where "SkipList_Put e s = Some s'" "sl_inv s' (put_entry e es)"
    using Put_refines [OF Cons.prems] by blast
  then show ?case using Cons.IH by simp
qed simp

lemma fold_put_sorted: "keys_sorted es \<Longrightarrow> keys_sorted (fold put_entry ops es)"
  by (induction ops arbitrary: es) (simp_all add: put_entry_sorted)

lemma fold_put_find:
  "keys_sorted es \<Longrightarrow> find (\<lambda>x. Key x = k) (fold put_entry ops es) =
    (case find (\<lambda>x. Key x = k) (rev ops) of None \<Rightarrow> find (\<lambda>x. Key x = k) es | Some e \<Rightarrow> Some e)"
proof (induction ops arbitrary: es)
  case (Cons e ops)
  have "find (\<lambda>x. Key x = k) (fold put_entry ops (put_entry e es)) =
    (case find (\<lambda>x. Key x = k) (rev ops) of None \<Rightarrow> find (\<lambda>x. Key x = k) (put_entry e es) | Some e \<Rightarrow> Some e)"
    by (rule Cons.IH) (rule put_entry_sorted [OF Cons.prems])
  then show ?case
    by (simp add: find_append put_entry_find [OF Cons.prems] split: option.splits)
qed simp

lemma fold_put_mem: "e \<in> set (fold put_entry ops es) \<Longrightarrow> e \<in> set es \<or> e \<in> set ops"
  by (induction ops arbitrary: es) (force simp: put_entry_def)+

text \<open>
  C28. Map refinement. Whatever the coin flips and the order of the keys, a sequence of
  insertions into a new skip list never panics and its walks end, and a lookup afterwards gives
  the entry inserted last under the key, or nothing if the key was never inserted.
\<close>

theorem skiplist_is_map:
  "\<exists>s. SkipList_Puts ops (NewSkipList rnd) = Some s \<and>
    (\<forall>k. SkipList_Get s k = Some (find (\<lambda>e. Key e = k) (rev ops)))"
proof -
  obtain s where s: "SkipList_Puts ops (NewSkipList rnd) = Some s" "sl_inv s (fold put_entry ops [])"
    using Puts_refines [OF sl_inv_New] by blast
  then show ?thesis
    using Get_refines [OF s(2)] fold_put_find [of "[]" _ ops] by (auto split: option.splits)
qed

text \<open>
  C29. Ordered snapshot. The iterator of the memtable taken after any sequence of
  insertions ranges over strictly ascending keys, holds the entry inserted last under every key
  and nothing else, and \<open>Length\<close> is the number of its entries.
\<close>

theorem skiplist_snapshot_sorted:
  "\<exists>s it. SkipList_Puts ops (NewSkipList rnd) = Some s \<and> SkipList_NewIterator s = Some it \<and>
    keys_sorted (siEntries it) \<and> siIdx it = 0 \<and>
    (\<forall>k. find (\<lambda>e. Key e = k) (siEntries it) = find (\<lambda>e. Key e = k) (rev ops)) \<and>
    SkipList_Length s = int (length (siEntries it))"
proof -
  obtain s where s: "SkipList_Puts ops (NewSkipList rnd) = Some s" "sl_inv s (fold put_entry ops [])"
    using Puts_refines [OF sl_inv_New] by blast
  moreover have "SkipList_Length s = int (length (fold put_entry ops []))"
    using s(2) by (auto simp: sl_inv_def SkipList_Length_def)
  ultimately show ?thesis
    using NewIterator_spec [OF s(2)] fold_put_find [of "[]" _ ops] sl_inv_sorted [OF s(2)]
    by (auto split: option.splits)
qed

text \<open>
  Accounting. The byte count that decides when a memtable is flushed is exact up to
  the pointers: after any insertions it lies between 40 and 192 bytes above the size of each live
  entry; replaced entries are no longer counted.
\<close>

lemma skiplist_byte_size:
  "\<exists>s it. SkipList_Puts ops (NewSkipList rnd) = Some s \<and> SkipList_NewIterator s = Some it \<and>
    (\<Sum>e\<leftarrow>siEntries it. int (Size e) + 40) \<le> SkipList_ByteSize s \<and>
    SkipList_ByteSize s \<le> (\<Sum>e\<leftarrow>siEntries it. int (Size e) + 192)"
proof -
  obtain s where s: "SkipList_Puts ops (NewSkipList rnd) = Some s" "sl_inv s (fold put_entry ops [])"
    using Puts_refines [OF sl_inv_New] by blast
  then obtain xs where xs: "sl_store (slNodes s) (slHeight s) xs"
    "fold put_entry ops [] = map (node_entry (slNodes s)) xs"
    "slBytes s = (\<Sum>a\<leftarrow>xs. int (Size (node_entry (slNodes s) a)) + 32 + 8 * int (hgt (slNodes s) a))"
    by (auto simp: sl_inv_def)
  have "1 \<le> hgt (slNodes s) a \<and> hgt (slNodes s) a \<le> 20" if "a \<in> set xs" for a
    using sl_storeD(5,7) [OF xs(1)] that by (fastforce simp: maxHeight_def)
  then have "(\<Sum>a\<leftarrow>xs. int (Size (node_entry (slNodes s) a)) + 40) \<le> slBytes s"
    "slBytes s \<le> (\<Sum>a\<leftarrow>xs. int (Size (node_entry (slNodes s) a)) + 192)"
    unfolding xs(3) by (fastforce intro!: sum_list_mono)+
  then show ?thesis
    using s(1) NewIterator_spec [OF s(2)] by (auto simp: xs(2) SkipList_ByteSize_def comp_def)
qed

section \<open>Merging snapshots\<close>

definition snap_a :: SkipListIterator where
  "snap_a = \<lparr>siEntries = [\<lparr>Key = [1], Value = Some [10], Timestamp = 5, Type = OpPut\<rparr>,
     \<lparr>Key = [2], Value = None, Timestamp = 6, Type = OpDelete\<rparr>], siIdx = 0\<rparr>"

definition snap_b :: SkipListIterator where
  "snap_b = \<lparr>siEntries = [\<lparr>Key = [2], Value = Some [20], Timestamp = 9, Type = OpPut\<rparr>,
     \<lparr>Key = [3], Value = Some [30], Timestamp = 1, Type = OpPut\<rparr>], siIdx = 1\<rparr>"

lemma snap_inv: "skip_inv snap_a" "skip_inv snap_b"
  by (simp_all add: snap_a_def snap_b_def skip_inv_def)

theorem merge_yields_merged_view_witness:
  "\<exists>m. NewMergedIterator skip_iterator [Some snap_a, None, Some snap_b] True = Some m \<and>
    drain skip_iterator m [] = Some (merged_view True (runs_of skip_rest [Some snap_a, None, Some snap_b]))"
  by (rule merge_yields_merged_view [OF skip.sorted_iterator_axioms]) (auto simp: snap_inv)

theorem merge_seek_restarts_witness:
  "\<exists>m'. Merged_Seek skip_iterator [2]
      \<lparr>iters = [Some snap_a, Some snap_b], heap = [], current = None, currKeyBuf = [],
       dropTombstones = False, valid = False\<rparr> = Some m' \<and>
    drain skip_iterator m' [] = Some (filter (\<lambda>e. [2] \<le> Key e)
      (merged_view False (runs_of siEntries [Some snap_a, Some snap_b])))"
  using merge_seek_restarts [OF skip.sorted_iterator_axioms,
      of "\<lparr>iters = [Some snap_a, Some snap_b], heap = [], current = None, currKeyBuf = [],
       dropTombstones = False, valid = False\<rparr>" "[2]"]
  by (auto simp: snap_inv)

end
