(* ===== verification/Engine.thy ===== *)
theory Engine
  imports CompactorProps Wal SkipListProps
begin

text \<open>
  \<open>pkg/lsm/engine.go\<close>, \<open>entry.go\<close> and \<open>options.go\<close>: the storage engine. A method is a function on
  the engine's state that runs from one acquisition of the engine's lock to its release; where a
  method releases the lock in between (\<open>flushImmutable\<close>), its parts are functions of their own.
\<close>

section \<open>Options and environment\<close>

text \<open>\<open>ogBloomBits\<close> and \<open>ogBloomK\<close> stand for the filter sizes computed from \<open>BloomFp\<close>.\<close>

record Options =
  ogDir :: string
  ogMemTableSize :: int
  ogTargetTableSize :: int
  ogBlockSize :: int
  ogBloomBits :: "int \<Rightarrow> uint64"
  ogBloomK :: "uint64 \<Rightarrow> int \<Rightarrow> uint32"
  ogSyncPolicy :: SyncPolicy
  ogSyncInterval :: int
  ogL0CompactionTrigger :: int
  ogAutoCompaction :: bool

definition DefaultOptions ::
  "(int \<Rightarrow> uint64) \<Rightarrow> (uint64 \<Rightarrow> int \<Rightarrow> uint32) \<Rightarrow> string \<Rightarrow> Options" where
  "DefaultOptions bits k dir =
     \<lparr>ogDir = dir, ogMemTableSize = 4 * 1024 * 1024, ogTargetTableSize = 2 * 1024 * 1024,
      ogBlockSize = 4096, ogBloomBits = bits, ogBloomK = k, ogSyncPolicy = SyncAlways,
      ogSyncInterval = 50000000, ogL0CompactionTrigger = 4, ogAutoCompaction = True\<rparr>"

text \<open>
  What the environment decides during a method: the clock, the coin flips of a new memtable, the
  results of the system calls on a log (by log id) and on a table (by table id).
\<close>

record engine_env =
  evNow :: int64
  evRnd :: "uint64 \<Rightarrow> nat \<Rightarrow> bool"
  evWalOpen :: "uint64 \<Rightarrow> bool"
  evWalIO :: "uint64 \<Rightarrow> io_result list"
  evWalClose :: "nat \<Rightarrow> bool"
  evWalRead :: "uint64 \<Rightarrow> nat \<Rightarrow> nat \<Rightarrow> bool"
  evWalTruncate :: "uint64 \<Rightarrow> bool"
  evRemove :: "uint64 \<Rightarrow> bool"
  evTableIO :: "uint64 \<Rightarrow> builder_io \<Rightarrow> bool"
  evTableNow :: "uint64 \<Rightarrow> int64"

datatype engine_error =
    EmptyDir | MkdirFailed | EmptyKey | DatabaseClosed | Stalled | Panic | KeyNotFound
  | WalFailed wal_error | WalRecovery uint64 "unit recover_error" | ListFailed
  | GetFailed sst_error | BuildFailed sst_error | OpenTable sst_error | ManifestFailed
  | CompactionFailed compactor_error

section \<open>The state\<close>

text \<open>What is on disk and the readers on it; \<open>stCompactSignal\<close> is the element of \<open>compactChan\<close>.\<close>

record 'm Store =
  stOpts :: Options
  stManifest :: 'm
  stReaders :: readers
  stLevelTables :: "int \<Rightarrow> uint64 list"
  stBypassBloom :: bool
  stCompactSignal :: bool
  stFlushBytes :: int
  stTables :: disk
  stWals :: "uint64 \<Rightarrow> bytes option"

record 'm Engine = "'m Store" +
  egActiveWAL :: WAL
  egActiveMem :: MemTable
  egImmMem :: "MemTable option"
  egCompactor :: Compactor
  egFlushSignal :: bool
  egClosed :: bool
  egPuts :: int
  egDeletes :: int
  egGets :: int
  egBloomHits :: int
  egBloomMisses :: int
  egFlushes :: int
  egLogicalBytes :: int
  egWalBytes :: int

definition updateLevelTables :: "'m Manifest \<Rightarrow> ('m, 'z) Store_scheme \<Rightarrow> ('m, 'z) Store_scheme" where
  "updateLevelTables M st =
     st\<lparr>stLevelTables :=
       (\<lambda>lvl. if 0 \<le> lvl \<and> lvl < 7 then mfGetLevelTables M (stManifest st) lvl else [])\<rparr>"

definition Engine_SetBypassBloom :: "bool \<Rightarrow> ('m, 'z) Store_scheme \<Rightarrow> ('m, 'z) Store_scheme" where
  "Engine_SetBypassBloom bypass st =
     st\<lparr>stBypassBloom := bypass,
        stReaders := (\<lambda>tid. map_option (SetBypassBloom bypass) (stReaders st tid))\<rparr>"

definition triggerFlush :: "'m Engine \<Rightarrow> 'm Engine" where
  "triggerFlush e = e\<lparr>egFlushSignal := True\<rparr>"

definition triggerCompaction :: "('m, 'z) Store_scheme \<Rightarrow> ('m, 'z) Store_scheme" where
  "triggerCompaction st = st\<lparr>stCompactSignal := True\<rparr>"

section \<open>Logs and the rotation of the memtable\<close>

definition wal_options :: "Options \<Rightarrow> WalOptions" where
  "wal_options opts =
     \<lparr>optSyncPolicy = ogSyncPolicy opts, optSyncInterval = ogSyncInterval opts, optBufferSize = 0\<rparr>"

text \<open>\<open>wal.Open\<close> on the file of the directory; the file exists afterwards.\<close>

definition open_wal ::
  "engine_env \<Rightarrow> uint64 \<Rightarrow> ('m, 'z) Store_scheme \<Rightarrow> (wal_error + WAL) \<times> ('m, 'z) Store_scheme" where
  "open_wal E wid st =
     (let content = (case stWals st wid of None \<Rightarrow> [] | Some d \<Rightarrow> d)
      in case WAL_Open (evWalOpen E wid) (unat wid) (wal_options (stOpts st))
                \<lparr>fdata = content, fsynced = 0, fio = evWalIO E wid\<rparr> of
           Inl err \<Rightarrow> (Inl err, st)
         | Inr w \<Rightarrow> (Inr w, st\<lparr>stWals := (stWals st)(wid \<mapsto> content)\<rparr>))"

text \<open>The log's writes reach its file, as long as the file is still linked in the directory.\<close>

definition set_wal :: "WAL \<Rightarrow> 'm Engine \<Rightarrow> 'm Engine" where
  "set_wal w e =
     e\<lparr>egActiveWAL := w,
       stWals := (stWals e)(word_of_nat (walId w) :=
         map_option (\<lambda>_. fdata (walFile w)) (stWals e (word_of_nat (walId w))))\<rparr>"

definition rotateMemTable :: "'m Manifest \<Rightarrow> engine_env \<Rightarrow> 'm Engine \<Rightarrow> 'm Engine" where
  "rotateMemTable M E e =
     (let mem = MarkImmutable (egActiveMem e);
          e1 = (set_wal (snd (WAL_Close (evWalClose E (walId (egActiveWAL e))) (egActiveWAL e))) e)
                 \<lparr>egActiveMem := mem, egImmMem := Some mem\<rparr>
      in case mfNextID M (stManifest e1) of
           (nextID, m1) \<Rightarrow>
             (case open_wal E nextID (e1\<lparr>stManifest := m1\<rparr>) of
                (Inl err, e2) \<Rightarrow> e2
              | (Inr w, e2) \<Rightarrow>
                  e2\<lparr>egActiveWAL := w,
                     egActiveMem := MemTable_New (evRnd E nextID) nextID (ogMemTableSize (stOpts e))\<rparr>))"

section \<open>Writes\<close>

text \<open>The log first, then the memtable.\<close>

definition write_entry :: "Entry \<Rightarrow> 'm Engine \<Rightarrow> engine_error option \<times> 'm Engine" where
  "write_entry entry e =
     (case WAL_Write entry (egActiveWAL e) of
        (Some err, w) \<Rightarrow> (Some (WalFailed err), set_wal w e)
      | (None, w) \<Rightarrow>
          (case MemTable_Put entry (egActiveMem e) of
             None \<Rightarrow> (Some Panic, set_wal w e)
           | Some mem \<Rightarrow> (None, (set_wal w e)\<lparr>egActiveMem := mem\<rparr>)))"

text \<open>The end of \<open>Put\<close> and \<open>Delete\<close>: a full memtable is rotated unless one is being flushed.\<close>

definition flush_if_full :: "'m Manifest \<Rightarrow> engine_env \<Rightarrow> 'm Engine \<Rightarrow> 'm Engine" where
  "flush_if_full M E e =
     (let shouldFlush = ShouldFlush (egActiveMem e);
          e1 = (if shouldFlush \<and> egImmMem e = None then rotateMemTable M E e else e)
      in if shouldFlush then triggerFlush e1 else e1)"

text \<open>
  One look of \<open>Put\<close> and \<open>Delete\<close>: their loop waits while both memtables are full. \<open>Stalled\<close> is not an error
  of the code, it says that the call goes on waiting; \<open>Put_waiting\<close> and \<open>Delete_waiting\<close> in \<open>EngineLive\<close> are the
  calls with their loops.
\<close>

definition Put ::
  "'m Manifest \<Rightarrow> engine_env \<Rightarrow> bytes \<Rightarrow> slice \<Rightarrow> 'm Engine \<Rightarrow> engine_error option \<times> 'm Engine" where
  "Put M E key value e =
     (if length key = 0 then (Some EmptyKey, e)
      else if egClosed e then (Some DatabaseClosed, e)
      else if ShouldFlush (egActiveMem e) \<and> egImmMem e \<noteq> None then (Some Stalled, e)
      else
        case write_entry (NewPutEntry (evNow E) key value) e of
          (Some err, e1) \<Rightarrow> (Some err, e1)
        | (None, e1) \<Rightarrow>
            let entrySize = int (length key + length (contents value));
                e2 = e1\<lparr>egPuts := egPuts e1 + 1, egLogicalBytes := egLogicalBytes e1 + entrySize,
                       egWalBytes := egWalBytes e1 + (8 + 8 + 1 + 2 + 4 + entrySize)\<rparr>
            in (None, flush_if_full M E e2))"

definition Delete ::
  "'m Manifest \<Rightarrow> engine_env \<Rightarrow> bytes \<Rightarrow> 'm Engine \<Rightarrow> engine_error option \<times> 'm Engine" where
  "Delete M E key e =
     (if length key = 0 then (Some EmptyKey, e)
      else if egClosed e then (Some DatabaseClosed, e)
      else if ShouldFlush (egActiveMem e) \<and> egImmMem e \<noteq> None then (Some Stalled, e)
      else
        case write_entry (NewDeleteEntry (evNow E) key) e of
          (Some err, e1) \<Rightarrow> (Some err, e1)
        | (None, e1) \<Rightarrow>
            let entrySize = int (length key);
                e2 = e1\<lparr>egDeletes := egDeletes e1 + 1, egLogicalBytes := egLogicalBytes e1 + entrySize,
                       egWalBytes := egWalBytes e1 + (8 + 8 + 1 + 2 + 4 + entrySize)\<rparr>
            in (None, flush_if_full M E e2))"

section \<open>Reads\<close>

text \<open>The searches of the tables return the entry, if any, and the number of tables that missed.\<close>

fun get_l0 :: "readers \<Rightarrow> bytes \<Rightarrow> uint64 list \<Rightarrow> int \<Rightarrow> (sst_error + Entry option) \<times> int" where
  "get_l0 readers key [] misses = (Inr None, misses)"
| "get_l0 readers key (tid # tids) misses =
     (case readers tid of
        None \<Rightarrow> get_l0 readers key tids misses
      | Some r \<Rightarrow>
          (case Reader_Get r key of
             Inl err \<Rightarrow> (Inl err, misses)
           | Inr (Some entry) \<Rightarrow> (Inr (Some entry), misses)
           | Inr None \<Rightarrow> get_l0 readers key tids (misses + 1)))"

fun get_level :: "readers \<Rightarrow> bytes \<Rightarrow> uint64 list \<Rightarrow> int \<Rightarrow> (sst_error + Entry option) \<times> int" where
  "get_level readers key [] misses = (Inr None, misses)"
| "get_level readers key (tid # tids) misses =
     (case readers tid of
        None \<Rightarrow> get_level readers key tids misses
      | Some r \<Rightarrow>
          if bytes_compare key (mdMinKey (rdMeta r)) \<ge> 0 \<and> bytes_compare key (mdMaxKey (rdMeta r)) \<le> 0
          then (case Reader_Get r key of
                  Inl err \<Rightarrow> (Inl err, misses)
                | Inr (Some entry) \<Rightarrow> (Inr (Some entry), misses)
                | Inr None \<Rightarrow> (Inr None, misses + 1))
          else get_level readers key tids misses)"

fun get_levels ::
  "readers \<Rightarrow> bytes \<Rightarrow> (int \<Rightarrow> uint64 list) \<Rightarrow> int list \<Rightarrow> int \<Rightarrow> (sst_error + Entry option) \<times> int" where
  "get_levels readers key levels [] misses = (Inr None, misses)"
| "get_levels readers key levels (lvl # lvls) misses =
     (case get_level readers key (levels lvl) misses of
        (Inr None, misses1) \<Rightarrow> get_levels readers key levels lvls misses1
      | found \<Rightarrow> found)"

definition read_value :: "Entry \<Rightarrow> engine_error + slice" where
  "read_value entry = (if IsTombstone entry then Inl KeyNotFound else Inr (CloneBytes (Value entry)))"

definition get_tables :: "bytes \<Rightarrow> 'm Engine \<Rightarrow> (engine_error + slice) \<times> 'm Engine" where
  "get_tables key e =
     (case (case get_l0 (stReaders e) key (rev (stLevelTables e 0)) 0 of
              (Inr None, misses) \<Rightarrow> get_levels (stReaders e) key (stLevelTables e) [1..6] misses
            | found \<Rightarrow> found) of
        (res, misses) \<Rightarrow>
          (let e1 = e\<lparr>egBloomMisses := egBloomMisses e + misses\<rparr>
           in case res of
                Inl err \<Rightarrow> (Inl (GetFailed err), e1)
              | Inr None \<Rightarrow> (Inl KeyNotFound, e1)
              | Inr (Some entry) \<Rightarrow>
                  (read_value entry, e1\<lparr>egBloomHits := egBloomHits e1 + 1\<rparr>)))"

definition Get :: "bytes \<Rightarrow> 'm Engine \<Rightarrow> (engine_error + slice) \<times> 'm Engine" where
  "Get key e0 =
     (if length key = 0 then (Inl EmptyKey, e0)
      else
        let e = e0\<lparr>egGets := egGets e0 + 1\<rparr>
        in if egClosed e then (Inl DatabaseClosed, e)
           else case MemTable_Get (egActiveMem e) key of
             None \<Rightarrow> (Inl Panic, e)
           | Some (Some entry) \<Rightarrow> (read_value entry, e)
           | Some None \<Rightarrow>
               (case egImmMem e of
                  None \<Rightarrow> get_tables key e
                | Some imm \<Rightarrow>
                    (case MemTable_Get imm key of
                       None \<Rightarrow> (Inl Panic, e)
                     | Some (Some entry) \<Rightarrow> (read_value entry, e)
                     | Some None \<Rightarrow> get_tables key e)))"

end
