(* ===== verification/EngineOps.thy ===== *)
theory EngineOps
  imports Engine
begin

text \<open>
  \<open>pkg/lsm/engine.go\<close>, continued: range scans, the flush of a memtable to a level-0 table, the
  compaction step, opening with recovery, closing, and the statistics.
\<close>

section \<open>Scans\<close>

text \<open>The dynamic dispatch of the iterator interface on memtable and table iterators.\<close>

type_synonym engine_iter = "SkipListIterator + SSTableIterator"

definition any_iterator :: "engine_iter Iterator" where
  "any_iterator =
     \<lparr>itValid = case_sum (itValid skip_iterator) (itValid table_iterator),
      itNext = map_sum (itNext skip_iterator) (itNext table_iterator),
      itSeek = (\<lambda>k. map_sum (itSeek skip_iterator k) (itSeek table_iterator k)),
      itKey = case_sum (itKey skip_iterator) (itKey table_iterator),
      itValue = case_sum (itValue skip_iterator) (itValue table_iterator),
      itEntry = case_sum (itEntry skip_iterator) (itEntry table_iterator),
      itClose = case_sum (\<lambda>i. map_prod (\<lambda>b. b) Inl (itClose skip_iterator i))
        (\<lambda>i. map_prod (\<lambda>b. b) Inr (itClose table_iterator i))\<rparr>"

text \<open>The iterators of the tables that pass the filter and can be iterated.\<close>

definition table_iters :: "(SSTableReader \<Rightarrow> bool) \<Rightarrow> readers \<Rightarrow> uint64 list \<Rightarrow> engine_iter list" where
  "table_iters keep readers tids =
     concat (map (\<lambda>tid. case readers tid of
         None \<Rightarrow> []
       | Some r \<Rightarrow>
           if keep r then (case Reader_NewIterator r of Inl _ \<Rightarrow> [] | Inr it \<Rightarrow> [Inr it]) else []) tids)"

definition in_scan_range :: "bytes \<Rightarrow> bytes \<Rightarrow> SSTableReader \<Rightarrow> bool" where
  "in_scan_range startKey endKey r \<longleftrightarrow>
     \<not> (length endKey > 0 \<and> bytes_compare (mdMinKey (rdMeta r)) endKey > 0) \<and>
     \<not> (length startKey > 0 \<and> bytes_compare (mdMaxKey (rdMeta r)) startKey < 0)"

definition scan_iters :: "bytes \<Rightarrow> bytes \<Rightarrow> 'm Engine \<Rightarrow> engine_iter list option" where
  "scan_iters startKey endKey e =
     Option.bind (MemTable_NewIterator (egActiveMem e)) (\<lambda>active.
     Option.bind (case egImmMem e of None \<Rightarrow> Some []
                  | Some imm \<Rightarrow> map_option (\<lambda>it. [Inl it]) (MemTable_NewIterator imm)) (\<lambda>imm.
       Some ([Inl active] @ imm @
         table_iters (\<lambda>_. True) (stReaders e) (rev (stLevelTables e 0)) @
         concat (map (\<lambda>lvl. table_iters (in_scan_range startKey endKey) (stReaders e) (stLevelTables e lvl))
           [1..6]))))"

text \<open>The outer option is a panic or a loop that never ends.\<close>

definition Scan :: "bytes \<Rightarrow> bytes \<Rightarrow> 'm Engine \<Rightarrow> (engine_error + engine_iter MergedIterator) option" where
  "Scan startKey endKey e =
     (if egClosed e then Some (Inl DatabaseClosed)
      else
        Option.bind (scan_iters startKey endKey e) (\<lambda>its.
        Option.bind (NewMergedIterator any_iterator (map Some its) True) (\<lambda>merged.
          map_option Inr
            (if length startKey > 0 then Merged_Seek any_iterator startKey merged else Some merged))))"

section \<open>Flushing a memtable\<close>

text \<open>The loop over the memtable's iterator.\<close>

function flush_loop ::
  "(builder_io \<Rightarrow> bool) \<Rightarrow> SkipListIterator \<Rightarrow> SSTableBuilder \<Rightarrow> sst_error option \<times> SSTableBuilder" where
  "flush_loop io it b =
     (if \<not> SkipIter_Valid it then (None, b)
      else case SkipIter_Entry it of
        None \<Rightarrow> (Some BuilderPanic, b)
      | Some entry \<Rightarrow>
          (case Builder_Add io entry b of
             (Some err, b1) \<Rightarrow> (Some err, b1)
           | (None, b1) \<Rightarrow> flush_loop io (SkipIter_Next it) b1))"
  by pat_completeness auto
termination
  by (relation "measure (\<lambda>(io, it, b). nat (int (length (siEntries it)) - siIdx it))")
    (auto simp: SkipIter_Valid_def SkipIter_Next_def)

declare flush_loop.simps [simp del]

definition flush_opts :: "Options \<Rightarrow> uint64 \<Rightarrow> MemTable \<Rightarrow> BuilderOptions" where
  "flush_opts opts sstID mem =
     \<lparr>oID = sstID, oLevel = 0, oBlockSize = ogBlockSize opts, oEstKeys = EntryCount mem,
      oBloomBits = ogBloomBits opts, oBloomK = ogBloomK opts\<rparr>"

definition set_table :: "uint64 \<Rightarrow> TableFiles \<Rightarrow> ('m, 'z) Store_scheme \<Rightarrow> ('m, 'z) Store_scheme" where
  "set_table tid files st = st\<lparr>stTables := (stTables st)(tid := files)\<rparr>"

text \<open>Writing the table's files from the memtable.\<close>

definition build_table ::
  "engine_env \<Rightarrow> uint64 \<Rightarrow> MemTable \<Rightarrow> ('m, 'z) Store_scheme
     \<Rightarrow> (engine_error + Metadata) \<times> ('m, 'z) Store_scheme" where
  "build_table E sstID mem st =
     (case NewBuilder (evTableIO E sstID) (flush_opts (stOpts st) sstID mem) (stTables st sstID) of
        Inl err \<Rightarrow> (Inl (BuildFailed err), st)
      | Inr b \<Rightarrow>
          (case MemTable_NewIterator mem of
             None \<Rightarrow> (Inl Panic, set_table sstID (bFiles b) st)
           | Some it \<Rightarrow>
               (case flush_loop (evTableIO E sstID) it b of
                  (Some err, b1) \<Rightarrow> (Inl (BuildFailed err), set_table sstID (bFiles b1) st)
                | (None, b1) \<Rightarrow>
                    (case Finish (evTableIO E sstID) (evTableNow E sstID) b1 of
                       (Inl err, b2) \<Rightarrow> (Inl (BuildFailed err), set_table sstID (bFiles b2) st)
                     | (Inr meta, b2) \<Rightarrow>
                         (Inr meta, set_table sstID (bFiles b2)
                           (st\<lparr>stFlushBytes := stFlushBytes st + mdDataSize meta\<rparr>))))))"

text \<open>The new table becomes visible to readers.\<close>

definition install_table ::
  "'m Manifest \<Rightarrow> uint64 \<Rightarrow> SSTableReader \<Rightarrow> ('m, 'z) Store_scheme \<Rightarrow> ('m, 'z) Store_scheme" where
  "install_table M sstID reader st =
     (let r = (if stBypassBloom st then SetBypassBloom True reader else reader);
          st1 = updateLevelTables M (st\<lparr>stReaders := (stReaders st)(sstID \<mapsto> r)\<rparr>)
      in if ogAutoCompaction (stOpts st1) then triggerCompaction st1 else st1)"

definition flushMemTableDirect ::
  "'m Manifest \<Rightarrow> engine_env \<Rightarrow> MemTable \<Rightarrow> ('m, 'z) Store_scheme
     \<Rightarrow> engine_error option \<times> ('m, 'z) Store_scheme" where
  "flushMemTableDirect M E mem st0 =
     (if EntryCount mem = 0 then (None, st0)
      else
        case mfNextID M (stManifest st0) of
          (sstID, m1) \<Rightarrow>
            (case build_table E sstID mem (st0\<lparr>stManifest := m1\<rparr>) of
               (Inl err, st) \<Rightarrow> (Some err, st)
             | (Inr meta, st) \<Rightarrow>
                 (case OpenReader sstID (stTables st sstID) of
                    Inl err \<Rightarrow> (Some (OpenTable err), st)
                  | Inr reader \<Rightarrow>
                      (case mfLogAndApply M \<lparr>AddedTables = [\<lparr>tmID = sstID, tmLevel = 0\<rparr>],
                                DeletedTables = []\<rparr> (stManifest st) of
                         (False, m2) \<Rightarrow> (Some ManifestFailed, st\<lparr>stManifest := m2\<rparr>)
                       | (True, m2) \<Rightarrow>
                           (None, install_table M sstID reader (st\<lparr>stManifest := m2\<rparr>))))))"

definition remove_wal :: "engine_env \<Rightarrow> uint64 \<Rightarrow> ('m, 'z) Store_scheme \<Rightarrow> ('m, 'z) Store_scheme" where
  "remove_wal E wid st =
     (if evRemove E wid then st\<lparr>stWals := (stWals st)(wid := None)\<rparr> else st)"

text \<open>
  \<open>flushImmutable\<close> holds the engine's lock in its first and third part only: it reads \<open>immMem\<close>,
  writes the table, then drops \<open>immMem\<close> and rotates a full active memtable, and last removes the log.
\<close>

definition flush_commit :: "'m Manifest \<Rightarrow> engine_env \<Rightarrow> 'm Engine \<Rightarrow> bool \<times> 'm Engine" where
  "flush_commit M E e =
     (let e1 = e\<lparr>egImmMem := None\<rparr>
      in if ShouldFlush (egActiveMem e1) then (True, rotateMemTable M E e1) else (False, e1))"

definition flush_done :: "engine_env \<Rightarrow> MemTable \<Rightarrow> bool \<Rightarrow> 'm Engine \<Rightarrow> 'm Engine" where
  "flush_done E imm hasMoreToFlush e =
     (let e1 = (remove_wal E (mtId imm) e)\<lparr>egFlushes := egFlushes e + 1\<rparr>
      in if hasMoreToFlush then triggerFlush e1 else e1)"

definition flushImmutable ::
  "'m Manifest \<Rightarrow> engine_env \<Rightarrow> 'm Engine \<Rightarrow> engine_error option \<times> 'm Engine" where
  "flushImmutable M E e =
     (case egImmMem e of
        None \<Rightarrow> (None, e)
      | Some imm \<Rightarrow>
          (case flushMemTableDirect M E imm e of
             (Some err, e1) \<Rightarrow> (Some err, e1)
           | (None, e1) \<Rightarrow>
               (case flush_commit M E e1 of
                  (hasMore, e2) \<Rightarrow> (None, flush_done E imm hasMore e2))))"

text \<open>The explicit \<open>Flush\<close>: what an existing immutable memtable needs, then rotation and flush.\<close>

definition Flush :: "'m Manifest \<Rightarrow> engine_env \<Rightarrow> 'm Engine \<Rightarrow> engine_error option \<times> 'm Engine" where
  "Flush M E e =
     (if egClosed e then (Some DatabaseClosed, e)
      else if EntryCount (egActiveMem e) = 0 \<and> egImmMem e = None then (None, e)
      else
        case (if egImmMem e \<noteq> None then flushImmutable M E e else (None, e)) of
          (Some err, e1) \<Rightarrow> (Some err, e1)
        | (None, e1) \<Rightarrow> flushImmutable M E (rotateMemTable M E e1))"

section \<open>Compaction\<close>

fun open_readers :: "disk \<Rightarrow> uint64 list \<Rightarrow> readers \<Rightarrow> engine_error + readers" where
  "open_readers tables [] readers = Inr readers"
| "open_readers tables (tid # tids) readers =
     (case OpenReader tid (tables tid) of
        Inl err \<Rightarrow> Inl (OpenTable err)
      | Inr r \<Rightarrow> open_readers tables tids (readers(tid \<mapsto> r)))"

definition Engine_Compact ::
  "'f float_ops \<Rightarrow> 'm Manifest \<Rightarrow> compact_env \<Rightarrow> 'm Engine \<Rightarrow> (engine_error option \<times> 'm Engine) option" where
  "Engine_Compact F M C e =
     Option.bind (Compact F M C (stReaders e) (egCompactor e) (stManifest e) (stTables e))
       (\<lambda>(res, c, m, tables).
         let e1 = e\<lparr>egCompactor := c, stManifest := m, stTables := tables\<rparr>
         in case res of
              Inl err \<Rightarrow> Some (Some (CompactionFailed err), e1)
            | Inr (newTables, deletedTables) \<Rightarrow>
                if newTables = [] \<and> deletedTables = [] then Some (None, e1)
                else
                  (case open_readers tables newTables Map.empty of
                     Inl err \<Rightarrow> Some (Some err, e1)
                   | Inr newReaders \<Rightarrow>
                       (let bypassed = (if stBypassBloom e1
                              then (\<lambda>tid. map_option (SetBypassBloom True) (newReaders tid))
                              else newReaders);
                            readers = (\<lambda>tid. if tid \<in> set deletedTables then None
                              else (stReaders e1 ++ bypassed) tid)
                        in Some (None, updateLevelTables M
                             (e1\<lparr>stReaders := readers,
                                stTables := fold RemoveSSTableFiles deletedTables tables\<rparr>)))))"

section \<open>Opening and recovery\<close>

text \<open>The replay of a log into a memtable.\<close>

definition replay_entry :: "MemTable \<Rightarrow> Entry \<Rightarrow> unit + MemTable" where
  "replay_entry mem entry = (case MemTable_Put entry mem of None \<Rightarrow> Inl () | Some mem1 \<Rightarrow> Inr mem1)"

definition recover_wal ::
  "engine_env \<Rightarrow> uint64 \<Rightarrow> ('m, 'z) Store_scheme \<Rightarrow> (engine_error + MemTable) \<times> ('m, 'z) Store_scheme" where
  "recover_wal E wid st =
     (case Recover (evWalRead E wid) (evWalTruncate E wid) replay_entry (stWals st wid)
             (MemTable_New (evRnd E wid) wid (ogMemTableSize (stOpts st))) of
        (n, err, content, mem) \<Rightarrow>
          (let st1 = st\<lparr>stWals := (stWals st)(wid := content)\<rparr>
           in case err of
                Some e \<Rightarrow> (Inl (WalRecovery wid e), st1)
              | None \<Rightarrow> (Inr mem, st1)))"

text \<open>The logs in the order of the directory listing: all but the last one become tables.\<close>

fun recover_wals ::
  "'m Manifest \<Rightarrow> engine_env \<Rightarrow> uint64 list \<Rightarrow> ('m, 'z) Store_scheme
     \<Rightarrow> (engine_error + (WAL \<times> MemTable) option) \<times> ('m, 'z) Store_scheme" where
  "recover_wals M E [] st = (Inr None, st)"
| "recover_wals M E (wid # wids) st =
     (case recover_wal E wid st of
        (Inl err, st1) \<Rightarrow> (Inl err, st1)
      | (Inr mem, st1) \<Rightarrow>
          if wids = [] then
            (case open_wal E wid st1 of
               (Inl err, st2) \<Rightarrow> (Inl (WalFailed err), st2)
             | (Inr w, st2) \<Rightarrow> (Inr (Some (w, mem)), st2))
          else
            (case (if EntryCount mem > 0 then flushMemTableDirect M E mem st1 else (None, st1)) of
               (Some err, st2) \<Rightarrow> (Inl err, st2)
             | (None, st2) \<Rightarrow> recover_wals M E wids (remove_wal E wid st2)))"

text \<open>
  \<open>Open\<close> after the directory exists and the manifest is open; \<open>wids\<close> is the result of
  \<open>wal.ListWALFiles\<close>, \<open>None\<close> when listing failed.
\<close>

definition Open ::
  "'m Manifest \<Rightarrow> engine_env \<Rightarrow> Options \<Rightarrow> 'm \<Rightarrow> disk \<Rightarrow> (uint64 \<Rightarrow> bytes option) \<Rightarrow> uint64 list option
     \<Rightarrow> (engine_error + 'm Engine) \<times> 'm Store option" where
  "Open M E opts m tables wals wids =
     (if ogDir opts = [] then (Inl EmptyDir, None)
      else
        case open_readers tables (concat (map snd (mfGetAllLevels M m))) Map.empty of
          Inl err \<Rightarrow> (Inl err, None)
        | Inr readers \<Rightarrow>
            (let cfg = \<lparr>L0CompactionTrigger = ogL0CompactionTrigger opts, BaseLevelSizeMB = 10,
                        LevelMultiplier = 10, MaxLevels = 7\<rparr>;
                 st0 = updateLevelTables M
                   \<lparr>stOpts = opts, stManifest = m, stReaders = readers, stLevelTables = (\<lambda>_. []),
                    stBypassBloom = False, stCompactSignal = False, stFlushBytes = 0,
                    stTables = tables, stWals = wals\<rparr>;
                 engine = (\<lambda>w mem (st :: 'm Store). Store.extend st
                   \<lparr>egActiveWAL = w, egActiveMem = mem, egImmMem = None,
                    egCompactor = NewCompactor cfg (ogTargetTableSize opts), egFlushSignal = False,
                    egClosed = False, egPuts = 0, egDeletes = 0, egGets = 0, egBloomHits = 0,
                    egBloomMisses = 0, egFlushes = 0, egLogicalBytes = 0, egWalBytes = 0\<rparr>)
             in case wids of
                  None \<Rightarrow> (Inl ListFailed, Some st0)
                | Some ids \<Rightarrow>
                    (case recover_wals M E ids st0 of
                       (Inl err, st1) \<Rightarrow> (Inl err, Some st1)
                     | (Inr (Some (w, mem)), st1) \<Rightarrow> (Inr (engine w mem st1), Some st1)
                     | (Inr None, st1) \<Rightarrow>
                         (case mfNextID M (stManifest st1) of
                            (nextWalID, m1) \<Rightarrow>
                              (case open_wal E nextWalID (st1\<lparr>stManifest := m1\<rparr>) of
                                 (Inl err, st2) \<Rightarrow> (Inl (WalFailed err), Some st2)
                               | (Inr w, st2) \<Rightarrow>
                                   (Inr (engine w (MemTable_New (evRnd E nextWalID) nextWalID
                                      (ogMemTableSize opts)) st2), Some st2))))))"

section \<open>Closing\<close>

text \<open>After the background workers have stopped: the log is synced and closed, all readers too.\<close>

definition Engine_Close :: "engine_env \<Rightarrow> 'm Engine \<Rightarrow> 'm Engine" where
  "Engine_Close E e =
     (if egClosed e then e
      else
        let e1 = e\<lparr>egClosed := True\<rparr>;
            w = snd (WAL_Sync (egActiveWAL e1));
            w1 = snd (WAL_Close (evWalClose E (walId w)) w)
        in (set_wal w1 e1)\<lparr>stReaders := Map.empty\<rparr>)"

section \<open>Statistics\<close>

record 'f EngineStats =
  esActiveMemBytes :: int
  esActiveMemEntries :: int
  esImmMemBytes :: int
  esSSTablesPerLevel :: "(int \<times> int) list"
  esTotalSSTables :: int
  esTotalDiskBytes :: int
  esTotalPuts :: int
  esTotalDeletes :: int
  esTotalGets :: int
  esBloomFilterHits :: int
  esBloomFilterMiss :: int
  esTotalFlushes :: int
  esCompactionStats :: CompactorStats
  esLogicalBytesWritten :: int
  esPhysicalBytesWAL :: int
  esPhysicalBytesFlush :: int
  esPhysicalBytesCompaction :: int
  esTotalPhysicalBytesWritten :: int
  esEngineWAF :: 'f
  esEngineSAF :: 'f
  esActiveDataBytes :: int

definition Stats :: "'f float_ops \<Rightarrow> 'm Manifest \<Rightarrow> 'm Engine \<Rightarrow> 'f EngineStats" where
  "Stats F M e =
     (let levels = mfGetAllLevels M (stManifest e);
          totalDisk = (\<Sum>(lvl, tbls)\<leftarrow>levels. level_size (stReaders e) tbls);
          immBytes = (case egImmMem e of None \<Rightarrow> 0 | Some imm \<Rightarrow> MemTable_ByteSize imm);
          compStats = Compactor_Stats (egCompactor e);
          totalPhysical = egWalBytes e + stFlushBytes e + csBytesWritten compStats;
          activeData = MemTable_ByteSize (egActiveMem e) + immBytes +
            (\<Sum>lvl\<leftarrow>[1..6]. level_size (stReaders e) (level_of levels lvl))
      in \<lparr>esActiveMemBytes = MemTable_ByteSize (egActiveMem e),
          esActiveMemEntries = EntryCount (egActiveMem e), esImmMemBytes = immBytes,
          esSSTablesPerLevel = map (\<lambda>(lvl, tbls). (lvl, int (length tbls))) levels,
          esTotalSSTables = int (card (dom (stReaders e))), esTotalDiskBytes = totalDisk, esTotalPuts = egPuts e, esTotalDeletes = egDeletes e,
          esTotalGets = egGets e, esBloomFilterHits = egBloomHits e, esBloomFilterMiss = egBloomMisses e,
          esTotalFlushes = egFlushes e, esCompactionStats = compStats,
          esLogicalBytesWritten = egLogicalBytes e, esPhysicalBytesWAL = egWalBytes e,
          esPhysicalBytesFlush = stFlushBytes e, esPhysicalBytesCompaction = csBytesWritten compStats,
          esTotalPhysicalBytesWritten = totalPhysical,
          esEngineWAF = (if egLogicalBytes e > 0 then flDiv F totalPhysical (egLogicalBytes e) else flOne F),
          esEngineSAF = (if activeData > 0 \<and> totalDisk > 0 then flDiv F totalDisk activeData else flOne F),
          esActiveDataBytes = activeData\<rparr>)"

end
