(* ===== verification/EngineView.thy ===== *)
theory EngineView
  imports EngineOps
begin

text \<open>
  The engine as one map: the runs of entries in the order in which \<open>Get\<close> searches them, the view
  of a key through them, and the invariant under which every read returns the view.
\<close>

section \<open>Sources of entries\<close>

text \<open>
  What \<open>Get\<close> needs of a memtable or a table: a lookup that succeeds and agrees with the entries
  the source holds; \<open>None\<close> is a failed lookup.
\<close>

locale entry_source =
  fixes lookup :: "'s \<Rightarrow> bytes \<Rightarrow> Entry option option"
    and ok :: "'s \<Rightarrow> bool"
    and run :: "'s \<Rightarrow> Entry list"
  assumes lookup_run: "ok s \<Longrightarrow> lookup s k = Some (find (\<lambda>e. Key e = k) (run s))"
    and run_sorted: "ok s \<Longrightarrow> keys_sorted (run s)"
begin

lemma lookup_version: "ok s \<Longrightarrow> lookup s k = Some (version [run s] k)"
  by (simp add: lookup_run version_def)

lemma lookup_mem: "ok s \<Longrightarrow> e \<in> set (run s) \<Longrightarrow> lookup s (Key e) = Some (Some e)"
  by (simp add: lookup_run keys_sorted_find [OF run_sorted])

end

lemma version_append:
  "version (xs @ ys) k = (case version xs k of None \<Rightarrow> version ys k | Some e \<Rightarrow> Some e)"
  by (simp add: version_def find_append split: option.splits)

lemma version_Cons:
  "version (x # xs) k = (case version [x] k of None \<Rightarrow> version xs k | Some e \<Rightarrow> Some e)"
  by (simp add: version_def find_append split: option.splits)

lemma version_simps [simp]: "version [] k = None" "version ([] # xs) k = version xs k"
  by (simp_all add: version_def)

section \<open>Memtables\<close>

definition mem_entries :: "MemTable \<Rightarrow> Entry list" where
  "mem_entries m = (case MemTable_NewIterator m of None \<Rightarrow> [] | Some it \<Rightarrow> siEntries it)"

definition mem_ok :: "MemTable \<Rightarrow> bool" where
  "mem_ok m \<longleftrightarrow> (\<exists>es. sl_inv (mtList m) es)"

lemma mem_okD: "mem_ok m \<Longrightarrow> sl_inv (mtList m) (mem_entries m)"
  by (auto simp: mem_ok_def mem_entries_def MemTable_NewIterator_def NewIterator_spec)

lemma mem_entries_eq: "sl_inv (mtList m) es \<Longrightarrow> mem_entries m = es"
  by (simp add: mem_entries_def MemTable_NewIterator_def NewIterator_spec)

lemma mem_iterator:
  "mem_ok m \<Longrightarrow> MemTable_NewIterator m = Some \<lparr>siEntries = mem_entries m, siIdx = 0\<rparr>"
  by (simp add: MemTable_NewIterator_def NewIterator_spec [OF mem_okD])

lemma mem_Put:
  assumes "mem_ok m"
  shows "\<exists>m'. MemTable_Put e m = Some m' \<and> mem_ok m' \<and> mem_entries m' = put_entry e (mem_entries m) \<and>
    mtId m' = mtId m"
proof -
  obtain s where s: "SkipList_Put e (mtList m) = Some s" "sl_inv s (put_entry e (mem_entries m))"
    using Put_refines [OF mem_okD [OF assms]] by blast
  then show ?thesis
    using mem_entries_eq [of "m\<lparr>mtList := s\<rparr>"] by (auto simp: MemTable_Put_def mem_ok_def)
qed

lemma mem_New [simp]: "mem_ok (MemTable_New rnd i n)" "mem_entries (MemTable_New rnd i n) = []"
proof -
  have "sl_inv (mtList (MemTable_New rnd i n)) []" by (simp add: MemTable_New_def sl_inv_New)
  then show "mem_ok (MemTable_New rnd i n)" "mem_entries (MemTable_New rnd i n) = []"
    by (auto simp: mem_ok_def mem_entries_eq)
qed

lemma mem_Mark [simp]:
  "mem_ok (MarkImmutable m) = mem_ok m" "mem_entries (MarkImmutable m) = mem_entries m"
  "EntryCount (MarkImmutable m) = EntryCount m" "mtId (MarkImmutable m) = mtId m"
  "ShouldFlush (MarkImmutable m) = ShouldFlush m"
  by (simp_all add: mem_ok_def mem_entries_def MarkImmutable_def MemTable_NewIterator_def EntryCount_def
      ShouldFlush_def)

lemma mem_sorted: "mem_ok m \<Longrightarrow> keys_sorted (mem_entries m)"
  by (rule sl_inv_sorted [OF mem_okD])

lemma EntryCount_entries: "mem_ok m \<Longrightarrow> EntryCount m = int (length (mem_entries m))"
  using mem_okD [of m] by (auto simp: sl_inv_def EntryCount_def SkipList_Length_def)

interpretation mem: entry_source MemTable_Get mem_ok mem_entries
  by unfold_locales (simp_all add: MemTable_Get_def Get_refines [OF mem_okD] mem_sorted)

section \<open>Tables\<close>

text \<open>An open table with entries whose first and last key are its range.\<close>

definition reader_ok :: "SSTableReader \<Rightarrow> bool" where
  "reader_ok r \<longleftrightarrow> table_ok r \<and> lookup_ok r \<and> table_entries r \<noteq> [] \<and>
     mdMinKey (rdMeta r) = Key (hd (table_entries r)) \<and> mdMaxKey (rdMeta r) = Key (last (table_entries r)) \<and>
     (\<forall>e\<in>set (table_entries r). Key e \<noteq> [] \<and> length (Key e) < 2 ^ 16)"

lemma reader_covers: "reader_ok r \<Longrightarrow> e \<in> set (table_entries r) \<Longrightarrow> covers r (Key e)"
  using keys_sorted_hd_le keys_sorted_le_last by (auto simp: reader_ok_def covers_def table_ok_def)

lemma reader_covers_min: "reader_ok r \<Longrightarrow> covers r (mdMinKey (rdMeta r))"
  using reader_covers [of r "hd (table_entries r)"] by (simp add: reader_ok_def)

definition table_lookup :: "SSTableReader \<Rightarrow> bytes \<Rightarrow> Entry option option" where
  "table_lookup r k = (case Reader_Get r k of Inl _ \<Rightarrow> None | Inr found \<Rightarrow> Some found)"

interpretation tab: entry_source table_lookup reader_ok table_entries
  by unfold_locales
    (simp_all add: table_lookup_def Reader_Get_spec reader_ok_def table_ok_def)

lemma Reader_Get_version: "reader_ok r \<Longrightarrow> Reader_Get r k = Inr (version [table_entries r] k)"
  using tab.lookup_version [of r k] by (auto simp: table_lookup_def split: sum.splits)

lemma version_covers: "reader_ok r \<Longrightarrow> version [table_entries r] k = Some e \<Longrightarrow> covers r k"
  using reader_covers [of r e] version_Some [of "[table_entries r]" k e] by auto

definition table_run :: "readers \<Rightarrow> uint64 \<Rightarrow> Entry list" where
  "table_run readers tid = (case readers tid of None \<Rightarrow> [] | Some r \<Rightarrow> table_entries r)"

definition readers_ok :: "readers \<Rightarrow> uint64 list \<Rightarrow> bool" where
  "readers_ok readers tids \<longleftrightarrow> (\<forall>tid\<in>set tids. \<exists>r. readers tid = Some r \<and> reader_ok r)"

text \<open>No two tables of the list share a key.\<close>

definition apart :: "readers \<Rightarrow> uint64 list \<Rightarrow> bool" where
  "apart readers tids \<longleftrightarrow>
     sorted_wrt (\<lambda>t u. \<forall>r s k. readers t = Some r \<and> readers u = Some s \<longrightarrow> \<not> (covers r k \<and> covers s k)) tids"

lemma get_l0_version:
  "readers_ok readers tids \<Longrightarrow>
    \<exists>n'. get_l0 readers k tids n = (Inr (version (map (table_run readers) tids) k), n')"
proof (induction tids arbitrary: n)
  case (Cons t ts)
  then obtain r where r: "readers t = Some r" "reader_ok r" by (auto simp: readers_ok_def)
  have run: "table_run readers t = table_entries r" using r(1) by (simp add: table_run_def)
  obtain n' where "get_l0 readers k ts (n + 1) = (Inr (version (map (table_run readers) ts) k), n')"
    using Cons by (auto simp: readers_ok_def)
  then show ?case
    using r Reader_Get_version [OF r(2), of k] version_Cons [of "table_entries r" "map (table_run readers) ts" k]
    by (cases "version [table_entries r] k") (auto simp: run)
qed simp

lemma version_none_apart:
  assumes "\<forall>u\<in>set ts. \<forall>s. readers u = Some s \<longrightarrow> \<not> covers s k" "readers_ok readers ts"
  shows "version (map (table_run readers) ts) k = None"
  using assms
proof (induction ts)
  case (Cons u us)
  then obtain s where s: "readers u = Some s" "reader_ok s" by (auto simp: readers_ok_def)
  then have "\<not> covers s k" using Cons.prems(1) by simp
  then have "version [table_entries s] k = None"
    using version_covers [OF s(2), of k] by (cases "version [table_entries s] k") auto
  moreover have "table_run readers u = table_entries s" using s(1) by (simp add: table_run_def)
  moreover have "version (map (table_run readers) us) k = None"
    using Cons by (simp add: readers_ok_def)
  ultimately show ?case using version_Cons [of "table_entries s" "map (table_run readers) us" k] by simp
qed simp

lemma get_level_version:
  "readers_ok readers tids \<Longrightarrow> apart readers tids \<Longrightarrow>
    \<exists>n'. get_level readers k tids n = (Inr (version (map (table_run readers) tids) k), n')"
proof (induction tids arbitrary: n)
  case (Cons t ts)
  then obtain r where r: "readers t = Some r" "reader_ok r" by (auto simp: readers_ok_def)
  have ts: "readers_ok readers ts" "apart readers ts" using Cons.prems by (auto simp: readers_ok_def apart_def)
  have run: "table_run readers t = table_entries r" using r(1) by (simp add: table_run_def)
  note v = version_Cons [of "table_entries r" "map (table_run readers) ts" k]
  show ?case
  proof (cases "covers r k")
    case True
    have "\<forall>u\<in>set ts. \<forall>s. readers u = Some s \<longrightarrow> \<not> covers s k"
      using Cons.prems(2) r(1) True by (auto simp: apart_def)
    then have "version (map (table_run readers) ts) k = None" using ts(1) by (rule version_none_apart)
    then show ?thesis
      using r True v Reader_Get_version [OF r(2), of k]
      by (cases "version [table_entries r] k") (auto simp: run covers_def)
  next
    case False
    then have "version [table_entries r] k = None"
      using version_covers [OF r(2), of k] by (cases "version [table_entries r] k") auto
    then show ?thesis
      using r(1) False v Cons.IH [OF ts, of n] by (auto simp: run covers_def)
  qed
qed simp

lemma get_levels_version:
  "\<forall>l\<in>set lvls. readers_ok readers (levels l) \<and> apart readers (levels l) \<Longrightarrow>
    \<exists>n'. get_levels readers k levels lvls n =
      (Inr (version (concat (map (\<lambda>l. map (table_run readers) (levels l)) lvls)) k), n')"
proof (induction lvls arbitrary: n)
  case (Cons l lvls)
  obtain n1 where n1: "get_level readers k (levels l) n =
      (Inr (version (map (table_run readers) (levels l)) k), n1)"
    using get_level_version Cons.prems by fastforce
  obtain n2 where "get_levels readers k levels lvls n1 =
      (Inr (version (concat (map (\<lambda>l. map (table_run readers) (levels l)) lvls)) k), n2)"
    using Cons by fastforce
  then show ?case
    using n1 by (cases "version (map (table_run readers) (levels l)) k") (auto simp: version_append)
qed simp

section \<open>The engine\<close>

definition store_runs :: "('m, 'z) Store_scheme \<Rightarrow> Entry list list" where
  "store_runs st =
     map (table_run (stReaders st)) (rev (stLevelTables st 0)) @
     concat (map (\<lambda>l. map (table_run (stReaders st)) (stLevelTables st l)) [1..6])"

definition mem_runs :: "'m Engine \<Rightarrow> Entry list list" where
  "mem_runs e = mem_entries (egActiveMem e) #
     (case egImmMem e of None \<Rightarrow> [] | Some imm \<Rightarrow> [mem_entries imm])"

definition engine_runs :: "'m Engine \<Rightarrow> Entry list list" where
  "engine_runs e = mem_runs e @ store_runs e"

text \<open>The value a key has through the runs: what its first version says.\<close>

definition value_of :: "Entry option \<Rightarrow> bytes option" where
  "value_of found =
     (case found of None \<Rightarrow> None | Some e \<Rightarrow> if IsTombstone e then None else Some (contents (Value e)))"

definition view :: "Entry list list \<Rightarrow> bytes \<Rightarrow> bytes option" where
  "view runs k = value_of (version runs k)"

abbreviation engine_view :: "'m Engine \<Rightarrow> bytes \<Rightarrow> bytes option" where
  "engine_view e \<equiv> view (engine_runs e)"

text \<open>
  The invariant of the tables: the level lists are those of the manifest, every table has a sound
  reader, the levels from 1 on have no overlaps, no id is in two levels or unknown to \<open>NextID\<close>.
\<close>

definition levels_ok :: "readers \<Rightarrow> (int \<Rightarrow> uint64 list) \<Rightarrow> bool" where
  "levels_ok readers levels \<longleftrightarrow>
     (\<forall>l. readers_ok readers (levels l)) \<and> (\<forall>l. 1 \<le> l \<longrightarrow> apart readers (levels l)) \<and>
     (\<forall>l. distinct (levels l)) \<and> (\<forall>l l'. l \<noteq> l' \<longrightarrow> set (levels l) \<inter> set (levels l') = {})"

definition store_ok :: "'m Manifest \<Rightarrow> ('m \<Rightarrow> uint64 set) \<Rightarrow> ('m, 'z) Store_scheme \<Rightarrow> bool" where
  "store_ok M used st \<longleftrightarrow>
     (\<forall>l. 0 \<le> l \<and> l < 7 \<longrightarrow> stLevelTables st l = mfGetLevelTables M (stManifest st) l) \<and>
     levels_ok (stReaders st) (mfGetLevelTables M (stManifest st)) \<and>
     (\<forall>l. set (mfGetLevelTables M (stManifest st) l) \<subseteq> used (stManifest st))"

definition mems_ok :: "'m Engine \<Rightarrow> bool" where
  "mems_ok e \<longleftrightarrow> mem_ok (egActiveMem e) \<and> (\<forall>imm. egImmMem e = Some imm \<longrightarrow> mem_ok imm)"

definition engine_ok :: "'m Manifest \<Rightarrow> ('m \<Rightarrow> uint64 set) \<Rightarrow> 'm Engine \<Rightarrow> bool" where
  "engine_ok M used e \<longleftrightarrow> store_ok M used e \<and> mems_ok e"

lemma store_levels:
  assumes "store_ok M used st" "0 \<le> l" "l < 7"
  shows "readers_ok (stReaders st) (stLevelTables st l)" "1 \<le> l \<Longrightarrow> apart (stReaders st) (stLevelTables st l)"
  using assms by (auto simp: store_ok_def levels_ok_def)

lemma read_value_view:
  "read_value e = (case value_of (Some e) of None \<Rightarrow> Inl KeyNotFound | Some _ \<Rightarrow> Inr (Value e))"
  by (simp add: read_value_def value_of_def)

lemma engine_ok_counters [frame]:
  "engine_ok M used (e\<lparr>egBloomMisses := n\<rparr>) = engine_ok M used e"
  "engine_ok M used (e\<lparr>egBloomHits := n\<rparr>) = engine_ok M used e"
  "engine_ok M used (e\<lparr>egGets := n\<rparr>) = engine_ok M used e"
  "engine_runs (e\<lparr>egBloomMisses := n\<rparr>) = engine_runs e"
  "engine_runs (e\<lparr>egBloomHits := n\<rparr>) = engine_runs e"
  "engine_runs (e\<lparr>egGets := n\<rparr>) = engine_runs e"
  by (simp_all add: engine_runs_def mem_runs_def store_runs_def engine_ok_def store_ok_def mems_ok_def)

lemma search_then:
  assumes "a = (Inr va, n)" and b: "\<And>m. \<exists>n'. b m = (Inr vb, n')"
  shows "\<exists>n'. (case a of (Inr None, m) \<Rightarrow> b m | found \<Rightarrow> found) =
    (Inr (case va of None \<Rightarrow> vb | Some x \<Rightarrow> Some x), n')"
  using b [of n] by (cases va) (auto simp: assms(1))

lemma search_tables_view:
  assumes "store_ok M used e"
  shows "\<exists>n. (case get_l0 (stReaders e) k (rev (stLevelTables e 0)) 0 of
      (Inr None, misses) \<Rightarrow> get_levels (stReaders e) k (stLevelTables e) [1..6] misses
    | found \<Rightarrow> found) = (Inr (version (store_runs e) k), n)"
proof -
  let ?R = "stReaders e" and ?L = "stLevelTables e"
  have "\<forall>l\<in>set [1..6]. readers_ok ?R (?L l) \<and> apart ?R (?L l)"
    using store_levels [OF assms] by (auto simp del: upto_rec_numeral)
  note levels = get_levels_version [OF this, of k]
  have "readers_ok ?R (rev (?L 0))" using store_levels(1) [OF assms, of 0] by (simp add: readers_ok_def)
  from get_l0_version [OF this] obtain n where
    l0: "get_l0 ?R k (rev (?L 0)) 0 = (Inr (version (map (table_run ?R) (rev (?L 0))) k), n)" by blast
  show ?thesis
    unfolding store_runs_def version_append by (rule search_then [OF l0]) (rule levels)
qed

lemma get_tables_view:
  assumes "store_ok M used e"
  shows "\<exists>e'. get_tables k e =
    (case version (store_runs e) k of None \<Rightarrow> Inl KeyNotFound | Some x \<Rightarrow> read_value x, e') \<and>
    engine_runs e' = engine_runs e \<and> engine_ok M used e' = engine_ok M used e"
proof -
  obtain n where n: "(case get_l0 (stReaders e) k (rev (stLevelTables e 0)) 0 of
      (Inr None, misses) \<Rightarrow> get_levels (stReaders e) k (stLevelTables e) [1..6] misses
    | found \<Rightarrow> found) = (Inr (version (store_runs e) k), n)"
    using search_tables_view [OF assms] by blast
  show ?thesis
    unfolding get_tables_def n
    by (cases "version (store_runs e) k") (simp_all add: Let_def frame)
qed

lemma version_engine:
  "version (engine_runs e) k =
    (case version [mem_entries (egActiveMem e)] k of
       Some x \<Rightarrow> Some x
     | None \<Rightarrow>
         (case egImmMem e of
            None \<Rightarrow> version (store_runs e) k
          | Some imm \<Rightarrow>
              (case version [mem_entries imm] k of Some x \<Rightarrow> Some x | None \<Rightarrow> version (store_runs e) k)))"
proof (cases "egImmMem e")
  case None
  then have "engine_runs e = mem_entries (egActiveMem e) # store_runs e"
    by (simp add: engine_runs_def mem_runs_def)
  then show ?thesis
    using version_Cons [of "mem_entries (egActiveMem e)" "store_runs e" k] None by (simp split: option.splits)
next
  case (Some imm)
  then have "engine_runs e = mem_entries (egActiveMem e) # mem_entries imm # store_runs e"
    by (simp add: engine_runs_def mem_runs_def)
  then show ?thesis
    using version_Cons [of "mem_entries (egActiveMem e)" "mem_entries imm # store_runs e" k]
      version_Cons [of "mem_entries imm" "store_runs e" k] Some
    by (simp split: option.splits)
qed

text \<open>A read returns the view and leaves it as it is.\<close>

lemma Get_view:
  assumes ok: "engine_ok M used e" and "key \<noteq> []" "\<not> egClosed e"
  shows "\<exists>e'. Get key e =
    (case version (engine_runs e) key of None \<Rightarrow> Inl KeyNotFound | Some x \<Rightarrow> read_value x, e') \<and>
    engine_runs e' = engine_runs e \<and> engine_ok M used e'"
proof -
  let ?e = "e\<lparr>egGets := egGets e + 1\<rparr>"
  have e: "engine_ok M used ?e" "engine_runs ?e = engine_runs e" "store_runs ?e = store_runs e"
    using ok by (simp_all add: frame store_runs_def)
  obtain e' where tab: "get_tables key ?e =
      (case version (store_runs e) key of None \<Rightarrow> Inl KeyNotFound | Some x \<Rightarrow> read_value x, e')"
    "engine_runs e' = engine_runs e" "engine_ok M used e'"
    using get_tables_view [of M used ?e key] e by (auto simp: engine_ok_def)
  have act: "mem_ok (egActiveMem e)" using ok by (simp add: engine_ok_def mems_ok_def)
  note act' = mem.lookup_version [OF act, of key]
  show ?thesis
  proof (cases "version [mem_entries (egActiveMem e)] key")
    case (Some x)
    then show ?thesis using assms e act' by (simp add: Get_def Let_def version_engine)
  next
    case a: None
    show ?thesis
    proof (cases "egImmMem e")
      case None
      then show ?thesis using assms e a act' tab by (simp add: Get_def Let_def version_engine)
    next
      case (Some imm)
      then have "mem_ok imm" using ok by (simp add: engine_ok_def mems_ok_def)
      note imm = mem.lookup_version [OF this, of key]
      show ?thesis
        using assms e a act' Some imm tab
        by (cases "version [mem_entries imm] key") (simp_all add: Get_def Let_def version_engine)
    qed
  qed
qed

end
