(* ===== verification/EngineWrite.thy ===== *)
theory EngineWrite
  imports EngineView
begin

text \<open>
  Writes and the rotation of the memtable against the view: a \<open>Put\<close> or \<open>Delete\<close> that returns
  without an error updates the view at its key, one that fails leaves the view as it was.
\<close>

section \<open>Frames\<close>

lemma store_ok_cong:
  assumes "stLevelTables st' = stLevelTables st" "stReaders st' = stReaders st"
    "mfGetLevelTables M (stManifest st') = mfGetLevelTables M (stManifest st)"
    "used (stManifest st) \<subseteq> used (stManifest st')"
  shows "store_ok M used st \<Longrightarrow> store_ok M used st'"
  using assms unfolding store_ok_def by auto

lemma store_runs_cong:
  "stLevelTables st' = stLevelTables st \<Longrightarrow> stReaders st' = stReaders st \<Longrightarrow> store_runs st' = store_runs st"
  by (simp add: store_runs_def)

lemma set_wal_frame [simp]:
  "stLevelTables (set_wal w e) = stLevelTables e" "stReaders (set_wal w e) = stReaders e"
  "stManifest (set_wal w e) = stManifest e" "egActiveMem (set_wal w e) = egActiveMem e"
  "egImmMem (set_wal w e) = egImmMem e" "egClosed (set_wal w e) = egClosed e"
  "stOpts (set_wal w e) = stOpts e" "stTables (set_wal w e) = stTables e"
  "egActiveWAL (set_wal w e) = w" "stBypassBloom (set_wal w e) = stBypassBloom e"
  by (simp_all add: set_wal_def)

lemma open_wal_frame:
  assumes "open_wal E wid st = (res, st')"
  shows "stLevelTables st' = stLevelTables st" "stReaders st' = stReaders st" "stManifest st' = stManifest st"
    "stOpts st' = stOpts st" "stTables st' = stTables st" "Store.more st' = Store.more st"
    "stBypassBloom st' = stBypassBloom st"
  using assms by (auto simp: open_wal_def Let_def split: sum.splits)

lemma open_wal_engine:
  assumes "open_wal E wid e = (res, e')"
  shows "egActiveMem e' = egActiveMem e" "egImmMem e' = egImmMem e" "egClosed e' = egClosed e"
    "egActiveWAL e' = egActiveWAL e"
  using assms by (auto simp: open_wal_def Let_def split: sum.splits)

section \<open>Rotation\<close>

text \<open>What a rotation leaves: the old memtable as the immutable one, and a new one or itself in front.\<close>

lemma rotate_spec:
  assumes laws: "manifest_laws M used" and st: "store_ok M used e" and mem: "mem_ok (egActiveMem e)"
  shows "store_ok M used (rotateMemTable M E e)" "mems_ok (rotateMemTable M E e)"
    "egImmMem (rotateMemTable M E e) = Some (MarkImmutable (egActiveMem e))"
    "store_runs (rotateMemTable M E e) = store_runs e"
    "mem_entries (egActiveMem (rotateMemTable M E e)) \<in> {[], mem_entries (egActiveMem e)}"
    "egClosed (rotateMemTable M E e) = egClosed e"
    "stOpts (rotateMemTable M E e) = stOpts e"
proof -
  let ?mem = "MarkImmutable (egActiveMem e)"
  define e1 where "e1 = (set_wal (snd (WAL_Close (evWalClose E (walId (egActiveWAL e))) (egActiveWAL e))) e)
    \<lparr>egActiveMem := ?mem, egImmMem := Some ?mem\<rparr>"
  obtain nid m1 where nid: "mfNextID M (stManifest e1) = (nid, m1)" by fastforce
  obtain res e2 where e2: "open_wal E nid (e1\<lparr>stManifest := m1\<rparr>) = (res, e2)" by fastforce
  have rot: "rotateMemTable M E e =
      (case res of Inl err \<Rightarrow> e2
       | Inr w \<Rightarrow> e2\<lparr>egActiveWAL := w,
           egActiveMem := MemTable_New (evRnd E nid) nid (ogMemTableSize (stOpts e))\<rparr>)"
    using nid e2 by (simp add: rotateMemTable_def Let_def e1_def split: sum.splits)
  note m1 = manifest_NextID(1,2) [OF laws nid]
  note fr = open_wal_frame [OF e2] open_wal_engine [OF e2]
  have sub: "used (stManifest e) \<subseteq> used m1" using m1(2) by (auto simp: e1_def)
  have lv: "mfGetLevelTables M m1 = mfGetLevelTables M (stManifest e)" using m1(1) by (simp add: e1_def)
  have "store_ok M used e2"
    by (rule store_ok_cong [OF _ _ _ _ st]) (use fr lv sub in \<open>simp_all add: e1_def\<close>)
  moreover have "store_ok M used (e2\<lparr>egActiveWAL := w, egActiveMem := x\<rparr>)" if "store_ok M used e2" for w x
    by (rule store_ok_cong [OF _ _ _ _ that]) simp_all
  ultimately show "store_ok M used (rotateMemTable M E e)" by (cases res) (simp_all add: rot)
  show "mems_ok (rotateMemTable M E e)"
    using mem fr by (cases res) (simp_all add: rot mems_ok_def e1_def)
  show "egImmMem (rotateMemTable M E e) = Some ?mem"
    using fr by (cases res) (simp_all add: rot e1_def)
  show "store_runs (rotateMemTable M E e) = store_runs e"
    by (rule store_runs_cong) (use fr in \<open>cases res; simp add: rot e1_def\<close>)+
  show "mem_entries (egActiveMem (rotateMemTable M E e)) \<in> {[], mem_entries (egActiveMem e)}"
    using fr by (cases res) (simp_all add: rot e1_def)
  show "egClosed (rotateMemTable M E e) = egClosed e"
    using fr by (cases res) (simp_all add: rot e1_def)
  show "stOpts (rotateMemTable M E e) = stOpts e"
    using fr by (cases res) (simp_all add: rot e1_def)
qed

text \<open>The memtable that was immutable before is gone; all else is as visible as before.\<close>

lemma rotate_version:
  assumes "manifest_laws M used" "store_ok M used e" "mem_ok (egActiveMem e)"
  shows "version (engine_runs (rotateMemTable M E e)) k = version (mem_entries (egActiveMem e) # store_runs e) k"
  using rotate_spec(3,4,5) [OF assms, of E]
    version_Cons [of "mem_entries (egActiveMem e)" "store_runs e" k]
  by (auto simp: version_engine split: option.splits)

lemma rotate_ok:
  assumes "manifest_laws M used" "engine_ok M used e"
  shows "engine_ok M used (rotateMemTable M E e)"
proof -
  have "store_ok M used e" "mem_ok (egActiveMem e)" using assms(2) by (simp_all add: engine_ok_def mems_ok_def)
  then show ?thesis using rotate_spec(1,2) [OF assms(1), of e E] by (simp add: engine_ok_def)
qed

section \<open>Writes\<close>

lemma engine_ok_wal [frame]:
  "engine_ok M used (set_wal w e) = engine_ok M used e" "engine_runs (set_wal w e) = engine_runs e"
  by (simp_all add: engine_ok_def store_ok_def mems_ok_def engine_runs_def mem_runs_def store_runs_def)

lemma engine_ok_stats [frame]:
  "engine_ok M used (e\<lparr>egPuts := a, egLogicalBytes := b, egWalBytes := c\<rparr>) = engine_ok M used e"
  "engine_runs (e\<lparr>egPuts := a, egLogicalBytes := b, egWalBytes := c\<rparr>) = engine_runs e"
  "engine_ok M used (e\<lparr>egDeletes := a, egLogicalBytes := b, egWalBytes := c\<rparr>) = engine_ok M used e"
  "engine_runs (e\<lparr>egDeletes := a, egLogicalBytes := b, egWalBytes := c\<rparr>) = engine_runs e"
  "engine_ok M used (triggerFlush e) = engine_ok M used e" "engine_runs (triggerFlush e) = engine_runs e"
  by (simp_all add: engine_ok_def store_ok_def mems_ok_def engine_runs_def mem_runs_def store_runs_def
      triggerFlush_def)

lemma write_entry_spec:
  assumes ok: "engine_ok M used e" and res: "write_entry entry e = (r, e')"
  shows "engine_ok M used e'" "egImmMem e' = egImmMem e" "egClosed e' = egClosed e" "stOpts e' = stOpts e"
    "version (engine_runs e') k =
      (if r = None \<and> k = Key entry then Some entry else version (engine_runs e) k)"
    "r \<noteq> Some Panic"
proof -
  obtain wr w where w: "WAL_Write entry (egActiveWAL e) = (wr, w)" by fastforce
  obtain mem where mem: "MemTable_Put entry (egActiveMem e) = Some mem" "mem_ok mem"
    "mem_entries mem = put_entry entry (mem_entries (egActiveMem e))"
    using mem_Put [of "egActiveMem e" entry] ok by (auto simp: engine_ok_def mems_ok_def)
  have e': "(r, e') = (case wr of None \<Rightarrow> (None, (set_wal w e)\<lparr>egActiveMem := mem\<rparr>)
      | Some err \<Rightarrow> (Some (WalFailed err), set_wal w e))"
    using res w mem(1) by (simp add: write_entry_def split: option.splits)
  have "engine_ok M used ((set_wal w e)\<lparr>egActiveMem := mem\<rparr>)"
    using ok mem(2) by (simp add: engine_ok_def store_ok_def mems_ok_def)
  moreover have "version (engine_runs ((set_wal w e)\<lparr>egActiveMem := mem\<rparr>)) k =
      (if k = Key entry then Some entry else version (engine_runs e) k)"
  proof -
    have "keys_sorted (mem_entries (egActiveMem e))"
      using ok by (simp add: engine_ok_def mems_ok_def mem_sorted)
    then have "version [mem_entries mem] k =
        (if k = Key entry then Some entry else version [mem_entries (egActiveMem e)] k)"
      by (simp add: version_def mem(3) put_entry_find)
    moreover have "store_runs ((set_wal w e)\<lparr>egActiveMem := mem\<rparr>) = store_runs e"
      by (simp add: store_runs_def)
    ultimately show ?thesis by (simp add: version_engine cong: option.case_cong)
  qed
  ultimately show "engine_ok M used e'" "egImmMem e' = egImmMem e" "egClosed e' = egClosed e"
    "stOpts e' = stOpts e" "r \<noteq> Some Panic"
    "version (engine_runs e') k =
      (if r = None \<and> k = Key entry then Some entry else version (engine_runs e) k)"
    using e' ok by (auto simp: frame split: option.splits)
qed

lemma flush_if_full_spec:
  assumes laws: "manifest_laws M used" and ok: "engine_ok M used e"
  shows "engine_ok M used (flush_if_full M E e)"
    "version (engine_runs (flush_if_full M E e)) k = version (engine_runs e) k"
    "egClosed (flush_if_full M E e) = egClosed e" "stOpts (flush_if_full M E e) = stOpts e"
proof -
  have st: "store_ok M used e" "mem_ok (egActiveMem e)" using ok by (simp_all add: engine_ok_def mems_ok_def)
  have rot: "version (engine_runs (rotateMemTable M E e)) k = version (engine_runs e) k" if "egImmMem e = None"
    using rotate_version [OF laws st, of E k] that
      version_Cons [of "mem_entries (egActiveMem e)" "store_runs e" k]
    by (simp add: version_engine [of e] cong: option.case_cong)
  show "engine_ok M used (flush_if_full M E e)"
    "version (engine_runs (flush_if_full M E e)) k = version (engine_runs e) k"
    "egClosed (flush_if_full M E e) = egClosed e" "stOpts (flush_if_full M E e) = stOpts e"
    using ok rot rotate_ok [OF laws ok, of E] rotate_spec(6,7) [OF laws st, of E]
    by (auto simp: flush_if_full_def Let_def frame triggerFlush_def [abs_def] engine_ok_stats(5,6) [unfolded triggerFlush_def])
qed

lemma value_of_new [simp]:
  "value_of (Some (NewPutEntry t k v)) = Some (contents v)" "value_of (Some (NewDeleteEntry t k)) = None"
  "value_of None = None"
  by (simp_all add: value_of_def)

lemma Put_spec:
  assumes laws: "manifest_laws M used" and ok: "engine_ok M used e" and res: "Put M E key v e = (r, e')"
  shows "engine_ok M used e'" "egClosed e' = egClosed e" "stOpts e' = stOpts e"
    "engine_view e' = (if r = None then (engine_view e)(key \<mapsto> contents v) else engine_view e)"
proof -
  let ?en = "NewPutEntry (evNow E) key v"
  have "engine_ok M used e' \<and> egClosed e' = egClosed e \<and> stOpts e' = stOpts e \<and>
    (\<forall>k. version (engine_runs e') k = (if r = None \<and> k = key then Some ?en else version (engine_runs e) k))"
  proof (cases "length key = 0 \<or> egClosed e \<or> ShouldFlush (egActiveMem e) \<and> egImmMem e \<noteq> None")
    case True
    then show ?thesis using res ok by (auto simp: Put_def split: if_splits)
  next
    case False
    obtain wr e1 where w: "write_entry ?en e = (wr, e1)" by fastforce
    note ws = write_entry_spec [OF ok w]
    show ?thesis
    proof (cases wr)
      case (Some err)
      then have "r = Some err" "e' = e1" using False res w by (auto simp: Put_def)
      then show ?thesis using ws Some by simp
    next
      case None
      define e2 where "e2 = e1\<lparr>egPuts := egPuts e1 + 1,
        egLogicalBytes := egLogicalBytes e1 + int (length key + length (contents v)),
        egWalBytes := egWalBytes e1 + (8 + 8 + 1 + 2 + 4 + int (length key + length (contents v)))\<rparr>"
      have "r = None" "e' = flush_if_full M E e2"
        using False res w None by (auto simp: Put_def Let_def e2_def)
      moreover have "engine_ok M used e2" "engine_runs e2 = engine_runs e1" "egClosed e2 = egClosed e1" "stOpts e2 = stOpts e1"
        using ws(1) by (simp_all add: e2_def frame)
      ultimately show ?thesis using flush_if_full_spec [OF laws, of e2 E] ws None by simp
    qed
  qed
  then show "engine_ok M used e'" "egClosed e' = egClosed e" "stOpts e' = stOpts e"
    "engine_view e' = (if r = None then (engine_view e)(key \<mapsto> contents v) else engine_view e)"
    by (auto simp: view_def fun_eq_iff)
qed

lemma Delete_spec:
  assumes laws: "manifest_laws M used" and ok: "engine_ok M used e" and res: "Delete M E key e = (r, e')"
  shows "engine_ok M used e'" "egClosed e' = egClosed e" "stOpts e' = stOpts e"
    "engine_view e' = (if r = None then (engine_view e)(key := None) else engine_view e)"
proof -
  let ?en = "NewDeleteEntry (evNow E) key"
  have "engine_ok M used e' \<and> egClosed e' = egClosed e \<and> stOpts e' = stOpts e \<and>
    (\<forall>k. version (engine_runs e') k = (if r = None \<and> k = key then Some ?en else version (engine_runs e) k))"
  proof (cases "length key = 0 \<or> egClosed e \<or> ShouldFlush (egActiveMem e) \<and> egImmMem e \<noteq> None")
    case True
    then show ?thesis using res ok by (auto simp: Delete_def split: if_splits)
  next
    case False
    obtain wr e1 where w: "write_entry ?en e = (wr, e1)" by fastforce
    note ws = write_entry_spec [OF ok w]
    show ?thesis
    proof (cases wr)
      case (Some err)
      then have "r = Some err" "e' = e1" using False res w by (auto simp: Delete_def)
      then show ?thesis using ws Some by simp
    next
      case None
      define e2 where "e2 = e1\<lparr>egDeletes := egDeletes e1 + 1,
        egLogicalBytes := egLogicalBytes e1 + int (length key),
        egWalBytes := egWalBytes e1 + (8 + 8 + 1 + 2 + 4 + int (length key))\<rparr>"
      have "r = None" "e' = flush_if_full M E e2"
        using False res w None by (auto simp: Delete_def Let_def e2_def)
      moreover have "engine_ok M used e2" "engine_runs e2 = engine_runs e1" "egClosed e2 = egClosed e1" "stOpts e2 = stOpts e1"
        using ws(1) by (simp_all add: e2_def frame)
      ultimately show ?thesis using flush_if_full_spec [OF laws, of e2 E] ws None by simp
    qed
  qed
  then show "engine_ok M used e'" "egClosed e' = egClosed e" "stOpts e' = stOpts e"
    "engine_view e' = (if r = None then (engine_view e)(key := None) else engine_view e)"
    by (auto simp: view_def fun_eq_iff)
qed

end
