(* ===== verification/EngineFlush.thy ===== *)
theory EngineFlush
  imports EngineWrite
begin

text \<open>
  The flush of a memtable: when it succeeds, the table it adds to level 0 holds the memtable's
  entries, so that the view stays the same when the memtable is dropped.
\<close>

section \<open>Success does not depend on which system calls would have failed\<close>

lemma NewBuilder_mono: "NewBuilder io opts files = Inr b \<Longrightarrow> NewBuilder (\<lambda>_. True) opts files = Inr b"
  by (auto simp: NewBuilder_def Let_def split: if_splits)

lemma flushBlock_mono: "flushBlock io b = (None, b') \<Longrightarrow> flushBlock (\<lambda>_. True) b = (None, b')"
  by (auto simp: flushBlock_def Let_def split: list.splits if_splits)

lemma Builder_Add_mono: "Builder_Add io e b = (None, b') \<Longrightarrow> Builder_Add (\<lambda>_. True) e b = (None, b')"
  by (auto simp: Builder_Add_def Let_def split: if_splits option.splits intro: flushBlock_mono)

lemma Builder_Adds_mono: "Builder_Adds io es b = (None, b') \<Longrightarrow> Builder_Adds (\<lambda>_. True) es b = (None, b')"
  by (induction es arbitrary: b) (auto dest: Builder_Add_mono split: prod.splits option.splits)

lemma Finish_mono: "Finish io now b = (Inr meta, b') \<Longrightarrow> Finish (\<lambda>_. True) now b = (Inr meta, b')"
  using flushBlock_mono [of io "b\<lparr>bClosed := True\<rparr>"]
  by (auto simp: Finish_def Let_def split: if_splits prod.splits option.splits)

section \<open>The loop over the memtable\<close>

lemma flush_loop_adds:
  assumes "siIdx it = int i" "i \<le> length (siEntries it)"
  shows "flush_loop io it b = Builder_Adds io (drop i (siEntries it)) b"
  using assms
proof (induction "length (siEntries it) - i" arbitrary: i it b)
  case 0
  then show ?case by (subst flush_loop.simps) (simp add: SkipIter_Valid_def)
next
  case (Suc n)
  then have i: "i < length (siEntries it)" by simp
  let ?e = "siEntries it ! i"
  have next_it: "SkipIter_Next it = it\<lparr>siIdx := int (Suc i)\<rparr>" "SkipIter_Entry it = Some ?e" "SkipIter_Valid it"
    using Suc.prems i by (simp_all add: SkipIter_Next_def SkipIter_Entry_def SkipIter_Valid_def)
  have "flush_loop io (SkipIter_Next it) b1 = Builder_Adds io (drop (Suc i) (siEntries it)) b1" for b1
    using Suc.hyps(1) [of "SkipIter_Next it" "Suc i" b1] Suc.hyps(2) i next_it(1) by simp
  moreover have "drop i (siEntries it) = ?e # drop (Suc i) (siEntries it)" by (rule Cons_nth_drop_Suc [OF i, symmetric])
  ultimately show ?case
    using next_it(2,3) by (subst flush_loop.simps) (simp split: prod.splits option.splits)
qed

section \<open>The table written\<close>

text \<open>The memtable can be written: its entries fit, and the filter is not absurdly large.\<close>

definition flushable :: "Options \<Rightarrow> MemTable \<Rightarrow> bool" where
  "flushable opts mem \<longleftrightarrow> storable_run (mem_entries mem) \<and>
     bfBits (NewBloomFilter (ogBloomBits opts) (ogBloomK opts) (EntryCount mem)) < 2 ^ 35"

lemma flushable_Mark [simp]: "flushable opts (MarkImmutable mem) = flushable opts mem"
  by (simp add: flushable_def)

lemma build_table_spec:
  assumes mem: "mem_ok mem" "mem_entries mem \<noteq> []" "flushable (stOpts st) mem"
    and res: "build_table E tid mem st = (Inr meta, st')"
  shows "\<exists>files. st' = set_table tid files (st\<lparr>stFlushBytes := stFlushBytes st + mdDataSize meta\<rparr>) \<and>
    files_hold files meta (mem_entries mem)"
proof -
  let ?es = "mem_entries mem" and ?io = "evTableIO E tid"
  obtain b where b: "NewBuilder ?io (flush_opts (stOpts st) tid mem) (stTables st tid) = Inr b"
    using res by (auto simp: build_table_def split: sum.splits)
  obtain b1 where b1: "flush_loop ?io \<lparr>siEntries = ?es, siIdx = 0\<rparr> b = (None, b1)"
    using res b mem_iterator [OF mem(1)] by (auto simp: build_table_def split: prod.splits option.splits)
  obtain b2 where b2: "Finish ?io (evTableNow E tid) b1 = (Inr meta, b2)"
    "st' = set_table tid (bFiles b2) (st\<lparr>stFlushBytes := stFlushBytes st + mdDataSize meta\<rparr>)"
    using res b b1 mem_iterator [OF mem(1)] by (auto simp: build_table_def split: prod.splits sum.splits)
  have "Builder_Adds ?io ?es b = (None, b1)"
    using b1 flush_loop_adds [of "\<lparr>siEntries = ?es, siIdx = 0\<rparr>" 0 ?io b] by simp
  then have adds: "Builder_Adds (\<lambda>_. True) ?es b = (None, b1)" by (rule Builder_Adds_mono)
  note new = NewBuilder_mono [OF b]
  have inv: "builder_inv (bfBits (bBloom b)) b [] []" "\<not> bClosed b"
    using New_inv [of "\<lambda>_. True" "flush_opts (stOpts st) tid mem" "stTables st tid"] new by auto
  have "0 < EntryCount mem" using EntryCount_entries [OF mem(1)] mem(2) by simp
  then have bits: "bfBits (bBloom b) < 2 ^ 35"
    using new mem(3) by (auto simp: NewBuilder_def Let_def flush_opts_def flushable_def split: if_splits)
  have run: "storable_run ?es" using mem(3) by (simp add: flushable_def)
  obtain b1' bs cur where "Builder_Adds (\<lambda>_. True) ?es b = (None, b1')"
    "builder_inv (bfBits (bBloom b)) b1' bs cur" "concat bs @ cur = ?es" "\<not> bClosed b1'"
    using Adds_inv [OF inv(1) _ inv(2), of "\<lambda>_. True" ?es] run by (auto simp: storable_run_def)
  with adds have i1: "builder_inv (bfBits (bBloom b)) b1 bs cur" "concat bs @ cur = ?es" "\<not> bClosed b1"
    by simp_all
  then show ?thesis
    using Finish_holds [OF i1(1) _ i1(3) _ bits, of "\<lambda>_. True" "evTableNow E tid"] Finish_mono [OF b2(1)] b2(2) run
    by auto
qed

lemma reader_ok_bypass [simp]:
  "reader_ok (SetBypassBloom b r) = reader_ok r" "table_entries (SetBypassBloom b r) = table_entries r"
  "covers (SetBypassBloom b r) = covers r" "rdMeta (SetBypassBloom b r) = rdMeta r"
proof -
  have blk: "block_of (SetBypassBloom b r) = block_of r" by (intro ext) (simp add: block_of_def SetBypassBloom_def)
  then show ents: "table_entries (SetBypassBloom b r) = table_entries r"
    by (simp add: table_entries_def blocks_of_def SetBypassBloom_def)
  show "covers (SetBypassBloom b r) = covers r" "rdMeta (SetBypassBloom b r) = rdMeta r"
    by (auto simp: covers_def SetBypassBloom_def)
  show "reader_ok (SetBypassBloom b r) = reader_ok r"
    using ents by (simp add: reader_ok_def table_ok_def lookup_ok_def) (simp add: SetBypassBloom_def)
qed

lemma files_hold_reader:
  assumes "files_hold files meta es" "es \<noteq> []" "storable_run es" "OpenReader tid files = Inr r"
  shows "reader_ok r" "table_entries r = map nil_empty es" "rdMeta r = meta"
    "mdMinKey meta = Key (hd es)" "mdMaxKey meta = Key (last es)"
proof -
  obtain r' where "OpenReader tid files = Inr r'" "rdMeta r' = meta" "table_ok r'" "lookup_ok r'"
    "table_entries r' = map nil_empty es"
    using assms(1) unfolding files_hold_def by blast
  then have ok: "table_ok r" "lookup_ok r" and r: "table_entries r = map nil_empty es" "rdMeta r = meta"
    using assms(4) by simp_all
  have m: "mdMinKey meta = Key (hd es)" "mdMaxKey meta = Key (last es)"
    using assms(1,2) by (simp_all add: files_hold_def)
  show "table_entries r = map nil_empty es" "rdMeta r = meta"
    "mdMinKey meta = Key (hd es)" "mdMaxKey meta = Key (last es)"
    by (fact r m)+
  show "reader_ok r" using ok m
    using r assms(2,3) by (auto simp: reader_ok_def hd_map last_map storable_run_def)
qed

section \<open>Adding a table to level 0\<close>

lemma levels_ok_add0:
  assumes ok: "levels_ok readers levels" and fresh: "\<forall>l. tid \<notin> set (levels l)" and r: "reader_ok r"
  shows "levels_ok (readers(tid \<mapsto> r)) (levels(0 := levels 0 @ [tid]))"
proof -
  have same: "(readers(tid \<mapsto> r)) t = readers t" if "t \<in> set (levels l)" for t l using fresh that by auto
  have "readers_ok (readers(tid \<mapsto> r)) (levels l)" for l
  proof -
    have "readers_ok readers (levels l)" using ok by (simp add: levels_ok_def)
    then show ?thesis by (simp add: readers_ok_def same del: fun_upd_apply)
  qed
  moreover have "apart (readers(tid \<mapsto> r)) (levels l)" if l: "1 \<le> l" for l
  proof -
    have "apart readers (levels l)" using ok l by (simp add: levels_ok_def)
    then show ?thesis unfolding apart_def
      by (rule sorted_wrt_mono_rel [rotated]) (simp add: same del: fun_upd_apply)
  qed
  ultimately show ?thesis
    using ok fresh r by (auto simp: levels_ok_def readers_ok_def)
qed

lemma table_run_other: "tid \<notin> set tids \<Longrightarrow> map (table_run (readers(tid := x))) tids = map (table_run readers) tids"
  by (induction tids) (auto simp: table_run_def)

lemma flush_edit_levels:
  "apply_edit \<lparr>AddedTables = [\<lparr>tmID = tid, tmLevel = 0\<rparr>], DeletedTables = []\<rparr> levels =
    levels(0 := levels 0 @ [tid])"
  by (auto simp: apply_edit_def fun_eq_iff)

lemma install_spec:
  assumes laws: "manifest_laws M used" and st: "store_ok M used st0"
    and fresh: "tid \<notin> used (stManifest st0)" "used m1 = insert tid (used (stManifest st0))"
      "mfGetLevelTables M m1 = mfGetLevelTables M (stManifest st0)"
    and apply_ok: "mfLogAndApply M \<lparr>AddedTables = [\<lparr>tmID = tid, tmLevel = 0\<rparr>], DeletedTables = []\<rparr> m1 = (True, m2)"
    and r: "reader_ok r"
    and fr: "stReaders st = stReaders st0" "stLevelTables st = stLevelTables st0" "stManifest st = m2"
  shows "store_ok M used (install_table M tid r st)"
    "store_runs (install_table M tid r st) = table_entries r # store_runs st0"
proof -
  define L where "L = mfGetLevelTables M (stManifest st0)"
  have lv: "mfGetLevelTables M m2 = L(0 := L 0 @ [tid])"
    using manifest_apply(1) [OF laws apply_ok] fresh(3) by (simp add: flush_edit_levels L_def)
  have used: "used m2 = insert tid (used (stManifest st0))"
    using manifest_apply(2) [OF laws apply_ok] fresh(2) by simp
  have notin: "\<forall>l. tid \<notin> set (L l)" using st fresh(1) by (auto simp: store_ok_def L_def)
  define r' where "r' = (if stBypassBloom st then SetBypassBloom True r else r)"
  have r': "reader_ok r'" "table_entries r' = table_entries r" using r by (simp_all add: r'_def)
  let ?st = "install_table M tid r st"
  have parts: "stReaders ?st = (stReaders st0)(tid \<mapsto> r')" "stManifest ?st = m2"
    "stLevelTables ?st = (\<lambda>l. if 0 \<le> l \<and> l < 7 then mfGetLevelTables M m2 l else [])"
    using fr by (auto simp: install_table_def Let_def updateLevelTables_def triggerCompaction_def r'_def)
  have "levels_ok (stReaders st0) L" using st by (simp add: store_ok_def L_def)
  from levels_ok_add0 [OF this notin r'(1)]
  show "store_ok M used ?st"
    using st by (auto simp: store_ok_def parts lv used L_def)
  have lt: "stLevelTables st0 l = L l" if "0 \<le> l" "l < 7" for l
    using st that by (simp add: store_ok_def L_def)
  have l0: "map (table_run (stReaders ?st)) (rev (stLevelTables ?st 0)) =
      table_entries r # map (table_run (stReaders st0)) (rev (stLevelTables st0 0))"
    using notin table_run_other [of tid "rev (L 0)" "stReaders st0" "Some r'"] r'(2)
    by (simp add: parts lv lt table_run_def [of _ tid])
  have "map (table_run (stReaders ?st)) (stLevelTables ?st l) =
      map (table_run (stReaders st0)) (stLevelTables st0 l)" if "l \<in> set [1..6]" for l
    using that notin table_run_other [of tid "L l" "stReaders st0" "Some r'"]
    by (simp add: parts lv lt del: upto_rec_numeral)
  then have "concat (map (\<lambda>l. map (table_run (stReaders ?st)) (stLevelTables ?st l)) [1..6]) =
      concat (map (\<lambda>l. map (table_run (stReaders st0)) (stLevelTables st0 l)) [1..6])"
    by (intro arg_cong [of _ _ concat] map_cong [OF refl]) (simp del: upto_rec_numeral)
  then show "store_runs ?st = table_entries r # store_runs st0"
    unfolding store_runs_def l0 by (simp only: append_Cons)
qed

section \<open>The flush of a memtable\<close>

lemma build_table_frame:
  assumes "build_table E tid mem st = (res, st')"
  shows "stReaders st' = stReaders st" "stLevelTables st' = stLevelTables st" "stManifest st' = stManifest st"
    "stOpts st' = stOpts st" "stWals st' = stWals st" "Store.more st' = Store.more st"
    "stBypassBloom st' = stBypassBloom st"
  using assms by (auto simp: build_table_def set_table_def split: sum.splits option.splits prod.splits)

text \<open>
  On success the memtable's entries are the first run of the store, an empty memtable adds none;
  on an error the store's runs are as before.
\<close>

lemma flushMemTableDirect_spec:
  assumes laws: "manifest_laws M used" and st: "store_ok M used st" and mem: "mem_ok mem" "flushable (stOpts st) mem"
    and room: "used (stManifest st) \<noteq> UNIV"
    and res: "flushMemTableDirect M E mem st = (r, st')"
  shows "store_ok M used st'"
    "store_runs st' = (if r = None \<and> mem_entries mem \<noteq> [] then [map nil_empty (mem_entries mem)] else []) @ store_runs st"
    "stOpts st' = stOpts st" "stWals st' = stWals st" "Store.more st' = Store.more st"
proof -
  have "store_ok M used st' \<and>
    store_runs st' = (if r = None \<and> mem_entries mem \<noteq> [] then [map nil_empty (mem_entries mem)] else []) @ store_runs st \<and>
    stOpts st' = stOpts st \<and> stWals st' = stWals st \<and> Store.more st' = Store.more st"
  proof (cases "EntryCount mem = 0")
    case True
    then show ?thesis
      using res st EntryCount_entries [OF mem(1)] by (simp add: flushMemTableDirect_def)
  next
    case False
    then have ne: "mem_entries mem \<noteq> []" using EntryCount_entries [OF mem(1)] by simp
    obtain tid m1 where id: "mfNextID M (stManifest st) = (tid, m1)" by fastforce
    note m1 = manifest_NextID [OF laws id]
    obtain br st1 where b: "build_table E tid mem (st\<lparr>stManifest := m1\<rparr>) = (br, st1)" by fastforce
    note fr = build_table_frame [OF b]
    have ok1: "store_ok M used st1"
      by (rule store_ok_cong [OF _ _ _ _ st]) (use fr m1(1,2) in \<open>simp_all add: subset_insertI\<close>)
    have run1: "store_runs st1 = store_runs st" by (rule store_runs_cong) (use fr in simp_all)
    show ?thesis
    proof (cases br)
      case (Inl err)
      then have "r = Some err" "st' = st1" using res False id b by (simp_all add: flushMemTableDirect_def)
      then show ?thesis using ok1 run1 fr by simp
    next
      case (Inr meta)
      obtain files where st1: "st1 = set_table tid files (st\<lparr>stManifest := m1, stFlushBytes := stFlushBytes st + mdDataSize meta\<rparr>)"
        "files_hold files meta (mem_entries mem)"
        using build_table_spec [OF mem(1) ne _ b [unfolded Inr]] mem(2) by auto
      obtain reader where reader: "OpenReader tid files = Inr reader"
        using st1(2) by (auto simp: files_hold_def)
      have run: "storable_run (mem_entries mem)" using mem(2) by (simp add: flushable_def)
      note rok = files_hold_reader [OF st1(2) ne run reader]
      obtain ok m2 where ap: "mfLogAndApply M \<lparr>AddedTables = [\<lparr>tmID = tid, tmLevel = 0\<rparr>], DeletedTables = []\<rparr> m1 = (ok, m2)"
        by fastforce
      have tab: "stTables st1 tid = files" by (simp add: st1(1) set_table_def)
      have man: "stManifest st1 = m1" using fr by simp
      show ?thesis
      proof (cases ok)
        case True
        then have eq: "r = None" "st' = install_table M tid reader (st1\<lparr>stManifest := m2\<rparr>)"
          using res False id b Inr ap tab reader man by (simp_all add: flushMemTableDirect_def)
        have ap': "mfLogAndApply M \<lparr>AddedTables = [\<lparr>tmID = tid, tmLevel = 0\<rparr>], DeletedTables = []\<rparr> m1 = (True, m2)"
          using ap True by simp
        have "store_ok M used st' \<and> store_runs st' = table_entries reader # store_runs st"
          unfolding eq
          using install_spec [OF laws st _ m1(2,1) ap' rok(1), of "st1\<lparr>stManifest := m2\<rparr>"] fr room m1(3)
          by simp
        then show ?thesis
          using eq(1) ne rok(2) fr
          by (simp add: eq(2) install_table_def Let_def updateLevelTables_def triggerCompaction_def)
      next
        case False': False
        then have eq: "r = Some ManifestFailed" "st' = st1\<lparr>stManifest := m2\<rparr>"
          using res False id b Inr ap tab reader man by (simp_all add: flushMemTableDirect_def)
        have "mfLogAndApply M \<lparr>AddedTables = [\<lparr>tmID = tid, tmLevel = 0\<rparr>], DeletedTables = []\<rparr> m1 = (False, m2)"
          using ap False' by simp
        note refused = manifest_refused [OF laws this]
        have "store_ok M used st'" unfolding eq
          by (rule store_ok_cong [OF _ _ _ _ st]) (use refused fr m1(1,2) in \<open>simp_all add: subset_insertI\<close>)
        moreover have "store_runs st' = store_runs st" unfolding eq by (rule store_runs_cong) (use fr in simp_all)
        ultimately show ?thesis using eq fr by simp
      qed
    qed
  qed
  then show "store_ok M used st'"
    "store_runs st' = (if r = None \<and> mem_entries mem \<noteq> [] then [map nil_empty (mem_entries mem)] else []) @ store_runs st"
    "stOpts st' = stOpts st" "stWals st' = stWals st" "Store.more st' = Store.more st" by blast+
qed


section \<open>Flushes succeed\<close>

lemma build_table_works:
  assumes mem: "mem_ok mem" "mem_entries mem \<noteq> []" "flushable (stOpts st) mem" and io: "\<forall>x. evTableIO E tid x"
  shows "\<exists>meta st'. build_table E tid mem st = (Inr meta, st')"
proof -
  let ?es = "mem_entries mem" and ?io = "evTableIO E tid"
  obtain b where b: "NewBuilder ?io (flush_opts (stOpts st) tid mem) (stTables st tid) = Inr b"
    "builder_inv (bfBits (bBloom b)) b [] []" "\<not> bClosed b"
    using New_inv [of ?io] io by blast
  have "0 < EntryCount mem" using EntryCount_entries [OF mem(1)] mem(2) by simp
  then have bits: "bfBits (bBloom b) < 2 ^ 35"
    using b(1) mem(3) by (auto simp: NewBuilder_def Let_def flush_opts_def flushable_def split: if_splits)
  have run: "storable_run ?es" using mem(3) by (simp add: flushable_def)
  obtain b1 bs cur where b1: "Builder_Adds ?io ?es b = (None, b1)"
    "builder_inv (bfBits (bBloom b)) b1 bs cur" "concat bs @ cur = ?es" "\<not> bClosed b1"
    using Adds_inv [OF b(2) io b(3), of ?es] run by (auto simp: storable_run_def)
  obtain b2 meta where b2: "Finish ?io (evTableNow E tid) b1 = (Inr meta, b2)"
    using Finish_holds [OF b1(2) io b1(4) _ bits, of "evTableNow E tid"] run b1(3) by auto
  have "flush_loop ?io \<lparr>siEntries = ?es, siIdx = 0\<rparr> b = (None, b1)"
    using b1(1) flush_loop_adds [of "\<lparr>siEntries = ?es, siIdx = 0\<rparr>" 0 ?io b] by simp
  then show ?thesis using b(1) b2 mem_iterator [OF mem(1)] by (simp add: build_table_def)
qed

lemma flushMemTableDirect_works:
  assumes mem: "mem_ok mem" "flushable (stOpts st) mem" and io: "\<forall>tid x. evTableIO E tid x"
    and ap: "\<forall>edit m. fst (mfLogAndApply M edit m)"
  shows "fst (flushMemTableDirect M E mem st) = None"
proof (cases "EntryCount mem = 0")
  case False
  then have ne: "mem_entries mem \<noteq> []" using EntryCount_entries [OF mem(1)] by simp
  obtain tid m1 where id: "mfNextID M (stManifest st) = (tid, m1)" by fastforce
  have fits: "flushable (stOpts (st\<lparr>stManifest := m1\<rparr>)) mem" using mem(2) by simp
  obtain meta st1 where b: "build_table E tid mem (st\<lparr>stManifest := m1\<rparr>) = (Inr meta, st1)"
    using build_table_works [OF mem(1) ne fits] io by blast
  obtain files where "stTables st1 tid = files" "files_hold files meta (mem_entries mem)"
    using build_table_spec [OF mem(1) ne fits b] by (auto simp: set_table_def)
  then obtain reader where r: "OpenReader tid (stTables st1 tid) = Inr reader" by (auto simp: files_hold_def)
  obtain ok m2 where "mfLogAndApply M \<lparr>AddedTables = [\<lparr>tmID = tid, tmLevel = 0\<rparr>], DeletedTables = []\<rparr>
      (stManifest st1) = (ok, m2)" by fastforce
  moreover have "ok" using ap calculation by (metis fst_conv)
  ultimately show ?thesis using False id b r by (simp add: flushMemTableDirect_def)
qed (simp add: flushMemTableDirect_def)

end
