(* ===== verification/EngineSteps.thy ===== *)
theory EngineSteps
  imports EngineFlush
begin

text \<open>
  The engine as a state machine: writes and reads of clients interleaved with the steps of the
  background flush, against an abstract map.
\<close>

section \<open>Dropping a flushed memtable\<close>

text \<open>The values seen through runs do not change when an empty value becomes nil.\<close>

lemma version_nil_empty: "version [map nil_empty es] k = map_option nil_empty (version [es] k)"
  by (simp add: version_def) (induction es, auto)

lemma value_of_nil_empty [simp]: "value_of (map_option nil_empty x) = value_of x"
  by (cases x) (auto simp: value_of_def nil_empty_def IsTombstone_def contents_def split: option.splits)

lemma view_Cons: "view (x # runs) k = (case version [x] k of None \<Rightarrow> view runs k | found \<Rightarrow> value_of found)"
  using version_Cons [of x runs k] by (simp add: view_def split: option.splits)

lemma view_nil_empty: "view (map nil_empty es # runs) = view (es # runs)"
proof
  fix k
  show "view (map nil_empty es # runs) k = view (es # runs) k"
    using value_of_nil_empty [of "version [es] k"]
    by (cases "version [es] k") (simp_all add: view_Cons version_nil_empty)
qed

lemma view_Nil [simp]: "view ([] # runs) = view runs"
  by (rule ext) (simp add: view_def)

text \<open>The runs behind the immutable memtable already say what it says.\<close>

definition written_behind :: "MemTable \<Rightarrow> ('m, 'z) Store_scheme \<Rightarrow> bool" where
  "written_behind imm st \<longleftrightarrow> view (mem_entries imm # store_runs st) = view (store_runs st)"

lemma view_idem: "view (x # x # runs) = view (x # runs)"
  by (auto simp: view_Cons fun_eq_iff split: option.splits)

lemma view_Cons_cong: "view runs = view runs' \<Longrightarrow> view (x # runs) = view (x # runs')"
  by (auto simp: view_Cons fun_eq_iff split: option.splits)

lemma engine_view_runs:
  "engine_view e = view (mem_entries (egActiveMem e) #
     (case egImmMem e of None \<Rightarrow> [] | Some imm \<Rightarrow> [mem_entries imm]) @ store_runs e)"
  by (simp add: engine_runs_def mem_runs_def)

section \<open>The parts of a flush\<close>

lemma Store_more_engine:
  fixes e e' :: "'m Engine"
  assumes "Store.more e' = Store.more e"
  shows "egActiveWAL e' = egActiveWAL e" "egActiveMem e' = egActiveMem e" "egImmMem e' = egImmMem e"
    "egCompactor e' = egCompactor e" "egClosed e' = egClosed e" "egFlushSignal e' = egFlushSignal e"
  using assms by (cases e; cases e'; simp)+

lemma flush_write_spec:
  assumes laws: "manifest_laws M used" and ok: "engine_ok M used e" and imm: "egImmMem e = Some imm"
    and fits: "flushable (stOpts e) imm" and room: "used (stManifest e) \<noteq> UNIV"
    and res: "flushMemTableDirect M E imm e = (r, e')"
  shows "engine_ok M used e'" "egImmMem e' = Some imm" "engine_view e' = engine_view e"
    "r = None \<Longrightarrow> written_behind imm e'" "egClosed e' = egClosed e" "stOpts e' = stOpts e"
    "egActiveMem e' = egActiveMem e"
proof -
  have mem: "mem_ok imm" using ok imm by (simp add: engine_ok_def mems_ok_def)
  note fl = flushMemTableDirect_spec [OF laws _ mem fits room res]
  have st: "store_ok M used e" using ok by (simp add: engine_ok_def)
  note mo = Store_more_engine [OF fl(5) [OF st]]
  show "engine_ok M used e'" using fl(1) [OF st] ok mo by (simp add: engine_ok_def mems_ok_def)
  show "egImmMem e' = Some imm" "egClosed e' = egClosed e" "stOpts e' = stOpts e"
    "egActiveMem e' = egActiveMem e"
    using mo imm fl(3) [OF st] by simp_all
  show behind: "written_behind imm e'" if "r = None"
  proof (cases "mem_entries imm = []")
    case True
    then show ?thesis by (simp add: written_behind_def)
  next
    case False
    then have "store_runs e' = map nil_empty (mem_entries imm) # store_runs e" using fl(2) [OF st] that by simp
    then show ?thesis unfolding written_behind_def
      by (simp only: view_nil_empty view_idem view_Cons_cong [OF view_nil_empty])
  qed
  have front: "view (mem_entries imm # store_runs e') = view (mem_entries imm # store_runs e)"
  proof (cases "r = None \<and> mem_entries imm \<noteq> []")
    case True
    then have "store_runs e' = map nil_empty (mem_entries imm) # store_runs e" using fl(2) [OF st] by simp
    then show ?thesis by (simp only: view_Cons_cong [OF view_nil_empty] view_idem)
  next
    case False
    then have "store_runs e' = store_runs e" using fl(2) [OF st] by auto
    then show ?thesis by simp
  qed
  then show "engine_view e' = engine_view e"
    using mo imm by (simp add: engine_view_runs view_Cons_cong [OF front])
qed

lemma flush_commit_spec:
  assumes laws: "manifest_laws M used" and ok: "engine_ok M used e" and imm: "egImmMem e = Some imm"
    and behind: "written_behind imm e" and res: "flush_commit M E e = (hasMore, e')"
  shows "engine_ok M used e'" "engine_view e' = engine_view e" "egClosed e' = egClosed e" "stOpts e' = stOpts e"
    "hasMore = ShouldFlush (egActiveMem e)"
    "egImmMem e' = (if hasMore then Some (MarkImmutable (egActiveMem e)) else None)"
proof -
  let ?e1 = "e\<lparr>egImmMem := None\<rparr>"
  have e1: "engine_ok M used ?e1" using ok by (simp add: engine_ok_def store_ok_def mems_ok_def)
  then have st: "store_ok M used ?e1" "mem_ok (egActiveMem ?e1)" by (simp_all add: engine_ok_def mems_ok_def)
  have runs1: "store_runs ?e1 = store_runs e" by (simp add: store_runs_def)
  have v1: "engine_view ?e1 = engine_view e"
    using view_Cons_cong [OF behind [unfolded written_behind_def], of "mem_entries (egActiveMem e)"] imm runs1
    by (simp add: engine_view_runs)
  have rot: "engine_view (rotateMemTable M E ?e1) = engine_view ?e1"
    by (rule ext) (simp add: view_def rotate_version [OF laws st] engine_runs_def [of ?e1] mem_runs_def)
  show "engine_ok M used e'" "engine_view e' = engine_view e" "egClosed e' = egClosed e" "stOpts e' = stOpts e"
    "hasMore = ShouldFlush (egActiveMem e)"
    "egImmMem e' = (if hasMore then Some (MarkImmutable (egActiveMem e)) else None)"
    using res rot v1 e1 rotate_ok [OF laws e1, of E] rotate_spec(3,6,7) [OF laws st, of E]
    by (auto simp: flush_commit_def Let_def split: if_splits)
qed

lemma flush_done_frame:
  "engine_ok M used (flush_done E imm hasMore e) = engine_ok M used e"
  "engine_runs (flush_done E imm hasMore e) = engine_runs e"
  "egImmMem (flush_done E imm hasMore e) = egImmMem e" "egClosed (flush_done E imm hasMore e) = egClosed e"
  "store_runs (flush_done E imm hasMore e) = store_runs e"
  "stOpts (flush_done E imm hasMore e) = stOpts e" "egActiveMem (flush_done E imm hasMore e) = egActiveMem e"
  by (auto simp: flush_done_def Let_def triggerFlush_def remove_wal_def engine_ok_def store_ok_def mems_ok_def
      engine_runs_def mem_runs_def store_runs_def)

text \<open>The whole of \<open>flushImmutable\<close>, when nothing comes between its parts.\<close>

lemma flushImmutable_spec:
  assumes laws: "manifest_laws M used" and ok: "engine_ok M used e"
    and fits: "\<forall>imm. egImmMem e = Some imm \<longrightarrow> flushable (stOpts e) imm" and room: "used (stManifest e) \<noteq> UNIV"
    and res: "flushImmutable M E e = (r, e')"
  shows "engine_ok M used e'" "engine_view e' = engine_view e" "egClosed e' = egClosed e" "stOpts e' = stOpts e"
    "r = None \<Longrightarrow> egImmMem e \<noteq> None \<Longrightarrow>
       egImmMem e' = (if ShouldFlush (egActiveMem e) then Some (MarkImmutable (egActiveMem e)) else None)"
    "egImmMem e = None \<Longrightarrow> r = None \<and> e' = e"
proof -
  have "engine_ok M used e' \<and> engine_view e' = engine_view e \<and> egClosed e' = egClosed e \<and> stOpts e' = stOpts e \<and>
    (r = None \<longrightarrow> egImmMem e \<noteq> None \<longrightarrow>
       egImmMem e' = (if ShouldFlush (egActiveMem e) then Some (MarkImmutable (egActiveMem e)) else None)) \<and>
    (egImmMem e = None \<longrightarrow> r = None \<and> e' = e)"
  proof (cases "egImmMem e")
    case None
    then show ?thesis using res ok by (simp add: flushImmutable_def)
  next
    case (Some imm)
    obtain fr e1 where fr: "flushMemTableDirect M E imm e = (fr, e1)" by fastforce
    note w = flush_write_spec [OF laws ok Some _ room fr]
    have fits': "flushable (stOpts e) imm" using fits Some by simp
    show ?thesis
    proof (cases fr)
      case (Some err)
      then have "r = Some err" "e' = e1" using res fr \<open>egImmMem e = Some imm\<close> by (simp_all add: flushImmutable_def)
      then show ?thesis using \<open>egImmMem e = Some imm\<close> w [OF fits'] by simp
    next
      case None
      obtain hasMore e2 where c: "flush_commit M E e1 = (hasMore, e2)" by fastforce
      have "r = None" "e' = flush_done E imm hasMore e2"
        using res fr None c \<open>egImmMem e = Some imm\<close> by (simp_all add: flushImmutable_def)
      then show ?thesis
        using flush_commit_spec [OF laws w(1,2) [OF fits'] w(4) [OF fits' None] c] w [OF fits'] \<open>egImmMem e = Some imm\<close>
        by (simp add: flush_done_frame)
    qed
  qed
  then show "engine_ok M used e'" "engine_view e' = engine_view e" "egClosed e' = egClosed e" "stOpts e' = stOpts e"
    "r = None \<Longrightarrow> egImmMem e \<noteq> None \<Longrightarrow>
       egImmMem e' = (if ShouldFlush (egActiveMem e) then Some (MarkImmutable (egActiveMem e)) else None)"
    "egImmMem e = None \<Longrightarrow> r = None \<and> e' = e" by blast+
qed

section \<open>The state machine\<close>

text \<open>
  Where the background flush stands. It holds the engine's lock in its first and its third part only;
  \<open>flushMemTableDirect\<close> reads the immutable memtable, which nobody changes, and shows its result
  to readers at one moment under the readers' lock, so it is one step. Every call has an environment
  of its own out of \<open>envs\<close>.
\<close>

datatype flush_pc = FlushIdle | FlushWriting MemTable | FlushWritten MemTable | FlushRemoving MemTable bool

datatype engine_event =
    EvPut bytes slice "engine_error option" | EvDelete bytes "engine_error option"
  | EvGet bytes "engine_error + slice" | EvBypass bool | EvFlush

inductive engine_step ::
  "'m Manifest \<Rightarrow> ('m \<Rightarrow> uint64 set) \<Rightarrow> engine_env set \<Rightarrow> 'm Engine \<times> flush_pc \<Rightarrow> engine_event
     \<Rightarrow> 'm Engine \<times> flush_pc \<Rightarrow> bool"
  for M used envs where
  put: "Put M E key v e = (r, e') \<Longrightarrow> E \<in> envs \<Longrightarrow> engine_step M used envs (e, pc) (EvPut key v r) (e', pc)"
| delete: "Delete M E key e = (r, e') \<Longrightarrow> E \<in> envs \<Longrightarrow> engine_step M used envs (e, pc) (EvDelete key r) (e', pc)"
| get: "Get key e = (r, e') \<Longrightarrow> engine_step M used envs (e, pc) (EvGet key r) (e', pc)"
| bypass: "engine_step M used envs (e, pc) (EvBypass b) (Engine_SetBypassBloom b e, pc)"
| begin_flush: "egImmMem e = Some imm \<Longrightarrow> engine_step M used envs (e, FlushIdle) EvFlush (e, FlushWriting imm)"
| write_table: "flushable (stOpts e) imm \<Longrightarrow> used (stManifest e) \<noteq> UNIV \<Longrightarrow>
    flushMemTableDirect M E imm e = (None, e') \<Longrightarrow> E \<in> envs \<Longrightarrow>
    engine_step M used envs (e, FlushWriting imm) EvFlush (e', FlushWritten imm)"
| write_failed: "flushable (stOpts e) imm \<Longrightarrow> used (stManifest e) \<noteq> UNIV \<Longrightarrow>
    flushMemTableDirect M E imm e = (Some err, e') \<Longrightarrow> E \<in> envs \<Longrightarrow>
    engine_step M used envs (e, FlushWriting imm) EvFlush (e', FlushIdle)"
| commit: "flush_commit M E e = (hasMore, e') \<Longrightarrow> E \<in> envs \<Longrightarrow>
    engine_step M used envs (e, FlushWritten imm) EvFlush (e', FlushRemoving imm hasMore)"
| remove: "E \<in> envs \<Longrightarrow>
    engine_step M used envs (e, FlushRemoving imm hasMore) EvFlush (flush_done E imm hasMore e, FlushIdle)"

inductive engine_run ::
  "'m Manifest \<Rightarrow> ('m \<Rightarrow> uint64 set) \<Rightarrow> engine_env set \<Rightarrow> 'm Engine \<times> flush_pc \<Rightarrow> engine_event list
     \<Rightarrow> 'm Engine \<times> flush_pc \<Rightarrow> bool"
  for M used envs s where
  run_start: "engine_run M used envs s [] s"
| run_step: "engine_run M used envs s evs s' \<Longrightarrow> engine_step M used envs s' ev s'' \<Longrightarrow>
    engine_run M used envs s (evs @ [ev]) s''"

text \<open>The abstract map: a write without an error updates it, and a read returns its value.\<close>

fun map_step :: "engine_event \<Rightarrow> (bytes \<Rightarrow> bytes option) \<Rightarrow> (bytes \<Rightarrow> bytes option)" where
  "map_step (EvPut key v None) m = m(key \<mapsto> contents v)"
| "map_step (EvDelete key None) m = m(key := None)"
| "map_step _ m = m"

definition map_answer :: "bytes \<Rightarrow> (bytes \<Rightarrow> bytes option) \<Rightarrow> engine_error + bytes" where
  "map_answer key m =
     (if key = [] then Inl EmptyKey else case m key of None \<Rightarrow> Inl KeyNotFound | Some v \<Rightarrow> Inr v)"

definition answers :: "(bytes \<Rightarrow> bytes option) \<Rightarrow> engine_event \<Rightarrow> bool" where
  "answers m ev = (case ev of EvGet key r \<Rightarrow> map_sum (\<lambda>err. err) contents r = map_answer key m | _ \<Rightarrow> True)"

fun all_answer :: "(bytes \<Rightarrow> bytes option) \<Rightarrow> engine_event list \<Rightarrow> bool" where
  "all_answer m [] = True"
| "all_answer m (ev # evs) \<longleftrightarrow> answers m ev \<and> all_answer (map_step ev m) evs"

section \<open>The invariant\<close>

definition machine_ok :: "'m Manifest \<Rightarrow> ('m \<Rightarrow> uint64 set) \<Rightarrow> 'm Engine \<times> flush_pc \<Rightarrow> bool" where
  "machine_ok M used s \<longleftrightarrow>
     (case s of (e, pc) \<Rightarrow>
        engine_ok M used e \<and> \<not> egClosed e \<and>
        (case pc of
           FlushWriting imm \<Rightarrow> egImmMem e = Some imm
         | FlushWritten imm \<Rightarrow> egImmMem e = Some imm \<and> written_behind imm e
         | _ \<Rightarrow> True))"

text \<open>A write does not touch the immutable memtable or the tables while there is one.\<close>

lemma flush_if_full_imm:
  "egImmMem e = Some imm \<Longrightarrow>
    egImmMem (flush_if_full M E e) = Some imm \<and> store_runs (flush_if_full M E e) = store_runs e"
  by (simp add: flush_if_full_def Let_def triggerFlush_def store_runs_def)

lemma write_entry_imm:
  assumes "write_entry entry e = (r, e')"
  shows "egImmMem e' = egImmMem e \<and> store_runs e' = store_runs e"
  using assms by (auto simp: write_entry_def store_runs_def split: prod.splits option.splits)

lemma Put_imm:
  assumes "Put M E key v e = (r, e')" "egImmMem e = Some imm"
  shows "egImmMem e' = Some imm \<and> store_runs e' = store_runs e"
proof -
  obtain wr e1 where w: "write_entry (NewPutEntry (evNow E) key v) e = (wr, e1)" by fastforce
  have e1: "egImmMem e1 = Some imm" "store_runs e1 = store_runs e" using write_entry_imm [OF w] assms(2) by simp_all
  let ?e2 = "e1\<lparr>egPuts := egPuts e1 + 1, egLogicalBytes := egLogicalBytes e1 + int (length key + length (contents v)),
    egWalBytes := egWalBytes e1 + (8 + 8 + 1 + 2 + 4 + int (length key + length (contents v)))\<rparr>"
  have "egImmMem ?e2 = Some imm" "store_runs ?e2 = store_runs e" using e1 by (simp_all add: store_runs_def)
  then show ?thesis using assms w e1 flush_if_full_imm [of ?e2 imm M E]
    by (auto simp: Put_def Let_def split: if_splits option.splits)
qed

lemma Delete_imm:
  assumes "Delete M E key e = (r, e')" "egImmMem e = Some imm"
  shows "egImmMem e' = Some imm \<and> store_runs e' = store_runs e"
proof -
  obtain wr e1 where w: "write_entry (NewDeleteEntry (evNow E) key) e = (wr, e1)" by fastforce
  have e1: "egImmMem e1 = Some imm" "store_runs e1 = store_runs e" using write_entry_imm [OF w] assms(2) by simp_all
  let ?e2 = "e1\<lparr>egDeletes := egDeletes e1 + 1, egLogicalBytes := egLogicalBytes e1 + int (length key),
    egWalBytes := egWalBytes e1 + (8 + 8 + 1 + 2 + 4 + int (length key))\<rparr>"
  have "egImmMem ?e2 = Some imm" "store_runs ?e2 = store_runs e" using e1 by (simp_all add: store_runs_def)
  then show ?thesis using assms w e1 flush_if_full_imm [of ?e2 imm M E]
    by (auto simp: Delete_def Let_def split: if_splits option.splits)
qed


lemma bypass_frame:
  "engine_ok M used (Engine_SetBypassBloom b e) = engine_ok M used e"
  "engine_runs (Engine_SetBypassBloom b e) = engine_runs e"
  "store_runs (Engine_SetBypassBloom b e) = store_runs e"
  "egImmMem (Engine_SetBypassBloom b e) = egImmMem e" "egClosed (Engine_SetBypassBloom b e) = egClosed e"
proof -
  let ?R = "stReaders e" and ?R' = "stReaders (Engine_SetBypassBloom b e)"
  have R': "?R' t = map_option (SetBypassBloom b) (?R t)" for t by (simp add: Engine_SetBypassBloom_def)
  have run: "table_run ?R' = table_run ?R" by (intro ext) (simp add: table_run_def R' option.case_eq_if option.map_sel)
  have rd: "readers_ok ?R' ts = readers_ok ?R ts" for ts by (auto simp: readers_ok_def R')
  have ap: "apart ?R' ts = apart ?R ts" for ts
    unfolding apart_def by (rule arg_cong [of _ _ "\<lambda>P. sorted_wrt P ts"]) (auto simp: R' fun_eq_iff)
  have fr: "stLevelTables (Engine_SetBypassBloom b e) = stLevelTables e"
    "stManifest (Engine_SetBypassBloom b e) = stManifest e" "egActiveMem (Engine_SetBypassBloom b e) = egActiveMem e"
    by (simp_all add: Engine_SetBypassBloom_def)
  show imm: "egImmMem (Engine_SetBypassBloom b e) = egImmMem e" and "egClosed (Engine_SetBypassBloom b e) = egClosed e"
    by (simp_all add: Engine_SetBypassBloom_def)
  show runs: "store_runs (Engine_SetBypassBloom b e) = store_runs e" by (simp add: store_runs_def run fr)
  show "engine_runs (Engine_SetBypassBloom b e) = engine_runs e" by (simp add: engine_runs_def mem_runs_def runs fr imm)
  show "engine_ok M used (Engine_SetBypassBloom b e) = engine_ok M used e"
    by (simp add: engine_ok_def store_ok_def mems_ok_def levels_ok_def fr imm rd ap)
qed

lemma Get_frame:
  assumes "Get key e = (r, e')"
  shows "egImmMem e' = egImmMem e \<and> store_runs e' = store_runs e \<and> egClosed e' = egClosed e"
  using assms
  by (auto simp: Get_def get_tables_def Let_def store_runs_def split: if_splits option.splits prod.splits sum.splits)

lemma contents_read_value:
  "map_sum (\<lambda>err. err) contents (case found of None \<Rightarrow> Inl KeyNotFound | Some x \<Rightarrow> read_value x) =
    (case value_of found of None \<Rightarrow> Inl KeyNotFound | Some v \<Rightarrow> Inr v)"
  by (cases found) (simp_all add: read_value_def value_of_def)

lemma written_behind_cong: "store_runs e' = store_runs e \<Longrightarrow> written_behind imm e' = written_behind imm e"
  by (simp add: written_behind_def)

lemma Get_answer:
  assumes "engine_ok M used e" "\<not> egClosed e" "Get key e = (r, e')"
  shows "engine_ok M used e' \<and> engine_runs e' = engine_runs e \<and>
    map_sum (\<lambda>err. err) contents r = map_answer key (engine_view e)"
proof (cases "key = []")
  case True
  then show ?thesis using assms by (auto simp: Get_def map_answer_def)
next
  case False
  then show ?thesis using Get_view [OF assms(1) False assms(2)] assms(3) contents_read_value
    by (auto simp: map_answer_def view_def)
qed

lemma Get_value:
  assumes "engine_ok M used e" "\<not> egClosed e" "key \<noteq> []"
  shows "engine_view e key = None \<Longrightarrow> fst (Get key e) = Inl KeyNotFound"
    "engine_view e key = Some v \<Longrightarrow> v \<noteq> [] \<Longrightarrow> fst (Get key e) = Inr (Some v)"
proof -
  have a: "map_sum (\<lambda>err. err) contents (fst (Get key e)) = map_answer key (engine_view e)"
    using Get_answer [OF assms(1,2)] by (metis prod.collapse)
  show "fst (Get key e) = Inl KeyNotFound" if "engine_view e key = None"
    using a that assms(3) by (cases "fst (Get key e)") (simp_all add: map_answer_def)
  show "fst (Get key e) = Inr (Some v)" if v: "engine_view e key = Some v" "v \<noteq> []"
  proof -
    obtain s where s: "fst (Get key e) = Inr s" "contents s = v"
      using a v(1) assms(3) by (cases "fst (Get key e)") (simp_all add: map_answer_def)
    then show ?thesis using v(2) by (cases s) auto
  qed
qed

section \<open>Every step keeps the invariant and follows the map\<close>

lemma engine_step_ok:
  assumes laws: "manifest_laws M used"
  shows "engine_step M used envs s ev s' \<Longrightarrow> machine_ok M used s \<Longrightarrow>
    machine_ok M used s' \<and> engine_view (fst s') = map_step ev (engine_view (fst s)) \<and>
    answers (engine_view (fst s)) ev"
proof (induction rule: engine_step.induct)
  case (put E key v e r e' pc)
  then have ok: "engine_ok M used e" by (simp add: machine_ok_def)
  note spec = Put_spec [OF laws ok put(1)]
  have imm: "egImmMem e = Some imm \<Longrightarrow> egImmMem e' = Some imm \<and> store_runs e' = store_runs e" for imm
    using Put_imm [OF put(1)] .
  show ?case using put(3) spec imm
    by (cases r; cases pc) (auto simp: machine_ok_def answers_def written_behind_def)
next
  case (delete E key e r e' pc)
  then have ok: "engine_ok M used e" by (simp add: machine_ok_def)
  note spec = Delete_spec [OF laws ok delete(1)]
  have imm: "egImmMem e = Some imm \<Longrightarrow> egImmMem e' = Some imm \<and> store_runs e' = store_runs e" for imm
    using Delete_imm [OF delete(1)] .
  show ?case using delete(3) spec imm
    by (cases r; cases pc) (auto simp: machine_ok_def answers_def written_behind_def)
next
  case (get key e r e' pc)
  then have ok: "engine_ok M used e" "\<not> egClosed e" by (simp_all add: machine_ok_def)
  have fr: "egImmMem e' = egImmMem e" "store_runs e' = store_runs e" "egClosed e' = egClosed e"
    using Get_frame [OF get(1)] by simp_all
  show ?case using get(2) fr Get_answer [OF ok get(1)]
    by (cases pc) (auto simp: machine_ok_def answers_def written_behind_def)
next
  case (bypass e pc b)
  then show ?case
    by (cases pc) (simp_all add: machine_ok_def answers_def bypass_frame written_behind_def)
next
  case (begin_flush e imm)
  then show ?case by (simp add: machine_ok_def answers_def)
next
  case (write_table e imm E e')
  then have "engine_ok M used e" "egImmMem e = Some imm" by (simp_all add: machine_ok_def)
  note w = flush_write_spec [OF laws this write_table(1-3)]
  show ?case using w write_table(5) by (simp add: machine_ok_def answers_def)
next
  case (write_failed e imm E err e')
  then have "engine_ok M used e" "egImmMem e = Some imm" by (simp_all add: machine_ok_def)
  note w = flush_write_spec [OF laws this write_failed(1-3)]
  show ?case using w write_failed(5) by (simp add: machine_ok_def answers_def)
next
  case (commit E e hasMore e' imm)
  then have "engine_ok M used e" "egImmMem e = Some imm" "written_behind imm e" by (simp_all add: machine_ok_def)
  note c = flush_commit_spec [OF laws this commit(1)]
  show ?case using c commit(3) by (simp add: machine_ok_def answers_def)
next
  case (remove e imm hasMore E)
  then show ?case by (simp add: machine_ok_def answers_def flush_done_frame)
qed

lemma all_answer_append: "all_answer m (xs @ ys) \<longleftrightarrow> all_answer m xs \<and> all_answer (fold map_step xs m) ys"
  by (induction xs arbitrary: m) auto

lemma engine_run_ok:
  assumes laws: "manifest_laws M used" and s: "machine_ok M used s"
  shows "engine_run M used envs s evs s' \<Longrightarrow> machine_ok M used s' \<and>
    engine_view (fst s') = fold map_step evs (engine_view (fst s)) \<and> all_answer (engine_view (fst s)) evs"
proof (induction rule: engine_run.induct)
  case (run_step evs s' ev s'')
  then show ?case using engine_step_ok [OF laws run_step(2)] by (simp add: all_answer_append)
qed (use s in simp)

end
