(* ===== verification/WalProps.thy ===== *)
theory WalProps
  imports Wal
begin

text \<open>
  What the write-ahead log promises: replay of the logged entries, recovery from any cut of the
  file, durability of acknowledged writes, repair of the tail, detection of damaged payloads,
  and the situations in which acknowledged writes are nevertheless lost.
\<close>

section \<open>Recovery from a prefix of the log\<close>

text \<open>How many of the frames lie completely within the first \<open>n\<close> bytes.\<close>

fun complete_frames :: "Entry list \<Rightarrow> nat \<Rightarrow> nat" where
  "complete_frames [] n = 0"
| "complete_frames (e # es) n =
     (if n < 8 + EncodedSize e then 0
      else Suc (complete_frames es (n - (8 + EncodedSize e))))"

lemma complete_frames_le: "complete_frames es n \<le> length es"
  by (induction es n rule: complete_frames.induct) auto

lemma complete_frames_all: "length (frames es) \<le> n \<Longrightarrow> complete_frames es n = length es"
  by (induction es n rule: complete_frames.induct) auto

lemma complete_frames_mono: "m \<le> n \<Longrightarrow> complete_frames es m \<le> complete_frames es n"
proof (induction es m arbitrary: n rule: complete_frames.induct)
  case (2 e es m)
  then show ?case by (auto simp: diff_le_mono)
qed simp

lemma complete_frames_at:
  "i \<le> length es \<Longrightarrow> length (frames (take i es)) \<le> n \<Longrightarrow> i \<le> complete_frames es n"
proof (induction es n arbitrary: i rule: complete_frames.induct)
  case (2 e es n)
  then show ?case by (cases i) auto
qed simp

lemma take_frames:
  obtains t where "take n (frames es) = frames (take (complete_frames es n) es) @ t"
    "t = [] \<or> complete_frames es n < length es \<and>
       (\<exists>m. t = take m (frame_layout (es ! complete_frames es n)) \<and>
            m < 8 + EncodedSize (es ! complete_frames es n))"
proof (induction es n arbitrary: thesis rule: complete_frames.induct)
  case (2 e es n)
  show ?case
  proof (cases "n < 8 + EncodedSize e")
    case True
    then show ?thesis by (intro "2.prems" [of "take n (frame_layout e)"]) auto
  next
    case False
    obtain t where "take (n - (8 + EncodedSize e)) (frames es) =
          frames (take (complete_frames es (n - (8 + EncodedSize e))) es) @ t"
      "t = [] \<or> complete_frames es (n - (8 + EncodedSize e)) < length es \<and>
       (\<exists>m. t = take m (frame_layout (es ! complete_frames es (n - (8 + EncodedSize e)))) \<and>
            m < 8 + EncodedSize (es ! complete_frames es (n - (8 + EncodedSize e))))"
      by (rule "2.IH" [OF False])
    with False show ?thesis by (intro "2.prems" [of t]) auto
  qed
qed simp

text \<open>A torn frame stops the loop without changing the state, however it is classified.\<close>

definition stopped_at :: "nat \<Rightarrow> nat \<Rightarrow> 's \<Rightarrow> ('s, 'e) recovery \<Rightarrow> bool" where
  "stopped_at valid off s r \<longleftrightarrow>
     ValidRecords (fst r) = valid \<and> BytesRecovered (fst r) = off \<and>
     fst (snd r) = None \<and> snd (snd (snd r)) = s"

lemma stopped_at_simps [simp]:
  "stopped_at v off s (stop_truncate t ty file off v s)"
  "stopped_at v off s (stop_keep ty file off v s)"
  "stopped_at v off s (clean_report v off, None, file, s)"
  by (simp_all add: stopped_at_def stop_truncate_def stop_keep_def corrupt_report_def
      clean_report_def)

lemma torn_header:
  assumes "8 \<le> m"
  shows "Uint32 (subslice (take m (frame_layout e)) 4 8) = word_of_nat (EncodedSize e)"
proof -
  have "subslice (take m (frame_layout e)) 4 8 = subslice (frame_layout e) 4 8"
    using assms by (simp add: subslice_def drop_take min_def)
  then show ?thesis using frame_parts(2) [of e "[]"] by simp
qed

lemma loop_torn:
  assumes fl: "drop off d = take m (frame_layout e)" and m: "m < 8 + EncodedSize e"
    and e: "loggable e"
  shows "stopped_at v off s (replay_loop t h d off v s)"
proof (cases "drop off d = []")
  case True
  then show ?thesis by (simp add: loop_end)
next
  case nonempty: False
  have len: "length d - off = m"
    using arg_cong [OF fl, of length] m by simp
  show ?thesis
  proof (cases "m < 8")
    case True
    with nonempty len show ?thesis by (subst loop_short_header) auto
  next
    case False
    with len nonempty have hdr: "off + 8 \<le> length d" by auto
    have n: "unat (Uint32 (subslice (drop off d) 4 8)) = EncodedSize e"
      using False by (simp add: fl torn_header loggable_size [OF e])
    show ?thesis
    proof (cases "EncodedSize e \<le> length d")
      case True
      with e show ?thesis
        by (subst loop_short_payload [OF hdr n]) (use len m nonempty in \<open>auto simp: loggable_def\<close>)
    next
      case False
      then show ?thesis by (subst loop_bad_length [OF hdr n]) auto
    qed
  qed
qed

lemma recover_take:
  assumes "\<forall>e\<in>set es. loggable e" "k = complete_frames es n"
  shows "stopped_at k (length (frames (take k es))) (foldl h s (map nil_empty (take k es)))
           (replay_loop t h (take n (frames es)) 0 0 s)"
proof -
  obtain u where split: "take n (frames es) = frames (take k es) @ u"
    and u: "u = [] \<or> k < length es \<and>
       (\<exists>m. u = take m (frame_layout (es ! k)) \<and> m < 8 + EncodedSize (es ! k))"
    using take_frames [of n es] assms(2) by metis
  have "replay_loop t h (take n (frames es)) 0 0 s =
    replay_loop t h (take n (frames es)) (length (frames (take k es))) k
      (foldl h s (map nil_empty (take k es)))"
    using loop_frames [of "take n (frames es)" "[]" "take k es" u t h 0 s] assms split
      complete_frames_le [of es n] by (auto dest: in_set_takeD)
  moreover have rest: "drop (length (frames (take k es))) (take n (frames es)) = u"
    by (simp add: split)
  moreover have "stopped_at k (length (frames (take k es))) (foldl h s (map nil_empty (take k es)))
    (replay_loop t h (take n (frames es)) (length (frames (take k es))) k
      (foldl h s (map nil_empty (take k es))))"
    using u
  proof
    assume "u = []"
    then show ?thesis using rest by (simp add: loop_end)
  next
    assume "k < length es \<and>
       (\<exists>m. u = take m (frame_layout (es ! k)) \<and> m < 8 + EncodedSize (es ! k))"
    then show ?thesis using rest assms(1) by (auto intro: loop_torn)
  qed
  ultimately show ?thesis by simp
qed

section \<open>Writes\<close>

fun WAL_run :: "Entry list \<Rightarrow> WAL \<Rightarrow> wal_error option list \<times> WAL" where
  "WAL_run [] w = ([], w)"
| "WAL_run (e # es) w =
     (let (r, w') = WAL_Write e w; (rs, w'') = WAL_run es w' in (r # rs, w''))"

lemma next_io_frame [frame]:
  "next_io f = (r, f') \<Longrightarrow> fdata f' = fdata f \<and> fsynced f' = fsynced f"
  by (auto simp: next_io_def split: list.splits)

lemma file_Write_cases:
  assumes "file_Write p f = (n, ok, f')"
  shows "fsynced f' = fsynced f \<and> (if ok then fdata f' = fdata f @ p
         else \<exists>m. fdata f' = fdata f @ take m p)"
  using assms by (auto simp: file_Write_def dest!: next_io_frame split: prod.splits io_result.splits)

lemma file_Sync_cases:
  assumes "file_Sync f = (ok, f')"
  shows "fdata f' = fdata f \<and> fsynced f' = (if ok then length (fdata f) else fsynced f)"
  using assms by (auto simp: file_Sync_def dest!: next_io_frame split: prod.splits io_result.splits)

text \<open>
  The state of a log opened empty under \<open>SyncAlways\<close> after the writes of \<open>es\<close>, of which
  those at the positions \<open>A\<close> were acknowledged: every frame is in the file unless the writer has
  a sticky error, and the acknowledged frames lie in the synced prefix.
\<close>

definition log_prefix :: "bytes \<Rightarrow> Entry list \<Rightarrow> bool" where
  "log_prefix d es \<longleftrightarrow> (\<exists>m. d = take m (frames es))"

definition always_inv :: "Entry list \<Rightarrow> nat set \<Rightarrow> WAL \<Rightarrow> bool" where
  "always_inv es A w \<longleftrightarrow>
     optSyncPolicy (walOptions w) = SyncAlways \<and>
     log_prefix (fdata (walFile w)) es \<and>
     (\<not> werr (walWriter w) \<longrightarrow> wbuf (walWriter w) = [] \<and> fdata (walFile w) = frames es) \<and>
     fsynced (walFile w) \<le> length (fdata (walFile w)) \<and>
     (\<forall>i\<in>A. i < length es \<and> length (frames (take (Suc i) es)) \<le> fsynced (walFile w))"

lemma log_prefix_append: "log_prefix d es \<Longrightarrow> log_prefix d (es @ fs)"
proof -
  assume "log_prefix d es"
  then obtain m where "d = take m (frames es)" by (auto simp: log_prefix_def)
  then have "d = take (min m (length (frames es))) (frames (es @ fs))" by (simp add: min_def)
  then show ?thesis unfolding log_prefix_def by blast
qed

lemma log_prefix_frames: "log_prefix (frames es @ take m (frame_layout e)) (es @ [e])"
  unfolding log_prefix_def by (rule exI [of _ "length (frames es) + m"]) simp

lemma log_prefix_all: "log_prefix (frames es) es"
  unfolding log_prefix_def by (rule exI [of _ "length (frames es)"]) simp

text \<open>The buffered writer: what it holds and the file together keep the bytes in order.\<close>

lemma bufio_Flush_cases:
  assumes "\<not> werr b" "bufio_Flush b f = (ok, b', f')"
  shows "fsynced f' = fsynced f \<and> werr b' = (\<not> ok) \<and>
    (if ok then wbuf b' = [] \<and> fdata f' = fdata f @ wbuf b
     else \<exists>m. fdata f' = fdata f @ take m (wbuf b))"
  using assms
  by (auto simp: bufio_Flush_def split: if_splits prod.splits bool.splits dest!: file_Write_cases)

lemma bufio_Write_empty:
  assumes "\<not> werr b" "wbuf b = []" "bufio_Write p b f = (ok, b', f')"
  shows "fsynced f' = fsynced f \<and> werr b' = (\<not> ok) \<and>
    (if ok then fdata f' = fdata f \<and> wbuf b' = p \<or> fdata f' = fdata f @ p \<and> wbuf b' = []
     else wbuf b' = [] \<and> (\<exists>m. fdata f' = fdata f @ take m p))"
  using assms
  by (auto simp: bufio_Write_def bufio_put_def Let_def split: if_splits prod.splits bool.splits
      dest!: file_Write_cases)

text \<open>What a write does to a log with an empty buffer: all of the frame, or a part and an error.\<close>

lemma WAL_Write_always:
  assumes open_log: "\<not> walClosed w" and pol: "optSyncPolicy (walOptions w) = SyncAlways"
    and empty: "\<not> werr (walWriter w)" "wbuf (walWriter w) = []"
    and wr: "WAL_Write e w = (r, w')"
  shows "walClosed w' = walClosed w \<and> walOptions w' = walOptions w \<and>
    (if werr (walWriter w')
     then r \<noteq> None \<and> fsynced (walFile w') = fsynced (walFile w) \<and>
          (\<exists>m. fdata (walFile w') = fdata (walFile w) @ take m (frame_layout e))
     else wbuf (walWriter w') = [] \<and>
          fdata (walFile w') = fdata (walFile w) @ frame_layout e \<and>
          fsynced (walFile w') =
            (if r = None then length (fdata (walFile w')) else fsynced (walFile w)))"
proof -
  define p where "p = frame_layout e"
  obtain ok b f where bw: "bufio_Write p (walWriter w) (walFile w) = (ok, b, f)" by (cases rule: prod_cases3)
  note B = bufio_Write_empty [OF empty bw]
  show ?thesis
  proof (cases ok)
    case False
    with B bw open_log wr show ?thesis
      by (auto simp: WAL_Write_def EncodeFrameTo_layout p_def [symmetric])
  next
    case True
    obtain ok' b' f' where fl: "bufio_Flush b f = (ok', b', f')" by (cases rule: prod_cases3)
    obtain sk f'' where sy: "file_Sync f' = (sk, f'')" by (cases "file_Sync f'")
    note F = bufio_Flush_cases [OF _ fl] file_Sync_cases [OF sy]
    show ?thesis
    proof (cases ok')
      case ok': True
      with True B F bw fl sy open_log pol wr show ?thesis
        by (auto simp: WAL_Write_def EncodeFrameTo_layout p_def [symmetric])
    next
      case False
      have "\<exists>m. fdata f' = fdata (walFile w) @ take m p"
        using True B F(1) False by (auto intro: exI [of _ "length p"])
      with False True B F bw fl sy open_log pol wr show ?thesis
        by (auto simp: WAL_Write_def EncodeFrameTo_layout p_def [symmetric])
    qed
  qed
qed

lemma WAL_Write_sticky:
  assumes "werr (walWriter w)" "WAL_Write e w = (r, w')"
  shows "r \<noteq> None \<and> walClosed w' = walClosed w \<and> walFile w' = walFile w \<and>
    walWriter w' = walWriter w \<and> walOptions w' = walOptions w"
  using assms by (auto simp: WAL_Write_def Let_def bufio_Write_def split: if_splits)

lemma always_inv_Write:
  assumes inv: "always_inv es A w" and op: "\<not> walClosed w" and wr: "WAL_Write e w = (r, w')"
  shows "always_inv (es @ [e]) (if r = None then insert (length es) A else A) w'"
proof (cases "werr (walWriter w)")
  case True
  from WAL_Write_sticky [OF True wr] inv show ?thesis
    by (auto simp: always_inv_def True log_prefix_append)
next
  case False
  with inv have w: "optSyncPolicy (walOptions w) = SyncAlways" "wbuf (walWriter w) = []"
    "fdata (walFile w) = frames es" by (auto simp: always_inv_def)
  note step = WAL_Write_always [OF op w(1) False w(2) wr]
  show ?thesis
  proof (cases "werr (walWriter w')")
    case True
    with step obtain m where "r \<noteq> None" "fsynced (walFile w') = fsynced (walFile w)"
      "fdata (walFile w') = frames es @ take m (frame_layout e)" "walOptions w' = walOptions w"
      by (auto simp: w)
    then show ?thesis
      using inv True w
      by (auto simp: always_inv_def log_prefix_frames)
  next
    case F: False
    with step have "wbuf (walWriter w') = []" "fdata (walFile w') = frames es @ frame_layout e"
      "fsynced (walFile w') =
         (if r = None then length (fdata (walFile w')) else fsynced (walFile w))"
      "walOptions w' = walOptions w"
      by (auto simp: w)
    then show ?thesis
      using inv F w log_prefix_all [of "es @ [e]"] by (auto simp: always_inv_def)
  qed
qed

lemma WAL_Write_closed [frame]: "walClosed (snd (WAL_Write e w)) = walClosed w"
  by (auto simp: WAL_Write_def Let_def split: prod.splits bool.splits)

fun acked_from :: "nat \<Rightarrow> 'e option list \<Rightarrow> nat set" where
  "acked_from n [] = {}"
| "acked_from n (r # rs) = (if r = None then insert n else (\<lambda>A. A)) (acked_from (Suc n) rs)"

lemma acked_from_mem: "i < length rs \<Longrightarrow> rs ! i = None \<Longrightarrow> n + i \<in> acked_from n rs"
proof (induction rs arbitrary: n i)
  case (Cons r rs)
  then show ?case using Cons.IH [of "i - 1" "Suc n"] by (cases i) auto
qed simp

lemma always_inv_run:
  assumes "always_inv es0 A w" "\<not> walClosed w" "WAL_run es w = (rs, w')"
  shows "always_inv (es0 @ es) (A \<union> acked_from (length es0) rs) w' \<and> length rs = length es"
  using assms
proof (induction es arbitrary: es0 A w rs)
  case (Cons e es)
  obtain r w1 where wr: "WAL_Write e w = (r, w1)" by fastforce
  obtain rs1 where run: "WAL_run es w1 = (rs1, w')" "rs = r # rs1"
    using Cons.prems(3) wr by (auto split: prod.splits)
  let ?A = "if r = None then insert (length es0) A else A"
  have "always_inv (es0 @ [e]) ?A w1" "\<not> walClosed w1"
    using always_inv_Write [OF Cons.prems(1,2) wr] WAL_Write_closed [of e w] wr Cons.prems(2)
    by auto
  note IH = Cons.IH [OF this run(1)]
  have "A \<union> acked_from (length es0) rs = ?A \<union> acked_from (length (es0 @ [e])) rs1"
    unfolding run(2) by auto
  with IH run(2) show ?case by simp
qed auto

section \<open>Properties\<close>

text \<open>
  C10. Crash durability. A log opened empty under \<open>SyncAlways\<close> performs any sequence of writes of
  loggable entries, whatever the results of its system calls. If the machine then fails, keeping
  any cut of the file that contains the synced prefix, a recovery that meets no read error ends
  without error and replays the first \<open>k\<close> of the attempted writes, in the order they were written,
  for a \<open>k\<close> that covers every acknowledged one. Attempts that were not acknowledged can be among
  the \<open>k\<close>: a write whose fsync failed stays in the file, and so does one in front of an
  acknowledged write.
\<close>

theorem wal_acknowledged_writes_survive:
  assumes "WAL_Open True wid opts \<lparr>fdata = [], fsynced = 0, fio = script\<rparr> = Inr w"
    and "optSyncPolicy opts = SyncAlways"
    and "WAL_run es w = (rs, w')"
    and "\<forall>e\<in>set es. loggable e"
    and "fsynced (walFile w') \<le> n"
    and "RecoverWithReport no_read_error t (total_handler h)
           (Some (take n (fdata (walFile w')))) s = (report, err :: unit recover_error option, d, s')"
  shows "\<exists>k. s' = foldl h s (map nil_empty (take k es)) \<and> ValidRecords report = k \<and> err = None \<and>
           k \<le> length es \<and> (\<forall>i<length es. rs ! i = None \<longrightarrow> i < k)"
proof -
  have "always_inv [] {} w" "\<not> walClosed w"
    using assms(1,2) log_prefix_all [of "[]"]
    by (auto simp: WAL_Open_def Let_def always_inv_def split: if_splits)
  then have inv: "always_inv es (acked_from 0 rs) w'" and len: "length rs = length es"
    using always_inv_run [OF _ _ assms(3), of "[]" "{}"] by auto
  from inv obtain m where m: "fdata (walFile w') = take m (frames es)"
    by (auto simp: always_inv_def log_prefix_def)
  define c where "c = min n m"
  have cut: "take n (fdata (walFile w')) = take c (frames es)" by (simp add: m c_def)
  define k where "k = complete_frames es c"
  have "stopped_at k (length (frames (take k es))) (foldl h s (map nil_empty (take k es)))
      (replay_loop t h (take c (frames es)) 0 0 s)"
    by (rule recover_take [OF assms(4) k_def])
  then have "s' = foldl h s (map nil_empty (take k es))" "ValidRecords report = k" "err = None"
    using assms(6) by (auto simp: RecoverWithReport_def cut stopped_at_def split: prod.splits)
  moreover have "i < k" if "i < length es" "rs ! i = None" for i
  proof -
    have "i \<in> acked_from 0 rs" using acked_from_mem [of i rs 0] that len by simp
    then have "length (frames (take (Suc i) es)) \<le> fsynced (walFile w')"
      "fsynced (walFile w') \<le> length (take m (frames es))"
      using inv m by (auto simp: always_inv_def)
    then have "length (frames (take (Suc i) es)) \<le> c" using assms(5) by (simp add: c_def)
    then have "Suc i \<le> k" unfolding k_def using that by (intro complete_frames_at) auto
    then show ?thesis by simp
  qed
  moreover have "k \<le> length es" by (simp add: k_def complete_frames_le)
  ultimately show ?thesis by (intro exI [of _ k]) simp
qed

text \<open>A sample entry and a sample log for the witnesses.\<close>

definition sample :: "byte \<Rightarrow> Entry" where
  "sample b = NewPutEntry 1 [b] (Some [b])"

lemma loggable_sample [simp]: "loggable (sample b)"
  by (simp add: sample_def loggable_def encodable_def EncodedSize_def MaxRecordPayload_def)

definition sample_wal :: "io_result list \<Rightarrow> WAL" where
  "sample_wal script =
     \<lparr>walId = 1, walFile = \<lparr>fdata = [], fsynced = 0, fio = script\<rparr>,
      walWriter = \<lparr>wbuf = [], wsize = 65536, werr = False\<rparr>,
      walOptions = \<lparr>optSyncPolicy = SyncAlways, optSyncInterval = 50000000, optBufferSize = 65536\<rparr>,
      walClosed = False, bytesWritten = 0, encodeBuf = []\<rparr>"

lemma sample_wal_opened:
  "WAL_Open True 1 \<lparr>optSyncPolicy = SyncAlways, optSyncInterval = 0, optBufferSize = 0\<rparr>
     \<lparr>fdata = [], fsynced = 0, fio = script\<rparr> = Inr (sample_wal script)"
  by (simp add: WAL_Open_def Let_def sample_wal_def)

text \<open>Two writes, the second of which is torn after three bytes and not acknowledged.\<close>

lemma sample_run:
  "WAL_run [sample 107, sample 108] (sample_wal [IoOk, IoOk, IoErr 3]) =
     ([None, Some WalFlush], snd (WAL_run [sample 107, sample 108] (sample_wal [IoOk, IoOk, IoErr 3])))"
  "fsynced (walFile (snd (WAL_run [sample 107, sample 108] (sample_wal [IoOk, IoOk, IoErr 3])))) = 25"
  by (simp_all add: WAL_Write_def sample_wal_def bufio_Write_def bufio_Flush_def file_Write_def
      file_Sync_def next_io_def EncodeFrameTo_layout EncodedSize_def sample_def Let_def)

theorem wal_acknowledged_writes_survive_witness:
  "\<exists>k. snd (snd (snd (RecoverWithReport no_read_error True (total_handler (\<lambda>es e. es @ [e]))
        (Some (take 30 (fdata (walFile (snd (WAL_run [sample 107, sample 108]
           (sample_wal [IoOk, IoOk, IoErr 3])))))))
        [] :: _ \<times> unit recover_error option \<times> _)))
      = take k [sample 107, sample 108] \<and> 0 < k"
proof -
  let ?w = "snd (WAL_run [sample 107, sample 108] (sample_wal [IoOk, IoOk, IoErr 3]))"
  let ?r = "RecoverWithReport no_read_error True (total_handler (\<lambda>es e. es @ [e]))
     (Some (take 30 (fdata (walFile ?w)))) [] :: _ \<times> unit recover_error option \<times> _"
  have n: "fsynced (walFile ?w) \<le> 30" using sample_run(2) by linarith
  have fold: "foldl (\<lambda>es e. es @ [e]) xs ys = xs @ ys" for xs ys :: "Entry list"
    by (induction ys arbitrary: xs) auto
  have ne: "nil_empty (sample b) = sample b" for b by (simp add: sample_def nil_empty_def)
  have "?r = (fst ?r, fst (snd ?r), fst (snd (snd ?r)), snd (snd (snd ?r)))" by simp
  from wal_acknowledged_writes_survive [OF sample_wal_opened _ sample_run(1) _ n this]
  obtain k where "snd (snd (snd ?r)) =
      foldl (\<lambda>es e. es @ [e]) [] (map nil_empty (take k [sample 107, sample 108]))" "0 < k"
    by auto
  then show ?thesis by (intro exI [of _ k]) (simp add: fold ne flip: take_map)
qed

text \<open>
  C11. Replay. Recovery of an undamaged log hands every entry to the handler once, in the order of
  the writes (an empty value read back as nil), reports no corruption and leaves the file alone.
\<close>

theorem wal_replays_log:
  assumes "\<forall>e\<in>set es. loggable e"
  shows "RecoverWithReport no_read_error t (total_handler h) (Some (frames es)) s =
    (clean_report (length es) (length (frames es)), None :: unit recover_error option,
     Some (frames es), foldl h s (map nil_empty es))"
  using loop_frames [of "frames es" "[]" es "[]" t h 0 s] assms
  by (simp add: RecoverWithReport_def loop_end)

theorem wal_replays_log_witness:
  "RecoverWithReport no_read_error True (total_handler (\<lambda>n e. n + 1)) (Some (frames [sample 107])) 0 =
    (clean_report 1 25, None :: unit recover_error option, Some (frames [sample 107]), 1 :: nat)"
proof -
  have "\<forall>e\<in>set [sample 107]. loggable e" by simp
  note replay = wal_replays_log [OF this, of True "\<lambda>n e. n + 1" "0 :: nat"]
  then show ?thesis by (simp add: sample_def EncodedSize_def)
qed

section \<open>Repair\<close>

text \<open>One iteration of the loop as a function of the bytes: it ends, or it reads one frame.\<close>

datatype wal_step = StepEnd | StepTruncate string | StepKeep string | StepFrame nat Entry

definition wal_step :: "bytes \<Rightarrow> nat \<Rightarrow> wal_step" where
  "wal_step d off =
     (let rest = drop off d; n = unat (Uint32 (subslice rest 4 8))
      in if rest = [] then StepEnd
         else if length rest < 8 then StepTruncate ''truncated_tail''
         else if n > MaxRecordPayload \<or> n > length d
         then if off + 8 \<ge> length d then StepTruncate ''bad_length'' else StepKeep ''bad_length_middle''
         else if length rest < 8 + n then StepTruncate ''truncated_tail''
         else if ChecksumIEEE (subslice rest 8 (8 + n)) \<noteq> Uint32 (subslice rest 0 4)
         then if off + 8 + n \<ge> length d then StepTruncate ''bad_crc_tail'' else StepKeep ''corrupt_middle''
         else case DecodeEntry (subslice rest 8 (8 + n)) of
                Inl _ \<Rightarrow> if off + 8 + n \<ge> length d then StepTruncate ''decode_error''
                         else StepKeep ''decode_error''
              | Inr e \<Rightarrow> StepFrame n e)"

lemma replay_step:
  "replay_loop t h d off v s =
     (case wal_step d off of
        StepEnd \<Rightarrow> (clean_report v off, None, d, s)
      | StepTruncate ty \<Rightarrow> stop_truncate t ty d off v s
      | StepKeep ty \<Rightarrow> stop_keep ty d off v s
      | StepFrame n e \<Rightarrow> replay_loop t h d (off + 8 + n) (v + 1) (h s e))"
  by (subst recover_loop.simps)
    (auto simp: wal_step_def Let_def no_read_error_def total_handler_def DecodeEntry_no_panic
      split: sum.splits decode_error.splits)

lemma wal_step_frame_iff:
  "wal_step d off = StepFrame n e \<longleftrightarrow>
     n = unat (Uint32 (subslice (drop off d) 4 8)) \<and> off + 8 + n \<le> length d \<and>
     n \<le> MaxRecordPayload \<and>
     ChecksumIEEE (subslice (drop off d) 8 (8 + n)) = Uint32 (subslice (drop off d) 0 4) \<and>
     DecodeEntry (subslice (drop off d) 8 (8 + n)) = Inr e" (is "?l = ?r")
proof
  assume ?l
  then show ?r
    by (auto simp: wal_step_def Let_def simp del: drop_eq_Nil split: if_splits sum.splits)
next
  assume r: ?r
  then have "drop off d \<noteq> []" "\<not> length (drop off d) < 8"
    "\<not> (n > MaxRecordPayload \<or> n > length d)" "\<not> length (drop off d) < 8 + n" by auto
  moreover from r have n: "unat (Uint32 (subslice (drop off d) 4 8)) = n"
    and "ChecksumIEEE (subslice (drop off d) 8 (8 + n)) = Uint32 (subslice (drop off d) 0 4)"
      "DecodeEntry (subslice (drop off d) 8 (8 + n)) = Inr e" by auto
  ultimately show ?l unfolding wal_step_def Let_def n by simp
qed

lemmas wal_step_frame_bounds = wal_step_frame_iff [THEN iffD1, THEN conjunct2, THEN conjunct1]

lemma wal_step_take:
  assumes "wal_step d off = StepFrame n e" "off + 8 + n \<le> k" "k \<le> length d"
  shows "wal_step (take k d) off = StepFrame n e"
proof -
  have sub: "subslice (drop off (take k d)) lo hi = subslice (drop off d) lo hi"
    if "off + hi \<le> k" for lo hi
    using that by (simp add: subslice_def drop_take min_def)
  then show ?thesis using assms unfolding wal_step_frame_iff by auto
qed

lemma replay_measure [frame]:
  assumes "replay_loop t h d off v s = (rep, err, d', s')" "off \<le> length d"
  shows "off \<le> BytesRecovered rep \<and> BytesRecovered rep \<le> length d \<and> err = None"
  using assms
proof (induction "length d - off" arbitrary: off v s rule: less_induct)
  case less
  show ?case
  proof (cases "wal_step d off")
    case (StepFrame n e)
    note b = wal_step_frame_bounds [OF this]
    have next_loop: "replay_loop t h d (off + 8 + n) (v + 1) (h s e) = (rep, err, d', s')"
      using less.prems(1) StepFrame by (subst (asm) replay_step) auto
    have "length d - (off + 8 + n) < length d - off" using b by simp
    from less.hyps [OF this next_loop b] less.prems show ?thesis by simp
  qed (use less.prems in \<open>auto simp: replay_step [of t h d off] stop_truncate_def stop_keep_def
        corrupt_report_def clean_report_def split: if_splits\<close>)
qed

text \<open>Replaying only what was recovered is clean and ends in the same state.\<close>

lemma replay_recovered_part:
  assumes "replay_loop t h d off v s = (rep, err, d', s')" "off \<le> length d"
  shows "replay_loop t' h (take (BytesRecovered rep) d) off v s =
    (clean_report (ValidRecords rep) (BytesRecovered rep), None, take (BytesRecovered rep) d, s')"
  using assms
proof (induction "length d - off" arbitrary: off v s rule: less_induct)
  case less
  show ?case
  proof (cases "wal_step d off")
    case (StepFrame n e)
    note b = wal_step_frame_bounds [OF this]
    have next_loop: "replay_loop t h d (off + 8 + n) (v + 1) (h s e) = (rep, err, d', s')"
      using less.prems(1) StepFrame by (subst (asm) replay_step) auto
    note m = replay_measure [OF next_loop b]
    have "wal_step (take (BytesRecovered rep) d) off = StepFrame n e"
      by (rule wal_step_take [OF StepFrame]) (use m in auto)
    then show ?thesis
      using less.hyps [OF _ next_loop] b by (subst replay_step) auto
  qed (use less.prems in \<open>auto simp: replay_step [of t h d off] stop_truncate_def stop_keep_def
        corrupt_report_def clean_report_def loop_end split: if_splits\<close>)
qed

text \<open>What recovery leaves in the file, and what it leaves unread.\<close>

lemma replay_file:
  assumes "replay_loop t h d off v s = (rep, err, d', s')" "off \<le> length d"
  shows "d' = (if FileTruncated rep then take (BytesRecovered rep) d else d) \<and>
    (CorruptionDetected rep \<or> BytesRecovered rep = length d)"
  using assms
proof (induction "length d - off" arbitrary: off v s rule: less_induct)
  case less
  show ?case
  proof (cases "wal_step d off")
    case StepEnd
    then have "drop off d = []" by (auto simp: wal_step_def Let_def split: if_splits sum.splits)
    then show ?thesis
      using StepEnd less.prems
      by (auto simp: replay_step [of t h d off] clean_report_def empty_report_def)
  next
    case (StepFrame n e)
    note b = wal_step_frame_bounds [OF this]
    have next_loop: "replay_loop t h d (off + 8 + n) (v + 1) (h s e) = (rep, err, d', s')"
      using less.prems(1) StepFrame by (subst (asm) replay_step) auto
    have "length d - (off + 8 + n) < length d - off" using b by simp
    from less.hyps [OF this next_loop b] less.prems show ?thesis by simp
  qed (use less.prems in \<open>auto simp: replay_step [of t h d off] stop_truncate_def stop_keep_def
        corrupt_report_def clean_report_def empty_report_def split: if_splits\<close>)
qed

text \<open>
  C12. Self-healing. Whatever bytes the file holds, and whether or not truncating it works,
  recovery without a read error ends without an error and without a panic. It leaves the file as
  it was or, when it reports a truncation, cut to the recovered part; the recovered part is the
  whole file unless a corruption is reported; and a recovery of the recovered part is clean,
  replays the same number of records into the same state and changes nothing.
\<close>

theorem wal_recovery_repairs:
  assumes "RecoverWithReport no_read_error t (total_handler h) (Some d) s = (rep, err, d', s')"
  shows "err = (None :: unit recover_error option) \<and>
    d' = Some (if FileTruncated rep then take (BytesRecovered rep) d else d) \<and>
    BytesRecovered rep \<le> length d \<and> (CorruptionDetected rep \<or> BytesRecovered rep = length d) \<and>
    RecoverWithReport no_read_error t' (total_handler h) (Some (take (BytesRecovered rep) d)) s =
      (clean_report (ValidRecords rep) (BytesRecovered rep), None :: unit recover_error option,
       Some (take (BytesRecovered rep) d), s')"
proof -
  obtain b where run: "replay_loop t h d 0 0 s = (rep, err, b, s')" "d' = Some b"
    using assms by (auto simp: RecoverWithReport_def split: prod.splits)
  then show ?thesis
    using replay_file [OF run(1)] replay_recovered_part [OF run(1), of t'] replay_measure [OF run(1)]
    by (simp add: RecoverWithReport_def)
qed

theorem wal_recovery_repairs_witness:
  "RecoverWithReport no_read_error True (total_handler (\<lambda>n e. Suc n))
     (Some (frames [sample 107] @ [1, 2, 3])) 0 =
     (corrupt_report ''truncated_tail'' True 1 25, None :: unit recover_error option,
      Some (frames [sample 107]), 1) \<and>
   RecoverWithReport no_read_error True (total_handler (\<lambda>n e. Suc n))
     (Some (frames [sample 107])) 0 =
     (clean_report 1 25, None :: unit recover_error option, Some (frames [sample 107]), 1)"
proof -
  have len: "length (frame_layout (sample 107)) = 25" by (simp add: sample_def EncodedSize_def)
  have r: "RecoverWithReport no_read_error True (total_handler (\<lambda>n e. Suc n))
     (Some (frames [sample 107] @ [1, 2, 3])) 0 =
     (corrupt_report ''truncated_tail'' True 1 25, None :: unit recover_error option,
      Some (frames [sample 107]), 1)"
    using loop_frames [of "frames [sample 107] @ [1, 2, 3]" "[]" "[sample 107]" "[1, 2, 3]"
      True "\<lambda>n e. Suc n" 0 0] len
    by (simp add: RecoverWithReport_def loop_short_header stop_truncate_def)
  from wal_recovery_repairs [OF r, of True] r len show ?thesis
    by (simp add: corrupt_report_def clean_report_def)
qed

section \<open>Damage\<close>

text \<open>A log reopened on a recovered file, with working system calls.\<close>

definition reopened :: "WAL \<Rightarrow> bytes \<Rightarrow> bool" where
  "reopened w d \<longleftrightarrow>
     (\<exists>wid opts. optSyncPolicy opts = SyncAlways \<and>
        WAL_Open True wid opts \<lparr>fdata = d, fsynced = length d, fio = []\<rparr> = Inr w)"

lemma WAL_Write_works:
  assumes "\<not> walClosed w" "optSyncPolicy (walOptions w) = SyncAlways" "\<not> werr (walWriter w)"
    "wbuf (walWriter w) = []" "fio (walFile w) = []" "WAL_Write e w = (r, w')"
  shows "r = None \<and> \<not> walClosed w' \<and> optSyncPolicy (walOptions w') = SyncAlways \<and>
    \<not> werr (walWriter w') \<and> wbuf (walWriter w') = [] \<and> fio (walFile w') = [] \<and>
    fdata (walFile w') = fdata (walFile w) @ frame_layout e \<and>
    fsynced (walFile w') = length (fdata (walFile w'))"
  using assms
  by (auto simp: WAL_Write_def Let_def bufio_Write_def bufio_put_def bufio_Flush_def
      EncodeFrameTo_layout file_Write_def file_Sync_def next_io_def split: if_splits)

lemma WAL_run_works:
  assumes "\<not> walClosed w" "optSyncPolicy (walOptions w) = SyncAlways" "\<not> werr (walWriter w)"
    "wbuf (walWriter w) = []" "fio (walFile w) = []" "WAL_run es w = (rs, w')"
    "fsynced (walFile w) = length (fdata (walFile w))"
  shows "rs = replicate (length es) None \<and> fdata (walFile w') = fdata (walFile w) @ frames es \<and>
    fsynced (walFile w') = length (fdata (walFile w'))"
  using assms
proof (induction es arbitrary: w rs)
  case (Cons e es)
  obtain r w1 where wr: "WAL_Write e w = (r, w1)" by fastforce
  obtain rs1 where run: "WAL_run es w1 = (rs1, w')" "rs = r # rs1"
    using Cons.prems(6) wr by (auto split: prod.splits)
  from WAL_Write_works [OF Cons.prems(1-5) wr] Cons.IH [OF _ _ _ _ _ run(1)] run(2)
  show ?case by auto
qed simp

lemma reopened_run:
  assumes "reopened w d" "WAL_run es w = (rs, w')"
  shows "rs = replicate (length es) None" "fdata (walFile w') = d @ frames es"
    "fsynced (walFile w') = length (d @ frames es)"
proof -
  have "\<not> walClosed w" "optSyncPolicy (walOptions w) = SyncAlways" "\<not> werr (walWriter w)"
    "wbuf (walWriter w) = []" "fio (walFile w) = []" "fdata (walFile w) = d"
    "fsynced (walFile w) = length d"
    using assms(1) by (auto simp: reopened_def WAL_Open_def Let_def split: if_splits)
  from WAL_run_works [OF this(1-5) assms(2)] this(6,7)
  show "rs = replicate (length es) None" "fdata (walFile w') = d @ frames es"
    "fsynced (walFile w') = length (d @ frames es)"
    by auto
qed

text \<open>A frame whose payload has one byte changed, at the end of the log or before \<open>z\<close>.\<close>

definition damaged_frame :: "Entry \<Rightarrow> bytes \<Rightarrow> byte \<Rightarrow> bytes \<Rightarrow> bytes" where
  "damaged_frame e xs b ys =
     PutUint32 (ChecksumIEEE (entry_layout e)) @ PutUint32 (word_of_nat (EncodedSize e)) @
     xs @ b # ys"

lemma loop_damaged:
  assumes es: "\<forall>e\<in>set es. loggable e" and e: "loggable e"
    and pl: "entry_layout e = xs @ a # ys" "b \<noteq> a"
    and d: "d = frames es @ damaged_frame e xs b ys @ z"
  shows "replay_loop t h d 0 0 s =
    (if z = []
     then stop_truncate t ''bad_crc_tail'' d (length (frames es)) (length es)
            (foldl h s (map nil_empty es))
     else stop_keep ''corrupt_middle'' d (length (frames es)) (length es)
            (foldl h s (map nil_empty es)))"
proof -
  let ?off = "length (frames es)" and ?n = "EncodedSize e"
  have n: "?n = Suc (length xs + length ys)"
    using arg_cong [OF pl(1), of length] by simp
  have drop: "drop ?off d = damaged_frame e xs b ys @ z" by (simp add: d)
  have len: "length d = ?off + 8 + ?n + length z" by (simp add: d damaged_frame_def n)
  have "subslice (drop ?off d) 4 8 = PutUint32 (word_of_nat ?n)"
    "subslice (drop ?off d) 0 4 = PutUint32 (ChecksumIEEE (entry_layout e))"
    by (simp_all add: drop damaged_frame_def)
  then have hdr: "unat (Uint32 (subslice (drop ?off d) 4 8)) = ?n"
    "Uint32 (subslice (drop ?off d) 0 4) = ChecksumIEEE (entry_layout e)"
    by (simp_all add: loggable_size [OF e])
  have "subslice (drop ?off d) 8 (8 + ?n) = xs @ b # ys"
    by (simp add: drop damaged_frame_def subslice_def n)
  then have "ChecksumIEEE (subslice (drop ?off d) 8 (8 + ?n)) \<noteq> Uint32 (subslice (drop ?off d) 0 4)"
    using crc_detects_one_byte [OF pl(2)] by (simp add: hdr(2) pl(1))
  note crc = loop_bad_crc [OF _ hdr(1) _ _ this, where t = t and h = h]
  have "replay_loop t h d ?off v u =
    (if z = [] then stop_truncate t ''bad_crc_tail'' d ?off v u
     else stop_keep ''corrupt_middle'' d ?off v u)" for v u
    using crc [of v u] len e by (simp add: loggable_def)
  then show ?thesis
    using loop_frames [of d "[]" es "damaged_frame e xs b ys @ z" t h 0 s] es d by simp
qed

text \<open>
  C13. Detection. A single changed byte in the payload of a logged entry is always detected: the
  entries before it are replayed and nothing after it; at the end of the log the damaged frame
  is cut off, before further bytes the file is kept and the corruption reported as in the middle.
\<close>

theorem wal_detects_changed_byte:
  assumes "\<forall>e\<in>set es. loggable e" "loggable e" "entry_layout e = xs @ a # ys" "b \<noteq> a"
  shows "RecoverWithReport no_read_error True (total_handler h)
      (Some (frames es @ damaged_frame e xs b ys @ z)) s =
    (if z = []
     then (corrupt_report ''bad_crc_tail'' True (length es) (length (frames es)),
           None :: unit recover_error option, Some (frames es), foldl h s (map nil_empty es))
     else (corrupt_report ''corrupt_middle'' False (length es) (length (frames es)), None,
           Some (frames es @ damaged_frame e xs b ys @ z), foldl h s (map nil_empty es)))"
  by (simp add: RecoverWithReport_def loop_damaged [OF assms refl] stop_truncate_def stop_keep_def)

lemma sample_layout:
  "entry_layout (sample 107) =
     [0, 0, 0, 0, 0, 0, 0] @ 1 # [1, 0, 1, 0, 0, 0, 1, 107, 107]"
  by (simp add: sample_def entry_layout_def PutUint64_def PutUint16_def PutUint32_def OpPut_def
      be_enc_numeral)

theorem wal_detects_changed_byte_witness:
  "RecoverWithReport no_read_error True (total_handler (\<lambda>n e. Suc n))
      (Some (frames [sample 108] @
         damaged_frame (sample 107) [0, 0, 0, 0, 0, 0, 0] 9 [1, 0, 1, 0, 0, 0, 1, 107, 107] @ [])) 0 =
    (corrupt_report ''bad_crc_tail'' True 1 25, None :: unit recover_error option,
     Some (frames [sample 108]), 1)"
proof -
  have "\<forall>e\<in>set [sample 108]. loggable e" "(9 :: byte) \<noteq> 1" by simp_all
  from wal_detects_changed_byte [OF this(1) loggable_sample sample_layout this(2),
      of "\<lambda>n e. Suc n" "[]" 0]
  show ?thesis by (simp add: sample_def EncodedSize_def)
qed

section \<open>Acknowledged writes that are lost\<close>

text \<open>
  C14. After a corruption that recovery leaves in the file (here a changed byte in a frame that is
  followed by further bytes), the engine goes on appending to the same log. Every later write is
  acknowledged as synced, and the next recovery replays none of them.
\<close>

theorem wal_writes_after_corruption_lost:
  assumes "\<forall>e\<in>set es. loggable e" "loggable e" "entry_layout e = xs @ a # ys" "b \<noteq> a" "z \<noteq> []"
    and "RecoverWithReport no_read_error True (total_handler h)
           (Some (frames es @ damaged_frame e xs b ys @ z)) s = (rep, err, Some d, s')"
    and "reopened w d" "WAL_run later w = (rs, w')"
  shows "err = (None :: unit recover_error option) \<and>
    rs = replicate (length later) None \<and>
    fsynced (walFile w') = length (fdata (walFile w')) \<and>
    snd (snd (snd (RecoverWithReport no_read_error True (total_handler h)
       (Some (fdata (walFile w'))) s :: _ \<times> unit recover_error option \<times> _))) = s'"
proof -
  have d: "d = frames es @ damaged_frame e xs b ys @ z"
    and s': "s' = foldl h s (map nil_empty es)" "err = None"
    using assms(6) loop_damaged [OF assms(1-4) refl, where z = z and t = True and h = h and s = s] assms(5)
    by (auto simp: RecoverWithReport_def stop_keep_def)
  note run = reopened_run [OF assms(7,8)]
  have "fdata (walFile w') = frames es @ damaged_frame e xs b ys @ (z @ frames later)"
    by (simp add: run(2) d)
  then show ?thesis
    using loop_damaged [OF assms(1-4) refl, where z = "z @ frames later" and t = True and h = h and s = s] assms(5) run s'
    by (simp add: RecoverWithReport_def stop_keep_def)
qed

lemma reopened_ex: "\<exists>w. reopened w d"
proof -
  have "WAL_Open True 1 \<lparr>optSyncPolicy = SyncAlways, optSyncInterval = 0, optBufferSize = 0\<rparr>
     \<lparr>fdata = d, fsynced = length d, fio = []\<rparr> =
     Inr \<lparr>walId = 1, walFile = \<lparr>fdata = d, fsynced = length d, fio = []\<rparr>,
      walWriter = \<lparr>wbuf = [], wsize = 65536, werr = False\<rparr>,
      walOptions = \<lparr>optSyncPolicy = SyncAlways, optSyncInterval = 50000000, optBufferSize = 65536\<rparr>,
      walClosed = False, bytesWritten = length d, encodeBuf = []\<rparr>"
    by (simp add: WAL_Open_def Let_def)
  then show ?thesis unfolding reopened_def
    by (intro exI conjI) auto
qed

theorem wal_writes_after_corruption_lost_witness:
  "\<exists>w. reopened w (frames [sample 108] @
        damaged_frame (sample 107) [0, 0, 0, 0, 0, 0, 0] 9 [1, 0, 1, 0, 0, 0, 1, 107, 107] @ [0]) \<and>
     fst (WAL_run [sample 109] w) = [None] \<and>
     snd (snd (snd (RecoverWithReport no_read_error True (total_handler (\<lambda>n e. Suc n))
       (Some (fdata (walFile (snd (WAL_run [sample 109] w))))) 0
         :: _ \<times> unit recover_error option \<times> _))) = 1"
proof -
  let ?d = "frames [sample 108] @
        damaged_frame (sample 107) [0, 0, 0, 0, 0, 0, 0] 9 [1, 0, 1, 0, 0, 0, 1, 107, 107] @ [0]"
  obtain w where w: "reopened w ?d" using reopened_ex by blast
  have es: "\<forall>e\<in>set [sample 108]. loggable e" and ne: "(9 :: byte) \<noteq> 1" "[0 :: byte] \<noteq> []"
    by simp_all
  have rec: "RecoverWithReport no_read_error True (total_handler (\<lambda>n e. Suc n)) (Some ?d) 0 =
      (corrupt_report ''corrupt_middle'' False 1 25, None :: unit recover_error option, Some ?d, 1)"
    using loop_damaged [OF es loggable_sample sample_layout ne(1) refl, where z = "[0]"
        and t = True and h = "\<lambda>n e. Suc n" and s = 0]
    by (simp add: RecoverWithReport_def stop_keep_def sample_def EncodedSize_def)
  from wal_writes_after_corruption_lost [OF es loggable_sample sample_layout ne rec w
      prod.collapse [symmetric], of "[sample 109]"] w
  show ?thesis by (intro exI [of _ w]) simp
qed

text \<open>
  A torn last frame is repaired only if the payload length it announces is at most the size
  of the file. When a crash leaves more than its header and less than all of a frame larger than
  the file, recovery calls it a bad length in the middle and keeps it; later writes are then
  acknowledged as synced and not replayed by the next recovery, as long as the file is still
  smaller than the announced length.
\<close>

lemma wal_torn_large_frame_kept:
  assumes "\<forall>e\<in>set es. loggable e" "loggable e"
    and "d = frames es @ take m (frame_layout e)" "8 < m" "m < 8 + EncodedSize e"
    and "length (d @ frames later) < EncodedSize e"
    and "reopened w d" "WAL_run later w = (rs, w')"
  shows "RecoverWithReport no_read_error True (total_handler h) (Some d) s =
      (corrupt_report ''bad_length_middle'' False (length es) (length (frames es)),
       None :: unit recover_error option, Some d, foldl h s (map nil_empty es)) \<and>
    rs = replicate (length later) None \<and>
    fsynced (walFile w') = length (fdata (walFile w')) \<and>
    snd (snd (snd (RecoverWithReport no_read_error True (total_handler h)
       (Some (fdata (walFile w'))) s :: _ \<times> unit recover_error option \<times> _))) =
      foldl h s (map nil_empty es)"
proof -
  have loop: "replay_loop True h (d @ z) 0 0 s =
      stop_keep ''bad_length_middle'' (d @ z) (length (frames es)) (length es)
        (foldl h s (map nil_empty es))" if z: "length (d @ z) < EncodedSize e" for z
  proof -
    let ?off = "length (frames es)"
    have "subslice (drop ?off (d @ z)) 4 8 = subslice (take m (frame_layout e)) 4 8"
      using assms(3,4,5) by (simp add: subslice_append_left)
    then have n: "unat (Uint32 (subslice (drop ?off (d @ z)) 4 8)) = EncodedSize e"
      using assms(4) by (simp add: torn_header loggable_size [OF assms(2)])
    have len: "?off + 8 < length (d @ z)" using assms(3,4,5) by simp
    have "replay_loop True h (d @ z) ?off v u = stop_keep ''bad_length_middle'' (d @ z) ?off v u"
      for v u
      using loop_bad_length [OF _ n, of True h v u] len z by simp
    then show ?thesis
      using loop_frames [of "d @ z" "[]" es "take m (frame_layout e) @ z" True h 0 s] assms(1,3)
      by simp
  qed
  note run = reopened_run [OF assms(7,8)]
  show ?thesis
    using loop [of "[]"] loop [of "frames later"] assms(6) run
    by (simp add: RecoverWithReport_def stop_keep_def)
qed

definition big_sample :: Entry where
  "big_sample = NewPutEntry 1 [107] (Some (replicate 1000 0))"

lemma wal_torn_large_frame_kept_witness:
  "\<exists>w. reopened w (take 100 (frame_layout big_sample)) \<and>
     RecoverWithReport no_read_error True (total_handler (\<lambda>n e. Suc n))
       (Some (take 100 (frame_layout big_sample))) 0 =
      (corrupt_report ''bad_length_middle'' False 0 0, None :: unit recover_error option,
       Some (take 100 (frame_layout big_sample)), 0) \<and>
     fst (WAL_run [sample 109] w) = [None] \<and>
     snd (snd (snd (RecoverWithReport no_read_error True (total_handler (\<lambda>n e. Suc n))
       (Some (fdata (walFile (snd (WAL_run [sample 109] w))))) 0
         :: _ \<times> unit recover_error option \<times> _))) = 0"
proof -
  let ?d = "frames [] @ take 100 (frame_layout big_sample)"
  obtain w where w: "reopened w ?d" using reopened_ex by blast
  have size: "EncodedSize big_sample = 1016" by (simp add: big_sample_def EncodedSize_def)
  have "\<forall>e\<in>set []. loggable e" "(8 :: nat) < 100" "100 < 8 + EncodedSize big_sample"
    "length (?d @ frames [sample 109]) < EncodedSize big_sample"
    by (simp_all add: size) (simp add: sample_def EncodedSize_def)
  moreover have "loggable big_sample"
    by (simp add: loggable_def encodable_def size MaxRecordPayload_def)
      (simp add: big_sample_def)
  ultimately show ?thesis
    using wal_torn_large_frame_kept [of "[]" big_sample ?d 100 "[sample 109]" w _ _
        "\<lambda>n e. Suc n" 0, OF _ _ refl _ _ _ w prod.collapse [symmetric]] w
    by (intro exI [of _ w]) simp
qed

text \<open>
  C15. Nothing bounds the size of a write by what recovery accepts. A payload over
  \<open>MaxRecordPayload\<close> is acknowledged as synced like any other write, and recovery stops at it:
  neither it nor any write after it is replayed.
\<close>

theorem wal_oversized_write_unrecoverable:
  assumes "\<forall>e\<in>set es. loggable e" "MaxRecordPayload < EncodedSize e" "EncodedSize e < 2 ^ 32"
    and "reopened w []" "WAL_run (es @ e # later) w = (rs, w')"
  shows "rs = replicate (length es + 1 + length later) None \<and>
    fsynced (walFile w') = length (fdata (walFile w')) \<and>
    RecoverWithReport no_read_error True (total_handler h) (Some (fdata (walFile w'))) s =
      (corrupt_report ''bad_length_middle'' False (length es) (length (frames es)),
       None :: unit recover_error option, Some (fdata (walFile w')),
       foldl h s (map nil_empty es))"
proof -
  note run = reopened_run [OF assms(4,5)]
  let ?d = "frames es @ frame_layout e @ frames later" and ?off = "length (frames es)"
  have d: "fdata (walFile w') = ?d" using run(2) by simp
  have n: "unat (Uint32 (subslice (drop ?off ?d) 4 8)) = EncodedSize e"
    using frame_parts(2) [of e "frames later"] unat_of_nat32 [OF assms(3)] by simp
  have "replay_loop True h ?d ?off v u = stop_keep ''bad_length_middle'' ?d ?off v u" for v u
    using loop_bad_length [OF _ n, of True h v u] assms(2) by (simp add: EncodedSize_def)
  then show ?thesis
    using loop_frames [of ?d "[]" es "frame_layout e @ frames later" True h 0 s] assms(1) run
    by (simp add: d RecoverWithReport_def stop_keep_def flip: replicate_append_same replicate_add)
qed

theorem wal_oversized_write_unrecoverable_witness:
  "\<exists>w e. reopened w [] \<and> fst (WAL_run ([sample 107] @ e # [sample 109]) w) = [None, None, None] \<and>
     snd (snd (snd (RecoverWithReport no_read_error True (total_handler (\<lambda>n e. Suc n))
       (Some (fdata (walFile (snd (WAL_run ([sample 107] @ e # [sample 109]) w))))) 0
         :: _ \<times> unit recover_error option \<times> _))) = 1"
proof -
  define e where "e = NewPutEntry 1 [107] (Some (replicate 67108864 0))"
  obtain w where w: "reopened w []" using reopened_ex by blast
  have es: "\<forall>e\<in>set [sample 107]. loggable e" by simp
  have size: "EncodedSize e = 67108880" by (simp add: e_def EncodedSize_def)
  have "MaxRecordPayload < EncodedSize e" "EncodedSize e < 2 ^ 32"
    by (simp_all add: size MaxRecordPayload_def)
  from wal_oversized_write_unrecoverable [OF es this w prod.collapse [symmetric],
      of "[sample 109]" "\<lambda>n e. Suc n" 0] w
  show ?thesis by (intro exI [of _ w] exI [of _ e]) (simp add: numeral_3_eq_3)
qed

end
