(* ===== verification/EngineProps.thy ===== *)
theory EngineProps
  imports EngineSteps WalProps
begin

text \<open>
  Properties of the storage engine under writes, reads and background flushes, and what an explicit
  \<open>Flush\<close> loses.
\<close>

section \<open>The engine is a map\<close>

text \<open>
  C1. Linearizability. Start from any sound state and let clients write, delete and read while
  the background flush runs in between, with any failing system calls: every read answers what a map
  answers that is updated by exactly the writes that returned without an error, and the engine's
  contents are that map at every moment, also between the parts of a flush.
\<close>

theorem engine_refines_map:
  assumes "manifest_laws M used" "machine_ok M used s" "engine_run M used envs s evs s'"
  shows "machine_ok M used s' \<and> engine_view (fst s') = fold map_step evs (engine_view (fst s)) \<and>
    all_answer (engine_view (fst s)) evs"
  by (rule engine_run_ok [OF assms])

section \<open>A small engine\<close>

definition small_options :: "int \<Rightarrow> Options" where
  "small_options memsize =
     \<lparr>ogDir = ''db'', ogMemTableSize = memsize, ogTargetTableSize = 0, ogBlockSize = 0,
      ogBloomBits = (\<lambda>n. 20), ogBloomK = (\<lambda>bits n. 3), ogSyncPolicy = SyncAlways, ogSyncInterval = 0,
      ogL0CompactionTrigger = 4, ogAutoCompaction = False\<rparr>"

definition calm_env :: engine_env where
  "calm_env =
     \<lparr>evNow = 0, evRnd = (\<lambda>_ _. False), evWalOpen = (\<lambda>_. True), evWalIO = (\<lambda>_. []), evWalClose = (\<lambda>_. True),
      evWalRead = (\<lambda>_ _ _. True), evWalTruncate = (\<lambda>_. True), evRemove = (\<lambda>_. True),
      evTableIO = (\<lambda>_ _. True), evTableNow = (\<lambda>_. 0)\<rparr>"

definition empty_manifest :: mem_manifest where
  "empty_manifest = \<lparr>mmNext = 1, mmTables = []\<rparr>"

text \<open>What \<open>Open\<close> returns for an empty directory.\<close>

definition opened :: "int \<Rightarrow> mem_manifest Engine" where
  "opened memsize =
     (case fst (Open mem_manifest calm_env (small_options memsize) empty_manifest (\<lambda>_. no_files) (\<lambda>_. None) (Some []))
      of Inr e \<Rightarrow> e)"

lemma Open_empty:
  "fst (Open mem_manifest calm_env (small_options memsize) empty_manifest (\<lambda>_. no_files) (\<lambda>_. None) (Some [])) =
    Inr (opened memsize)"
  by (simp add: opened_def Open_def small_options_def mem_manifest_def mem_tables_def empty_manifest_def
      updateLevelTables_def Let_def calm_env_def open_wal_def WAL_Open_def split: prod.splits)

lemma opened_fields:
  "stReaders (opened n) = Map.empty" "stLevelTables (opened n) = (\<lambda>_. [])" "mmTables (stManifest (opened n)) = []"
  "mmNext (stManifest (opened n)) = 2" "stOpts (opened n) = small_options n"
  "egActiveMem (opened n) = MemTable_New (evRnd calm_env 1) 1 n" "egImmMem (opened n) = None"
  "\<not> egClosed (opened n)" "walClosed (egActiveWAL (opened n)) = False"
  "stWals (opened n) = [1 \<mapsto> []]" "walWriter (egActiveWAL (opened n)) = \<lparr>wbuf = [], wsize = 65536, werr = False\<rparr>"
  "walFile (egActiveWAL (opened n)) = \<lparr>fdata = [], fsynced = 0, fio = []\<rparr>"
  "stBypassBloom (opened n) = False" "walId (egActiveWAL (opened n)) = 1"
  "optSyncPolicy (walOptions (egActiveWAL (opened n))) = SyncAlways"
  by (simp_all add: opened_def Open_def small_options_def mem_manifest_def mem_tables_def empty_manifest_def
      updateLevelTables_def Let_def calm_env_def open_wal_def WAL_Open_def wal_options_def Store.defs Engine.defs fun_eq_iff
      split: prod.splits)

lemma opened_ok: "machine_ok mem_manifest mem_used (opened n, FlushIdle)"
proof -
  have "mfGetLevelTables mem_manifest (stManifest (opened n)) = (\<lambda>_. [])"
    by (rule ext) (simp add: mem_manifest_def mem_tables_def opened_fields)
  then show ?thesis
    by (simp add: machine_ok_def engine_ok_def store_ok_def mems_ok_def levels_ok_def readers_ok_def apart_def
        opened_fields)
qed

lemma view_append:
  "view (xs @ ys) k = (case version xs k of None \<Rightarrow> view ys k | Some e \<Rightarrow> value_of (Some e))"
  by (simp add: view_def version_append split: option.splits)

lemma view_append_cong: "view ys = view ys' \<Longrightarrow> view (xs @ ys) = view (xs @ ys')"
  by (rule ext) (simp add: view_append split: option.split)

lemma store_runs_empty: "stLevelTables st = (\<lambda>_. []) \<Longrightarrow> store_runs st = []"
  by (simp add: store_runs_def)

lemma opened_runs: "store_runs (opened n) = []" "engine_runs (opened n) = [[]]"
  by (simp_all add: store_runs_empty engine_runs_def mem_runs_def opened_fields)

lemma opened_view: "engine_view (opened n) = Map.empty"
  by (rule ext) (simp add: view_def opened_runs)

text \<open>A write succeeds when the log works and the memtable has room.\<close>

definition log_works :: "'m Engine \<Rightarrow> bool" where
  "log_works e \<longleftrightarrow> \<not> walClosed (egActiveWAL e) \<and> optSyncPolicy (walOptions (egActiveWAL e)) = SyncAlways \<and>
     \<not> werr (walWriter (egActiveWAL e)) \<and> wbuf (walWriter (egActiveWAL e)) = [] \<and> fio (walFile (egActiveWAL e)) = []"

lemma Put_works:
  assumes ok: "engine_ok M used e" and e: "\<not> egClosed e" "log_works e" "key \<noteq> []"
    "\<not> (ShouldFlush (egActiveMem e) \<and> egImmMem e \<noteq> None)"
  shows "\<exists>e'. Put M E key v e = (None, e')"
proof -
  let ?en = "NewPutEntry (evNow E) key v"
  obtain r w where w: "WAL_Write ?en (egActiveWAL e) = (r, w)" by fastforce
  then have "r = None" using WAL_Write_works [OF _ _ _ _ _ w] e(2) by (simp add: log_works_def)
  moreover obtain mem where "MemTable_Put ?en (egActiveMem e) = Some mem"
    using mem_Put [of "egActiveMem e" ?en] ok by (auto simp: engine_ok_def mems_ok_def)
  ultimately show ?thesis using e w by (auto simp: Put_def write_entry_def Let_def)
qed

lemma opened_works: "log_works (opened n)"
  by (simp add: log_works_def opened_fields)

text \<open>One write, one read.\<close>

theorem engine_refines_map_witness:
  "\<exists>s'. engine_run mem_manifest mem_used UNIV (opened 0, FlushIdle)
      [EvPut [1] (Some [9]) None, EvGet [1] (Inr (Some [9]))] s' \<and>
    engine_view (fst s') = [[1] \<mapsto> [9]]"
proof -
  let ?s = "(opened 0, FlushIdle)"
  obtain e1 where put: "Put mem_manifest calm_env [1] (Some [9]) (opened 0) = (None, e1)"
    using Put_works [where M = mem_manifest and used = mem_used and e = "opened 0" and key = "[1]" and E = calm_env and v = "Some [9]"] opened_ok opened_works
    by (auto simp: machine_ok_def opened_fields)
  have run1: "engine_run mem_manifest mem_used UNIV ?s [EvPut [1] (Some [9]) None] (e1, FlushIdle)"
    using run_step [OF run_start engine_step.put [OF put UNIV_I], of mem_used FlushIdle] by simp
  obtain r e2 where get: "Get [1] e1 = (r, e2)" by fastforce
  have run2: "engine_run mem_manifest mem_used UNIV ?s ([EvPut [1] (Some [9]) None] @ [EvGet [1] r]) (e2, FlushIdle)"
    by (rule run_step [OF run1 engine_step.get [OF get]])
  have ref: "engine_view e2 = [[1] \<mapsto> [9]]" "map_sum (\<lambda>err. err) contents r = Inr [9]"
    using engine_refines_map [OF mem_manifest_laws opened_ok run2]
    by (simp_all add: opened_view answers_def map_answer_def)
  have "r = Inr (Some [9])"
  proof -
    obtain v where v: "r = Inr v" "contents v = [9]" using ref(2) by (cases r) auto
    then show ?thesis by (cases v) (simp_all add: contents_def)
  qed
  then show ?thesis using run2 ref(1) by auto
qed

section \<open>An explicit flush over a pending one\<close>

lemma EntryCount_New [simp]: "EntryCount (MemTable_New rnd i n) = 0"
  using EntryCount_entries [of "MemTable_New rnd i n"] by simp

lemma New_not_full [simp]: "\<not> ShouldFlush (MemTable_New rnd i n)"
  by (simp add: ShouldFlush_def MemTable_New_def SkipList_ByteSize_def NewSkipList_def)

lemma imm_runs: "store_runs (e\<lparr>egImmMem := imm\<rparr>) = store_runs e"
  by (simp add: store_runs_def)

lemma rotate_new:
  assumes "\<forall>w. evWalOpen E w"
  shows "\<exists>w nid. egActiveMem (rotateMemTable M E e) = MemTable_New (evRnd E nid) nid (ogMemTableSize (stOpts e))"
proof -
  obtain res e2 where e2: "open_wal E (fst (mfNextID M (stManifest e)))
      ((set_wal (snd (WAL_Close (evWalClose E (walId (egActiveWAL e))) (egActiveWAL e))) e)
        \<lparr>egActiveMem := MarkImmutable (egActiveMem e), egImmMem := Some (MarkImmutable (egActiveMem e)),
         stManifest := snd (mfNextID M (stManifest e))\<rparr>) = (res, e2)"
    by fastforce
  then obtain w where "res = Inr w" using assms
    by (auto simp: open_wal_def WAL_Open_def Let_def)
  then show ?thesis using e2 by (auto simp: rotateMemTable_def Let_def split: prod.splits)
qed

text \<open>
  C35. An explicit flush drops a full memtable. When \<open>Flush\<close> is called while a memtable is waiting
  and the active one is full, flushing the waiting one rotates the active one into its place, and
  \<open>Flush\<close> then rotates once more and overwrites it: what the active memtable held is gone
  from the engine, although its writes were acknowledged and \<open>Flush\<close> reports success.
\<close>

theorem flush_drops_full_memtable:
  assumes laws: "manifest_laws M used" and ok: "engine_ok M used e" and open_e: "\<not> egClosed e"
    and imm: "egImmMem e = Some imm" and full: "ShouldFlush (egActiveMem e)"
    and fits: "flushable (stOpts e) imm" and room: "used (stManifest e) \<noteq> UNIV" and wal: "\<forall>w. evWalOpen E w"
    and res: "Flush M E e = (None, e')"
  shows "engine_view e' = view (mem_entries imm # store_runs e) \<and> engine_ok M used e' \<and> \<not> egClosed e'"
proof -
  obtain e1 where e1: "flushImmutable M E e = (None, e1)" "flushImmutable M E (rotateMemTable M E e1) = (None, e')"
    using res open_e imm by (auto simp: Flush_def split: prod.splits option.splits)
  obtain e0 where e0: "flushMemTableDirect M E imm e = (None, e0)"
    "e1 = flush_done E imm True (rotateMemTable M E (e0\<lparr>egImmMem := None\<rparr>))"
  proof -
    obtain r e0 where fl: "flushMemTableDirect M E imm e = (r, e0)" by fastforce
    then have "r = None" using e1(1) imm by (auto simp: flushImmutable_def split: option.splits)
    moreover have "egActiveMem e0 = egActiveMem e"
      using flush_write_spec(7) [OF laws ok imm fits room fl] .
    ultimately show ?thesis
      using that e1(1) imm fl full by (simp add: flushImmutable_def flush_commit_def Let_def)
  qed
  note w = flush_write_spec [OF laws ok imm fits room e0(1)]
  have ok0: "engine_ok M used (e0\<lparr>egImmMem := None\<rparr>)"
    using w(1) by (simp add: engine_ok_def store_ok_def mems_ok_def)
  then have st0: "store_ok M used (e0\<lparr>egImmMem := None\<rparr>)" "mem_ok (egActiveMem (e0\<lparr>egImmMem := None\<rparr>))"
    by (simp_all add: engine_ok_def mems_ok_def)
  note r0 = rotate_spec [OF laws st0, of E]
  have ok1: "engine_ok M used e1" using rotate_ok [OF laws ok0] by (simp add: e0(2) flush_done_frame)
  then have st1: "store_ok M used e1" "mem_ok (egActiveMem e1)" by (simp_all add: engine_ok_def mems_ok_def)
  obtain nid where act1: "egActiveMem e1 = MemTable_New (evRnd E nid) nid (ogMemTableSize (stOpts e0))"
    using rotate_new [OF wal, of M "e0\<lparr>egImmMem := None\<rparr>"] by (auto simp: e0(2) flush_done_frame)
  define e2 where "e2 = rotateMemTable M E e1"
  note r1 = rotate_spec [OF laws st1, of E, folded e2_def]
  obtain nid2 where act2: "egActiveMem e2 = MemTable_New (evRnd E nid2) nid2 (ogMemTableSize (stOpts e1))"
    using rotate_new [OF wal, of M e1] by (auto simp: e2_def)
  have imm2: "egImmMem e2 = Some (MarkImmutable (egActiveMem e1))" by (rule r1(3))
  have "flushMemTableDirect M E (MarkImmutable (egActiveMem e1)) e2 = (None, e2)"
    by (simp add: flushMemTableDirect_def act1)
  then have e': "e' = flush_done E (MarkImmutable (egActiveMem e1)) False (e2\<lparr>egImmMem := None\<rparr>)"
    using e1(2) imm2 act2 by (simp add: flushImmutable_def flush_commit_def Let_def flip: e2_def)
  have "store_runs e1 = store_runs e0"
    using r0(4) by (simp add: e0(2) flush_done_frame imm_runs)
  then have runs2: "store_runs e2 = store_runs e0" using r1(4) by simp
  have "engine_runs e' = mem_entries (egActiveMem e2) # store_runs e2"
    by (simp add: e' flush_done_frame engine_runs_def [of "e2\<lparr>egImmMem := None\<rparr>"] mem_runs_def imm_runs)
  then have "engine_view e' = view (store_runs e0)" using act2 runs2 by simp
  also have "\<dots> = view (mem_entries imm # store_runs e0)"
    using w(4) by (simp add: written_behind_def)
  also have "\<dots> = view (mem_entries imm # store_runs e)"
  proof (cases "mem_entries imm = []")
    case True
    have "store_ok M used e" "mem_ok imm" using ok imm by (simp_all add: engine_ok_def mems_ok_def)
    from flushMemTableDirect_spec(2) [OF laws this fits room e0(1)] True show ?thesis by simp
  next
    case False
    have "store_ok M used e" "mem_ok imm" using ok imm by (simp_all add: engine_ok_def mems_ok_def)
    from flushMemTableDirect_spec(2) [OF laws this fits room e0(1)] False
    have "store_runs e0 = map nil_empty (mem_entries imm) # store_runs e" by simp
    then show ?thesis by (simp only: view_Cons_cong [OF view_nil_empty] view_idem)
  qed
  finally have "engine_view e' = view (mem_entries imm # store_runs e)" .
  moreover have "engine_ok M used (e2\<lparr>egImmMem := None\<rparr>)" using r1(1,2) by (simp add: engine_ok_def store_ok_def mems_ok_def)
  then have "engine_ok M used e'" by (simp add: e' flush_done_frame)
  moreover have "\<not> egClosed e'"
    using open_e w(5) r0(6) r1(6) by (simp add: e' e0(2) flush_done_frame)
  ultimately show ?thesis by blast
qed


text \<open>Two memtables of one entry each with a limit of one byte.\<close>

lemma one_entry_mem:
  assumes "Key e \<noteq> []" "length (Key e) < 2 ^ 16" "EncodedSize e + 8 < 2 ^ 32"
  shows "\<exists>m. mem_ok m \<and> mem_entries m = [e] \<and> ShouldFlush m \<and> flushable (small_options n) m"
proof -
  let ?m = "MemTable_New (\<lambda>_. False) 1 1"
  obtain m where m: "MemTable_Put e ?m = Some m" "mem_ok m" "mem_entries m = put_entry e []"
    using mem_Put [of ?m e] by auto
  then have es: "mem_entries m = [e]" by (simp add: put_entry_def)
  have "sl_inv (mtList m) [e]" using mem_okD [OF m(2)] es by simp
  then have "1 \<le> slBytes (mtList m)" by (auto simp: sl_inv_def)
  moreover have "mtMaxBytes m = 1" using m(1) by (auto simp: MemTable_Put_def MemTable_New_def)
  ultimately have "ShouldFlush m" by (simp add: ShouldFlush_def SkipList_ByteSize_def)
  then show ?thesis using m(2) es assms
    by (intro exI [of _ m]) (simp add: flushable_def storable_run_def small_options_def NewBloomFilter_def Let_def)
qed

text \<open>An engine whose active memtable is full while another one waits to be flushed.\<close>

lemma stalled_engine:
  "\<exists>e imm. engine_ok mem_manifest mem_used e \<and> \<not> egClosed e \<and> egImmMem e = Some imm \<and>
    ShouldFlush (egActiveMem e) \<and> flushable (stOpts e) imm \<and> mem_used (stManifest e) \<noteq> UNIV \<and>
    flushable (stOpts e) (egActiveMem e) \<and> card (mem_used (stManifest e)) \<le> 2 \<and>
    engine_runs e = [[NewPutEntry 2 [2] (Some [20])], [NewPutEntry 1 [1] (Some [10])]] \<and> store_runs e = [] \<and>
    mem_ok imm \<and> mem_entries imm = [NewPutEntry 1 [1] (Some [10])]"
proof -
  let ?a = "NewPutEntry 1 [1] (Some [10])" and ?b = "NewPutEntry 2 [2] (Some [20])"
  obtain m1 where m1: "mem_ok m1" "mem_entries m1 = [?a]" "flushable (small_options 1) m1"
    using one_entry_mem [of ?a 1] by (auto simp: EncodedSize_def)
  obtain m2 where m2: "mem_ok m2" "mem_entries m2 = [?b]" "ShouldFlush m2" "flushable (small_options 1) m2"
    using one_entry_mem [of ?b 1] by (auto simp: EncodedSize_def)
  define e where "e = (opened 1)\<lparr>egActiveMem := m2, egImmMem := Some m1\<rparr>"
  have "engine_ok mem_manifest mem_used e" "\<not> egClosed e"
    using opened_ok [of 1] m1 m2 by (simp_all add: e_def machine_ok_def engine_ok_def store_ok_def mems_ok_def)
  moreover have "engine_runs e = [[?b], [?a]]" "store_runs e = []"
    using opened_runs [of 1] by (simp_all add: e_def engine_runs_def mem_runs_def m1 m2 store_runs_def)
  moreover have ids: "card (mem_used (stManifest e)) \<le> 2"
    using card_image_le [of "{..<2::nat}" "word_of_nat :: nat \<Rightarrow> uint64"] by (simp add: mem_used_def e_def opened_fields)
  moreover have "mem_used (stManifest e) \<noteq> UNIV" using ids by (auto simp: card_word)
  moreover have "egImmMem e = Some m1" "ShouldFlush (egActiveMem e)" "flushable (stOpts e) m1"
    "flushable (stOpts e) (egActiveMem e)"
    using m1 m2 by (simp_all add: e_def opened_fields)
  ultimately show ?thesis using m1 by blast
qed

text \<open>The second write is acknowledged, the flush succeeds, and the value is gone.\<close>

theorem flush_drops_full_memtable_witness:
  "\<exists>e e'. fst (Get [2] e) = Inr (Some [20]) \<and> Flush mem_manifest calm_env e = (None, e') \<and>
    fst (Get [1] e') = Inr (Some [10]) \<and> fst (Get [2] e') = Inl KeyNotFound"
proof -
  let ?M = mem_manifest and ?a = "NewPutEntry 1 [1] (Some [10])" and ?b = "NewPutEntry 2 [2] (Some [20])"
  obtain e m1 where e: "engine_ok ?M mem_used e" "\<not> egClosed e" "egImmMem e = Some m1" "ShouldFlush (egActiveMem e)"
    "flushable (stOpts e) m1" "mem_used (stManifest e) \<noteq> UNIV" "engine_runs e = [[?b], [?a]]" "store_runs e = []"
    "mem_ok m1" "mem_entries m1 = [?a]"
    using stalled_engine by blast
  define m2 where "m2 = egActiveMem e"
  have m1: "mem_ok m1" "mem_entries m1 = [?a]" and m2: "ShouldFlush m2" using e by (simp_all add: m2_def)
  note ok = e(1,2) and runs = e(7,8) and room = e(6)
  have parts: "egImmMem e = Some m1" "ShouldFlush (egActiveMem e)" "flushable (stOpts e) m1" "\<forall>w. evWalOpen calm_env w"
    using e by (simp_all add: calm_env_def)
  have io: "\<forall>tid x. evTableIO calm_env tid x" "\<forall>edit m. fst (mfLogAndApply ?M edit m)"
    by (simp_all add: calm_env_def mem_manifest_def)
  obtain e0 where fl: "flushMemTableDirect ?M calm_env m1 e = (None, e0)"
    using flushMemTableDirect_works [OF m1(1) parts(3) io] by (metis prod.collapse)
  have "egActiveMem e0 = m2"
    using flush_write_spec(7) [OF mem_manifest_laws ok(1) parts(1,3) room fl] by (simp add: m2_def)
  then have e1: "flushImmutable ?M calm_env e =
      (None, flush_done calm_env m1 True (rotateMemTable ?M calm_env (e0\<lparr>egImmMem := None\<rparr>)))"
    using parts(1) fl m2 by (simp add: flushImmutable_def flush_commit_def Let_def)
  define e1 where "e1 = flush_done calm_env m1 True (rotateMemTable ?M calm_env (e0\<lparr>egImmMem := None\<rparr>))"
  obtain nid n where act1: "egActiveMem e1 = MemTable_New (evRnd calm_env nid) nid n"
    using rotate_new [OF parts(4), of ?M "e0\<lparr>egImmMem := None\<rparr>"] by (auto simp: e1_def flush_done_frame)
  have imm2: "egImmMem (rotateMemTable ?M calm_env e1) = Some (MarkImmutable (egActiveMem e1))"
  proof -
    have "engine_ok ?M mem_used (e0\<lparr>egImmMem := None\<rparr>)"
      using flush_write_spec(1) [OF mem_manifest_laws ok(1) parts(1,3) room fl]
      by (simp add: engine_ok_def store_ok_def mems_ok_def)
    from rotate_ok [OF mem_manifest_laws this, of calm_env] have "engine_ok ?M mem_used e1"
      by (simp add: e1_def flush_done_frame)
    then show ?thesis
      by (intro rotate_spec(3) [OF mem_manifest_laws]) (simp_all add: engine_ok_def mems_ok_def)
  qed
  have "fst (flushImmutable ?M calm_env (rotateMemTable ?M calm_env e1)) = None"
    using imm2 act1 by (auto simp: flushImmutable_def flushMemTableDirect_def split: prod.splits)
  then obtain e' where e': "Flush ?M calm_env e = (None, e')"
    using parts(1) ok(2) e1 by (simp add: Flush_def flip: e1_def) (metis prod.collapse)
  have after_flush: "engine_view e' = view [[?a]]" "engine_ok ?M mem_used e'" "\<not> egClosed e'"
    using flush_drops_full_memtable [OF mem_manifest_laws ok parts(1,2,3) room parts(4) e'] runs(2) m1(2) by simp_all
  have "engine_view e [2] = Some [20]" "engine_view e' [1] = Some [10]" "engine_view e' [2] = None"
    by (simp_all add: after_flush(1) runs(1) view_def version_def)
  then show ?thesis
    using Get_value [OF ok, of "[2]"] Get_value [OF after_flush(2,3), of "[1]"]
      Get_value [OF after_flush(2,3), of "[2]"] e'
    by (intro exI [of _ e] exI [of _ e']) simp
qed

end
