(* ===== verification/EngineScan.thy ===== *)
theory EngineScan
  imports EngineProps
begin

text \<open>
  Range scans of the engine: the iterators a scan merges, and what it yields against what single
  reads return.
\<close>

section \<open>One iterator for memtables and tables\<close>

definition any_inv :: "engine_iter \<Rightarrow> bool" where
  "any_inv = case_sum skip_inv table_inv"

definition any_all :: "engine_iter \<Rightarrow> Entry list" where
  "any_all = case_sum siEntries (\<lambda>it. table_entries (tiReader it))"

definition any_rest :: "engine_iter \<Rightarrow> Entry list" where
  "any_rest = case_sum skip_rest table_rest"

lemmas any_defs = any_inv_def any_all_def any_rest_def any_iterator_def

interpretation any: sorted_iterator any_iterator any_inv any_all any_rest
proof unfold_locales
  fix i :: engine_iter and k
  assume inv: "any_inv i"
  show "keys_sorted (any_all i)" "\<exists>n. any_rest i = drop n (any_all i)"
    using inv skip.all_sorted skip.rest_suffix table.all_sorted table.rest_suffix
    by (cases i; simp add: any_defs)+
  show "itValid any_iterator i = (any_rest i \<noteq> [])"
    using inv skip.valid_iff table.valid_iff by (cases i) (simp_all add: any_defs)
  show "any_rest (itNext any_iterator i) = tl (any_rest i)"
    using inv skip.next_tl table.next_tl by (cases i) (simp_all add: any_defs)
  show "any_inv (itNext any_iterator i) \<and> any_all (itNext any_iterator i) = any_all i"
    using inv skip.next_inv table.next_inv by (cases i) (simp_all add: any_defs)
  show "any_rest (itSeek any_iterator k i) = dropWhile (\<lambda>e. Key e < k) (any_all i)"
    using inv skip.seek_drop table.seek_drop by (cases i) (simp_all add: any_defs)
  show "any_inv (itSeek any_iterator k i) \<and> any_all (itSeek any_iterator k i) = any_all i"
    using inv skip.seek_inv table.seek_inv by (cases i) (simp_all add: any_defs)
next
  fix i :: engine_iter
  assume "any_inv i" "any_rest i \<noteq> []"
  then show "itEntry any_iterator i = Some (hd (any_rest i))" "itKey any_iterator i = Key (hd (any_rest i))"
    using skip.entry_hd skip.key_hd table.entry_hd table.key_hd by (cases i; simp add: any_defs)+
qed

section \<open>The iterators of a scan\<close>

text \<open>The inputs' readers have not been closed.\<close>

definition readers_open :: "readers \<Rightarrow> bool" where
  "readers_open R \<longleftrightarrow> (\<forall>t r. R t = Some r \<longrightarrow> \<not> rdClosed r)"

definition kept_tables :: "(SSTableReader \<Rightarrow> bool) \<Rightarrow> readers \<Rightarrow> uint64 list \<Rightarrow> uint64 list" where
  "kept_tables keep R ts = filter (\<lambda>t. case R t of None \<Rightarrow> False | Some r \<Rightarrow> keep r) ts"

text \<open>Fresh iterators: positioned at their first entry.\<close>

definition fresh_iters :: "engine_iter list \<Rightarrow> Entry list list \<Rightarrow> bool" where
  "fresh_iters its runs \<longleftrightarrow> (\<forall>i\<in>set its. any_inv i) \<and> map any_all its = runs \<and> map any_rest its = runs"

lemma fresh_iters_simps [simp]:
  "fresh_iters [] runs \<longleftrightarrow> runs = []"
  "fresh_iters its runs \<Longrightarrow> fresh_iters its' runs' \<Longrightarrow> fresh_iters (its @ its') (runs @ runs')"
  by (auto simp: fresh_iters_def)

lemma table_iters_fresh:
  assumes "readers_ok R ts" "readers_open R"
  shows "fresh_iters (table_iters keep R ts) (map (table_run R) (kept_tables keep R ts))"
  using assms(1)
proof (induction ts)
  case (Cons t ts)
  then obtain r where r: "R t = Some r" "reader_ok r" by (auto simp: readers_ok_def)
  have ts: "fresh_iters (table_iters keep R ts) (map (table_run R) (kept_tables keep R ts))"
    using Cons by (simp add: readers_ok_def)
  obtain it where it: "Reader_NewIterator r = Inr it" "table_inv it" "tiReader it = r" "table_rest it = table_entries r"
    using NewIterator_table [of r] r assms(2) by (auto simp: reader_ok_def readers_open_def)
  then have "fresh_iters [Inr it] [table_run R t]"
    using r(1) by (simp add: fresh_iters_def any_inv_def any_all_def any_rest_def table_run_def)
  from fresh_iters_simps(2) [OF this ts] show ?case
    using r(1) it(1) ts by (simp add: table_iters_def kept_tables_def)
qed (simp add: table_iters_def kept_tables_def)

lemma table_iters_all:
  assumes "readers_ok R ts" "readers_open R"
  shows "fresh_iters (table_iters (\<lambda>_. True) R ts) (map (table_run R) ts)"
proof -
  have "kept_tables (\<lambda>_. True) R ts = ts"
    using assms(1) by (auto simp: kept_tables_def readers_ok_def filter_id_conv split: option.split)
  then show ?thesis using table_iters_fresh [OF assms, of "\<lambda>_. True"] by simp
qed

lemma mem_iter_fresh: "mem_ok m \<Longrightarrow> fresh_iters [Inl \<lparr>siEntries = mem_entries m, siIdx = 0\<rparr>] [mem_entries m]"
  by (simp add: fresh_iters_def any_inv_def any_all_def any_rest_def skip_inv_def skip_rest_def mem_sorted)

definition scan_runs :: "bytes \<Rightarrow> bytes \<Rightarrow> 'm Engine \<Rightarrow> Entry list list" where
  "scan_runs startKey endKey e =
     mem_runs e @ map (table_run (stReaders e)) (rev (stLevelTables e 0)) @
     concat (map (\<lambda>l. map (table_run (stReaders e))
       (kept_tables (in_scan_range startKey endKey) (stReaders e) (stLevelTables e l))) [1..6])"

lemma fresh_iters_concat:
  "(\<And>l. l \<in> set ls \<Longrightarrow> fresh_iters (f l) (g l)) \<Longrightarrow> fresh_iters (concat (map f ls)) (concat (map g ls))"
  by (induction ls) simp_all

lemma scan_iters_fresh:
  assumes ok: "engine_ok M used e" and op: "readers_open (stReaders e)"
  shows "\<exists>its. scan_iters s k e = Some its \<and> fresh_iters its (scan_runs s k e)"
proof -
  let ?R = "stReaders e" and ?L = "stLevelTables e"
  have st: "store_ok M used e" and mems: "mem_ok (egActiveMem e)" "\<And>imm. egImmMem e = Some imm \<Longrightarrow> mem_ok imm"
    using ok by (simp_all add: engine_ok_def mems_ok_def)
  have "readers_ok ?R (rev (?L 0))" using store_levels(1) [OF st, of 0] by (simp add: readers_ok_def)
  note l0 = table_iters_all [OF this op]
  have levels: "fresh_iters (concat (map (\<lambda>l. table_iters (in_scan_range s k) ?R (?L l)) [1..6]))
      (concat (map (\<lambda>l. map (table_run ?R) (kept_tables (in_scan_range s k) ?R (?L l))) [1..6]))"
    using store_levels(1) [OF st] by (intro fresh_iters_concat table_iters_fresh [OF _ op]) (simp del: upto_rec_numeral)
  obtain imm where imm: "(case egImmMem e of None \<Rightarrow> Some []
      | Some imm \<Rightarrow> map_option (\<lambda>it. [Inl it]) (MemTable_NewIterator imm)) = Some imm"
    "fresh_iters imm (case egImmMem e of None \<Rightarrow> [] | Some imm \<Rightarrow> [mem_entries imm])"
    using mem_iter_fresh [OF mems(2)] mem_iterator [OF mems(2)] by (cases "egImmMem e") auto
  show ?thesis
    using fresh_iters_simps(2) [OF mem_iter_fresh [OF mems(1)]
        fresh_iters_simps(2) [OF imm(2) fresh_iters_simps(2) [OF l0 levels]]]
    by (simp add: scan_iters_def mem_iterator [OF mems(1)] imm(1) scan_runs_def mem_runs_def del: upto_rec_numeral)
qed

section \<open>The range\<close>

definition in_range :: "bytes \<Rightarrow> bytes \<Rightarrow> bytes \<Rightarrow> bool" where
  "in_range startKey endKey k \<longleftrightarrow> startKey \<le> k \<and> (endKey = [] \<or> k \<le> endKey)"

lemma kept_version:
  assumes "readers_ok R ts" "in_range s u k"
  shows "version (map (table_run R) (kept_tables (in_scan_range s u) R ts)) k = version (map (table_run R) ts) k"
  using assms(1)
proof (induction ts)
  case (Cons t ts)
  then obtain r where r: "R t = Some r" "reader_ok r" by (auto simp: readers_ok_def)
  have ts: "version (map (table_run R) (kept_tables (in_scan_range s u) R ts)) k = version (map (table_run R) ts) k"
    using Cons by (simp add: readers_ok_def)
  have run: "table_run R t = table_entries r" using r(1) by (simp add: table_run_def)
  show ?case
  proof (cases "in_scan_range s u r")
    case True
    then have "kept_tables (in_scan_range s u) R (t # ts) = t # kept_tables (in_scan_range s u) R ts"
      using r(1) by (simp add: kept_tables_def)
    then show ?thesis
      using ts version_Cons [of "table_entries r" "map (table_run R) (kept_tables (in_scan_range s u) R ts)" k]
        version_Cons [of "table_entries r" "map (table_run R) ts" k]
      by (simp add: run split: option.split)
  next
    case False
    then have "\<not> covers r k"
      using assms(2) by (auto simp: in_scan_range_def in_range_def covers_def)
    then have "version [table_entries r] k = None"
      using version_covers [OF r(2), of k] by (cases "version [table_entries r] k") auto
    then show ?thesis
      using r(1) ts False version_Cons [of "table_entries r" "map (table_run R) ts" k]
      by (simp add: kept_tables_def run)
  qed
qed (simp add: kept_tables_def)

lemma version_concat_cong:
  "(\<And>l. l \<in> set ls \<Longrightarrow> version (f l) k = version (g l) k) \<Longrightarrow>
    version (concat (map f ls)) k = version (concat (map g ls)) k"
  by (induction ls) (simp_all add: version_append split: option.split)

lemma scan_version:
  assumes "engine_ok M used e" "in_range s u k"
  shows "version (scan_runs s u e) k = version (engine_runs e) k"
proof -
  let ?R = "stReaders e" and ?L = "stLevelTables e"
  have "store_ok M used e" using assms(1) by (simp add: engine_ok_def)
  then have "readers_ok ?R (?L l)" if "l \<in> set [1..6]" for l
    using store_levels(1) [of M used e l] that by (simp del: upto_rec_numeral)
  then have levels: "version (concat (map (\<lambda>l. map (table_run ?R) (kept_tables (in_scan_range s u) ?R (?L l))) [1..6])) k =
      version (concat (map (\<lambda>l. map (table_run ?R) (?L l)) [1..6])) k"
    by (intro version_concat_cong kept_version [OF _ assms(2)])
  show ?thesis
    unfolding scan_runs_def engine_runs_def store_runs_def version_append levels ..
qed

lemma find_filter_same: "(\<And>x. P x \<Longrightarrow> Q x) \<Longrightarrow> find P (filter Q xs) = find P xs"
  by (induction xs) auto

lemma Scan_spec:
  assumes ok: "engine_ok M used e" and e: "\<not> egClosed e" "readers_open (stReaders e)"
  shows "\<exists>m. Scan s u e = Some (Inr m) \<and>
    drain any_iterator m [] = Some (filter (\<lambda>x. s \<le> Key x) (merged_view True (scan_runs s u e)))"
proof -
  obtain its where its: "scan_iters s u e = Some its" "fresh_iters its (scan_runs s u e)"
    using scan_iters_fresh [OF ok e(2)] by blast
  then have inv: "\<And>i. Some i \<in> set (map Some its) \<Longrightarrow> any_inv i"
    and runs: "runs_of any_rest (map Some its) = scan_runs s u e" "runs_of any_all (map Some its) = scan_runs s u e"
    by (auto simp: fresh_iters_def runs_of_def comp_def)
  obtain m where m: "NewMergedIterator any_iterator (map Some its) True = Some m"
    "any.merged_at m (merged_view True (scan_runs s u e))"
    "runs_of any_all (iters m) = scan_runs s u e" "dropTombstones m"
    using any.New_spec [where its = "map Some its" and d = True, OF inv] runs by auto
  show ?thesis
  proof (cases "s = []")
    case True
    then have "filter (\<lambda>x. s \<le> Key x) (merged_view True (scan_runs s u e)) = merged_view True (scan_runs s u e)"
      by (simp add: filter_id_conv)
    then show ?thesis
      using its(1) m(1) e(1) True any.drain_spec [OF m(2), of "[]"] by (simp add: Scan_def)
  next
    case False
    have "\<And>i. Some i \<in> set (iters m) \<Longrightarrow> any_inv i"
      using m(2) by (auto simp: any.merged_at_def merger_inv_def)
    from any.Seek_spec [where m = m and k = s, OF this] obtain m' where m': "Merged_Seek any_iterator s m = Some m'"
      "any.merged_at m' (filter (\<lambda>x. s \<le> Key x) (merged_view True (scan_runs s u e)))"
      using m(3,4) by auto
    then show ?thesis
      using its(1) m(1) e(1) False any.drain_spec [OF m'(2), of "[]"] by (simp add: Scan_def)
  qed
qed

lemma Scan_agrees:
  assumes "engine_ok M used e" "\<not> egClosed e" "readers_open (stReaders e)"
  shows "\<exists>m es. Scan startKey endKey e = Some (Inr m) \<and> drain any_iterator m [] = Some es \<and>
    keys_sorted es \<and> (\<forall>x\<in>set es. startKey \<le> Key x \<and> \<not> IsTombstone x) \<and>
    (\<forall>k. in_range startKey endKey k \<longrightarrow>
      map_option (\<lambda>x. contents (Value x)) (find (\<lambda>x. Key x = k) es) = engine_view e k)"
proof -
  let ?mv = "merged_view True (scan_runs startKey endKey e)"
  let ?es = "filter (\<lambda>x. startKey \<le> Key x) ?mv"
  obtain m where m: "Scan startKey endKey e = Some (Inr m)" "drain any_iterator m [] = Some ?es"
    using Scan_spec [OF assms] by blast
  have "keys_sorted ?es" using merged_view_sorted by (intro keys_sorted_filter)
  moreover have "\<forall>x\<in>set ?es. startKey \<le> Key x \<and> \<not> IsTombstone x" by (auto simp: merged_view_mem)
  moreover have "map_option (\<lambda>x. contents (Value x)) (find (\<lambda>x. Key x = k) ?es) = engine_view e k"
    if "in_range startKey endKey k" for k
  proof -
    have "find (\<lambda>x. Key x = k) ?es = find (\<lambda>x. Key x = k) ?mv"
      using that by (intro find_filter_same) (auto simp: in_range_def)
    then show ?thesis
      using scan_version [OF assms(1) that]
      by (simp add: merged_view_find view_def value_of_def split: option.splits)
  qed
  ultimately show ?thesis using m by blast
qed

text \<open>
  C6. A scan agrees with reads. Draining the iterator of a scan ends and yields entries with strictly
  ascending keys from \<open>startKey\<close> on and without tombstones; for every key of the range it
  yields an entry exactly when a read finds a value, and with the same value.
\<close>

theorem scan_agrees_with_reads:
  assumes "engine_ok M used e" "\<not> egClosed e" "readers_open (stReaders e)"
  shows "\<exists>m es. Scan startKey endKey e = Some (Inr m) \<and> drain any_iterator m [] = Some es \<and>
    keys_sorted es \<and> (\<forall>x\<in>set es. startKey \<le> Key x \<and> \<not> IsTombstone x) \<and>
    (\<forall>k. in_range startKey endKey k \<longrightarrow>
      map_option (\<lambda>x. contents (Value x)) (find (\<lambda>x. Key x = k) es) = engine_view e k)"
  by (rule Scan_agrees [OF assms])

text \<open>Two memtables with a key each: a scan of the first key alone yields the second key as well.\<close>

theorem scan_agrees_with_reads_witness:
  "\<exists>(e :: mem_manifest Engine) m x y. Scan [1] [1] e = Some (Inr m) \<and> drain any_iterator m [] = Some [x, y] \<and>
    Key x = [1] \<and> contents (Value x) = [10] \<and> engine_view e [1] = Some [10] \<and> Key y = [2]"
proof -
  let ?a = "NewPutEntry 1 [1] (Some [10])" and ?b = "NewPutEntry 2 [2] (Some [20])"
  obtain m1 where m1: "mem_ok m1" "mem_entries m1 = [?a]"
    using one_entry_mem [of ?a 1] by (auto simp: EncodedSize_def)
  obtain m2 where m2: "mem_ok m2" "mem_entries m2 = [?b]"
    using one_entry_mem [of ?b 1] by (auto simp: EncodedSize_def)
  define e where "e = (opened 1)\<lparr>egActiveMem := m2, egImmMem := Some m1\<rparr>"
  have ok: "engine_ok mem_manifest mem_used e" "\<not> egClosed e" "readers_open (stReaders e)"
    using opened_ok [of 1] m1 m2
    by (simp_all add: e_def machine_ok_def engine_ok_def store_ok_def mems_ok_def readers_open_def opened_fields)
  have "scan_runs [1] [1] e = [[?b], [?a]]"
    by (simp add: scan_runs_def mem_runs_def e_def m1 m2 opened_fields kept_tables_def)
  moreover have "merged_view True [[?b], [?a]] = [?a, ?b]"
    by (simp add: merged_view_def version_def)
  ultimately obtain m where m: "Scan [1] [1] e = Some (Inr m)" "drain any_iterator m [] = Some [?a, ?b]"
    using Scan_spec [OF ok, of "[1]" "[1]"] by auto
  have "map_option (\<lambda>x. contents (Value x)) (find (\<lambda>x. Key x = [1]) [?a, ?b]) = engine_view e [1]"
    using scan_agrees_with_reads [OF ok, of "[1]" "[1]"] m by (auto simp: in_range_def)
  then have "engine_view e [1] = Some [10]" by (simp add: eq_commute)
  then show ?thesis
    using m by (intro exI [of _ e] exI [of _ m] exI [of _ ?a] exI [of _ ?b]) simp
qed

end
