(* ===== verification/EngineCompact.thy ===== *)
theory EngineCompact
  imports EngineProps EngineScan
begin

text \<open>
  A compaction step of the engine: the levels stay free of overlaps, a compaction between deeper
  levels leaves the view as it is, and a compaction of level 0 makes its oldest tables win.
\<close>

section \<open>Levels after a compaction\<close>

text \<open>What \<open>PickCompaction\<close> guarantees of a task.\<close>

definition task_ok :: "LevelConfig \<Rightarrow> readers \<Rightarrow> (int \<Rightarrow> uint64 list) \<Rightarrow> CompactionTask \<Rightarrow> bool" where
  "task_ok cfg R L task \<longleftrightarrow>
     (FromLevel task = 0 \<and> InputFrom task = L 0 \<or>
      1 \<le> FromLevel task \<and> L (FromLevel task) \<noteq> [] \<and> InputFrom task = [hd (L (FromLevel task))]) \<and>
     ToLevel task = FromLevel task + 1 \<and>
     InputTo task = findOverlapping (InputFrom task) (L (ToLevel task)) R \<and>
     IsBottom task = isBottomLevel cfg (ToLevel task) L"

lemma PickCompaction_task_ok: "PickCompaction F cfg L R = Some task \<Longrightarrow> task_ok cfg R L task"
  by (cases rule: PickCompaction_cases) (auto simp: task_ok_def)

abbreviation task_inputs :: "CompactionTask \<Rightarrow> uint64 list" where
  "task_inputs task \<equiv> InputFrom task @ InputTo task"

text \<open>The readers \<open>R'\<close> after the new tables have replaced the inputs.\<close>

definition compaction_swap ::
  "readers \<Rightarrow> (int \<Rightarrow> uint64 list) \<Rightarrow> CompactionTask \<Rightarrow> uint64 list \<Rightarrow> Entry list list \<Rightarrow> readers \<Rightarrow> bool" where
  "compaction_swap R L task new groups R' \<longleftrightarrow>
     distinct new \<and> (\<forall>l. set new \<inter> set (L l) = {}) \<and>
     (\<forall>t. t \<notin> set new \<longrightarrow> R' t = (if t \<in> set (task_inputs task) then None else R t)) \<and>
     list_all2 (\<lambda>t g. g \<noteq> [] \<and> (\<exists>r. R' t = Some r \<and> reader_ok r \<and> table_entries r = map nil_empty g)) new groups \<and>
     concat groups = merged_view (IsBottom task) (input_runs R (task_inputs task))"

definition levels_after :: "(int \<Rightarrow> uint64 list) \<Rightarrow> CompactionTask \<Rightarrow> uint64 list \<Rightarrow> int \<Rightarrow> uint64 list" where
  "levels_after L task new l =
     filter (\<lambda>t. t \<notin> set (task_inputs task)) (L l) @ (if l = ToLevel task then new else [])"

lemma compaction_edit_levels: "apply_edit (compaction_edit task new) L = levels_after L task new"
  by (rule ext) (simp add: apply_edit_def compaction_edit_def levels_after_def filter_map comp_def map_idI)

lemma readers_ok_proper: "readers_ok R ts \<Longrightarrow> proper_ranges R (set ts)"
  unfolding proper_ranges_def
proof (intro ballI allI impI)
  fix t r assume "readers_ok R ts" "t \<in> set ts" "R t = Some r"
  then have r: "reader_ok r" by (auto simp: readers_ok_def)
  then have "hd (table_entries r) \<in> set (table_entries r)" by (simp add: reader_ok_def)
  then have "mdMinKey (rdMeta r) \<noteq> []" using r by (simp add: reader_ok_def)
  then show "mdMinKey (rdMeta r) \<noteq> [] \<and> mdMinKey (rdMeta r) \<le> mdMaxKey (rdMeta r)"
    using reader_covers_min [OF r] by (auto simp: covers_def)
qed

lemma apart_pair:
  assumes "apart R ts" "t \<in> set ts" "u \<in> set ts" "t \<noteq> u" "R t = Some r" "R u = Some s"
  shows "\<not> (covers r k \<and> covers s k)"
proof -
  obtain i j where ij: "i < length ts" "t = ts ! i" "j < length ts" "u = ts ! j"
    using assms(2,3) by (auto simp: in_set_conv_nth)
  then consider "i < j" | "j < i" using assms(4) by (cases i j rule: linorder_cases) auto
  then show ?thesis
  proof cases
    case 1
    then show ?thesis using sorted_wrt_nth_less [OF assms(1) [unfolded apart_def] 1 ij(3)] ij assms(5,6) by blast
  next
    case 2
    then show ?thesis using sorted_wrt_nth_less [OF assms(1) [unfolded apart_def] 2 ij(1)] ij assms(5,6) by blast
  qed
qed

text \<open>A table of the target level that stays lies below all inputs or above all of them.\<close>

lemma remaining_side:
  assumes ok: "levels_ok R L" and task: "task_ok cfg R L task"
    and t: "t \<in> set (L (ToLevel task))" "t \<notin> set (task_inputs task)" "R t = Some rt"
  shows "(\<forall>i\<in>set (task_inputs task). \<forall>r. R i = Some r \<longrightarrow> mdMaxKey (rdMeta rt) < mdMinKey (rdMeta r)) \<or>
    (\<forall>i\<in>set (task_inputs task). \<forall>r. R i = Some r \<longrightarrow> mdMaxKey (rdMeta r) < mdMinKey (rdMeta rt))"
proof -
  let ?F = "InputFrom task" and ?T = "L (ToLevel task)"
  have lev: "set ?F \<subseteq> set (L (FromLevel task))" "ToLevel task \<ge> 1" "InputTo task = findOverlapping ?F ?T R"
    using task by (auto simp: task_ok_def)
  have "readers_ok R (L (FromLevel task))" using ok by (simp add: levels_ok_def)
  then have "readers_ok R ?F" using lev(1) unfolding readers_ok_def by blast
  then have proper: "proper_ranges R (set ?F)" by (rule readers_ok_proper)
  obtain lo hi where r: "range_of_tables R ?F [] [] = (lo, hi)" by fastforce
  have hull: "lo \<le> mdMinKey (rdMeta rf)" "mdMaxKey (rdMeta rf) \<le> hi" if "f \<in> set ?F" "R f = Some rf" for f rf
    using range_of_tables_spec [OF proper r] that by blast+
  have ap: "apart R ?T" using ok lev(2) by (auto simp: levels_ok_def)
  have tc: "covers rt (mdMaxKey (rdMeta rt))" "covers rt (mdMinKey (rdMeta rt))"
  proof -
    have "reader_ok rt" using ok t(1,3) unfolding levels_ok_def readers_ok_def by (metis option.inject)
    from reader_covers_min [OF this] show "covers rt (mdMaxKey (rdMeta rt))" "covers rt (mdMinKey (rdMeta rt))"
      by (auto simp: covers_def)
  qed
  have over: "lo \<le> mdMaxKey (rdMeta ru) \<and> mdMinKey (rdMeta ru) \<le> hi \<and> (\<forall>k. \<not> (covers rt k \<and> covers ru k))"
    if u: "u \<in> set (InputTo task)" "R u = Some ru" for u ru
  proof -
    have "u \<in> set ?T" using u(1) findOverlapping_subset lev(3) by fastforce
    moreover have "u \<noteq> t" using u(1) t(2) by auto
    ultimately have "\<forall>k. \<not> (covers rt k \<and> covers ru k)" using apart_pair [OF ap t(1) _ _ t(3) u(2)] by blast
    then show ?thesis using u lev(3) r by (auto simp: findOverlapping_def split: if_splits)
  qed
  have "mdMaxKey (rdMeta rt) < lo \<or> hi < mdMinKey (rdMeta rt)"
    using t lev(3) r by (auto simp: findOverlapping_def split: if_splits)
  then show ?thesis
  proof
    assume below: "mdMaxKey (rdMeta rt) < lo"
    have "mdMaxKey (rdMeta rt) < mdMinKey (rdMeta ri)" if i: "i \<in> set (task_inputs task)" "R i = Some ri" for i ri
    proof (cases "i \<in> set ?F")
      case True
      then show ?thesis using hull(1) [OF True i(2)] below by (rule_tac less_le_trans)
    next
      case False
      then have "i \<in> set (InputTo task)" using i(1) by simp
      note ov = over [OF this i(2)]
      have "mdMaxKey (rdMeta rt) \<le> mdMaxKey (rdMeta ri)" using ov below by (auto dest: less_le_trans)
      moreover have "\<not> covers ri (mdMaxKey (rdMeta rt))" using ov tc(1) by blast
      ultimately show ?thesis by (auto simp: covers_def not_le)
    qed
    then show ?thesis by blast
  next
    assume above: "hi < mdMinKey (rdMeta rt)"
    have "mdMaxKey (rdMeta ri) < mdMinKey (rdMeta rt)" if i: "i \<in> set (task_inputs task)" "R i = Some ri" for i ri
    proof (cases "i \<in> set ?F")
      case True
      then show ?thesis using hull(2) [OF True i(2)] above by (rule_tac le_less_trans)
    next
      case False
      then have "i \<in> set (InputTo task)" using i(1) by simp
      note ov = over [OF this i(2)]
      have "mdMinKey (rdMeta ri) \<le> mdMinKey (rdMeta rt)" using ov above by (auto dest: le_less_trans)
      moreover have "\<not> covers ri (mdMinKey (rdMeta rt))" using ov tc(2) by blast
      ultimately show ?thesis by (auto simp: covers_def not_le)
    qed
    then show ?thesis by blast
  qed
qed

section \<open>The keys of the new tables\<close>

lemma inputs_readers_ok:
  assumes "levels_ok R L" "task_ok cfg R L task"
  shows "readers_ok R (task_inputs task)"
proof -
  have "set (InputFrom task) \<subseteq> set (L (FromLevel task))" "set (InputTo task) \<subseteq> set (L (ToLevel task))"
    using assms(2) findOverlapping_subset by (auto simp: task_ok_def)
  moreover have "readers_ok R (L (FromLevel task))" "readers_ok R (L (ToLevel task))"
    using assms(1) by (simp_all add: levels_ok_def)
  ultimately show ?thesis unfolding readers_ok_def by (simp add: ball_Un) blast
qed

lemma input_runs_eq: "readers_ok R ts \<Longrightarrow> input_runs R ts = map (table_run R) ts"
  by (force simp: input_runs_def readers_ok_def table_run_def)

lemma new_entry_origin:
  assumes ok: "levels_ok R L" "task_ok cfg R L task" and swap: "compaction_swap R L task new groups R'"
    and n: "n \<in> set new" "R' n = Some rn" and e: "e \<in> set (table_entries rn)"
  shows "\<exists>i\<in>set (task_inputs task). \<exists>r. R i = Some r \<and> covers r (Key e)"
proof -
  obtain g where g: "g \<in> set groups" "table_entries rn = map nil_empty g"
    using swap n by (fastforce simp: compaction_swap_def list_all2_conv_all_nth in_set_conv_nth)
  then obtain e0 where e0: "e0 \<in> set g" "Key e = Key e0" using e by auto
  have "concat groups = merged_view (IsBottom task) (input_runs R (task_inputs task))"
    using swap by (simp only: compaction_swap_def)
  moreover have "e0 \<in> set (concat groups)" using e0(1) g(1) by auto
  ultimately have "e0 \<in> set (merged_view (IsBottom task) (input_runs R (task_inputs task)))" by (rule subst)
  then have "e0 \<in> set (concat (map (table_run R) (task_inputs task)))"
    using version_Some input_runs_eq [OF inputs_readers_ok [OF ok]] by (fastforce simp: merged_view_mem)
  then obtain i where i: "i \<in> set (task_inputs task)" "e0 \<in> set (table_run R i)" by auto
  then obtain r where "R i = Some r" "reader_ok r" using inputs_readers_ok [OF ok] by (auto simp: readers_ok_def)
  then show ?thesis using i reader_covers e0(2) by (auto simp: table_run_def)
qed

lemma new_ends:
  assumes "compaction_swap R L task new groups R'" "n \<in> set new" "R' n = Some rn"
  shows "reader_ok rn" "hd (table_entries rn) \<in> set (table_entries rn)" "last (table_entries rn) \<in> set (table_entries rn)"
    "mdMinKey (rdMeta rn) = Key (hd (table_entries rn))" "mdMaxKey (rdMeta rn) = Key (last (table_entries rn))"
proof -
  show ok: "reader_ok rn"
    using assms by (fastforce simp: compaction_swap_def list_all2_conv_all_nth in_set_conv_nth)
  show "hd (table_entries rn) \<in> set (table_entries rn)" "last (table_entries rn) \<in> set (table_entries rn)"
    "mdMinKey (rdMeta rn) = Key (hd (table_entries rn))" "mdMaxKey (rdMeta rn) = Key (last (table_entries rn))"
    using ok by (simp_all add: reader_ok_def)
qed

text \<open>A new table and one that stays have no key in common.\<close>

lemma new_apart_remaining:
  assumes ok: "levels_ok R L" "task_ok cfg R L task" and swap: "compaction_swap R L task new groups R'"
    and n: "n \<in> set new" "R' n = Some rn"
    and t: "t \<in> set (L (ToLevel task))" "t \<notin> set (task_inputs task)" "R t = Some rt"
  shows "\<not> (covers rt k \<and> covers rn k)"
proof -
  note ends = new_ends [OF swap n]
  obtain i ri where i: "i \<in> set (task_inputs task)" "R i = Some ri" "covers ri (mdMinKey (rdMeta rn))"
    using new_entry_origin [OF ok swap n ends(2)] ends(4) by auto
  obtain j rj where j: "j \<in> set (task_inputs task)" "R j = Some rj" "covers rj (mdMaxKey (rdMeta rn))"
    using new_entry_origin [OF ok swap n ends(3)] ends(5) by auto
  from remaining_side [OF ok t] show ?thesis
  proof
    assume "\<forall>i\<in>set (task_inputs task). \<forall>r. R i = Some r \<longrightarrow> mdMaxKey (rdMeta rt) < mdMinKey (rdMeta r)"
    then have "mdMaxKey (rdMeta rt) < mdMinKey (rdMeta rn)" using i by (auto simp: covers_def intro: less_le_trans)
    then show ?thesis by (auto simp: covers_def)
  next
    assume "\<forall>i\<in>set (task_inputs task). \<forall>r. R i = Some r \<longrightarrow> mdMaxKey (rdMeta r) < mdMinKey (rdMeta rt)"
    then have "mdMaxKey (rdMeta rn) < mdMinKey (rdMeta rt)" using j by (auto simp: covers_def intro: le_less_trans)
    then show ?thesis by (auto simp: covers_def)
  qed
qed

text \<open>The new tables follow one another.\<close>

lemma groups_apart:
  assumes "list_all2 (\<lambda>t g. g \<noteq> [] \<and> (\<exists>r. R t = Some r \<and> reader_ok r \<and> table_entries r = map nil_empty g)) ids groups"
    and "keys_sorted (concat groups)"
  shows "apart R ids"
  using assms
proof (induction rule: list_all2_induct)
  case (Cons t ts g gs)
  have ap: "apart R ts" using Cons by (simp add: sorted_wrt_append)
  obtain r where r: "R t = Some r" "reader_ok r" "table_entries r = map nil_empty g" "g \<noteq> []" using Cons by auto
  have "\<not> (covers r k \<and> covers s k)" if u: "u \<in> set ts" "R u = Some s" for u s k
  proof -
    obtain i where "i < length ts" "u = ts ! i" using u(1) by (auto simp: in_set_conv_nth)
    then have "i < length gs \<and> gs ! i \<noteq> [] \<and> (\<exists>r. R u = Some r \<and> reader_ok r \<and> table_entries r = map nil_empty (gs ! i))"
      using Cons.hyps(2) unfolding list_all2_conv_all_nth by auto
    then obtain h where h: "h \<in> set gs" "h \<noteq> []" "reader_ok s" "table_entries s = map nil_empty h"
      using u(2) that [of "gs ! i"] by auto
    then have "last g \<in> set g" "hd h \<in> set (concat gs)" using r(4) by (auto intro: hd_in_set)
    then have "Key (last g) < Key (hd h)" using Cons.prems by (auto simp: sorted_wrt_append)
    then have "mdMaxKey (rdMeta r) < mdMinKey (rdMeta s)"
      using r h by (simp add: reader_ok_def last_map hd_map)
    then show ?thesis by (auto simp: covers_def)
  qed
  then show ?case using ap r(1) by (auto simp: apart_def)
qed (simp add: apart_def)

lemma apart_cong: "(\<And>t. t \<in> set ts \<Longrightarrow> R' t = R t) \<Longrightarrow> apart R' ts = apart R ts"
  unfolding apart_def
proof (induction ts)
  case (Cons t ts)
  then show ?case by auto
qed simp

lemma apart_filter: "apart R ts \<Longrightarrow> apart R (filter P ts)"
  by (simp add: apart_def sorted_wrt_filter)

lemma swap_same:
  assumes "compaction_swap R L task new groups R'" "t \<in> set (L l)" "t \<notin> set (task_inputs task)"
  shows "R' t = R t" "t \<notin> set new"
proof -
  show "t \<notin> set new" using assms(1,2) unfolding compaction_swap_def disjoint_iff by blast
  then show "R' t = R t" using assms(1,3) unfolding compaction_swap_def by simp
qed

lemma levels_after_ok:
  assumes ok: "levels_ok R L" "task_ok cfg R L task" and swap: "compaction_swap R L task new groups R'"
  shows "levels_ok R' (levels_after L task new)"
proof -
  let ?in = "set (task_inputs task)"
  let ?keep = "\<lambda>l. filter (\<lambda>t. t \<notin> ?in) (L l)"
  have keep_same: "R' t = R t" if "t \<in> set (?keep l)" for t l using swap_same(1) [OF swap, of t l] that by auto
  have rd_keep: "readers_ok R' (?keep l)" for l
    unfolding readers_ok_def
  proof
    fix t assume t: "t \<in> set (?keep l)"
    have "readers_ok R (L l)" using ok(1) by (simp add: levels_ok_def)
    then show "\<exists>r. R' t = Some r \<and> reader_ok r" using t keep_same [OF t] by (auto simp: readers_ok_def)
  qed
  have rd_new: "readers_ok R' new"
    using swap by (fastforce simp: compaction_swap_def readers_ok_def list_all2_conv_all_nth in_set_conv_nth)
  have ap_keep: "apart R' (?keep l)" if "1 \<le> l" for l
  proof -
    have "apart R (?keep l)" using ok(1) that by (intro apart_filter) (simp add: levels_ok_def)
    then show ?thesis using apart_cong [of "?keep l" R' R] keep_same by blast
  qed
  have "keys_sorted (concat groups)" using swap merged_view_sorted by (simp add: compaction_swap_def)
  then have ap_new: "apart R' new" using swap by (intro groups_apart) (auto simp: compaction_swap_def)
  have cross: "\<not> (covers r k \<and> covers s k)"
    if "t \<in> set (?keep (ToLevel task))" "n \<in> set new" "R' t = Some r" "R' n = Some s" for t n r s k
    using new_apart_remaining [OF ok swap that(2,4), of t r k] that keep_same [OF that(1)] by simp
  have "apart R' (levels_after L task new l)" if "1 \<le> l" for l
    using ap_keep [OF that] ap_new cross by (auto simp: levels_after_def apart_def sorted_wrt_append)
  moreover have "readers_ok R' (levels_after L task new l)" for l
    using rd_keep [of l] rd_new by (auto simp: levels_after_def readers_ok_def)
  moreover have "distinct (levels_after L task new l)" for l
    using ok(1) swap by (auto simp: levels_after_def levels_ok_def compaction_swap_def)
  moreover have "set (levels_after L task new l) \<inter> set (levels_after L task new l') = {}" if "l \<noteq> l'" for l l'
    using ok(1) swap that unfolding levels_after_def levels_ok_def compaction_swap_def by (auto split: if_splits) blast+
  ultimately show ?thesis unfolding levels_ok_def by blast
qed

section \<open>What a key reads as after a compaction\<close>

abbreviation tables_version :: "readers \<Rightarrow> uint64 list \<Rightarrow> bytes \<Rightarrow> Entry option" where
  "tables_version R ts k \<equiv> version (map (table_run R) ts) k"

lemma tables_version_append:
  "tables_version R (ts @ us) k = (case tables_version R ts k of None \<Rightarrow> tables_version R us k | Some e \<Rightarrow> Some e)"
  by (simp add: version_append)

lemma tables_version_Some:
  assumes "readers_ok R ts" "tables_version R ts k = Some e"
  obtains t r where "t \<in> set ts" "R t = Some r" "covers r k"
proof -
  have "\<exists>t\<in>set ts. \<exists>r. R t = Some r \<and> covers r k"
  proof (rule ccontr)
    assume "\<not> ?thesis"
    then have "tables_version R ts k = None" using assms(1) by (intro version_none_apart) auto
    then show False using assms(2) by simp
  qed
  then show thesis using that by blast
qed

text \<open>Where tables are apart, the one that covers the key has the say.\<close>

lemma tables_version_at:
  assumes "readers_ok R ts" "apart R ts" "t \<in> set ts" "R t = Some r" "covers r k"
  shows "tables_version R ts k = version [table_entries r] k"
  using assms
proof (induction ts)
  case (Cons u us)
  then obtain s where s: "R u = Some s" "reader_ok s" by (auto simp: readers_ok_def)
  have us: "readers_ok R us" "apart R us" using Cons.prems by (auto simp: readers_ok_def apart_def)
  have v: "tables_version R (u # us) k =
      (case version [table_entries s] k of None \<Rightarrow> tables_version R us k | Some e \<Rightarrow> Some e)"
    using version_Cons [of "table_run R u" "map (table_run R) us" k] s(1) by (simp add: table_run_def)
  show ?case
  proof (cases "covers s k")
    case True
    have no: "\<forall>w\<in>set us. \<forall>x. R w = Some x \<longrightarrow> \<not> covers x k"
      using Cons.prems(2) s(1) True by (auto simp: apart_def)
    then have "tables_version R us k = None" using us(1) by (rule version_none_apart)
    moreover have "t = u" using Cons.prems(3-5) no by auto
    ultimately show ?thesis using v s(1) Cons.prems(4) by (simp split: option.splits)
  next
    case False
    then have "version [table_entries s] k = None"
      using version_covers [OF s(2), of k] by (cases "version [table_entries s] k") auto
    moreover have "t \<in> set us" using Cons.prems(3-5) s(1) False by auto
    ultimately show ?thesis using v Cons.IH [OF us _ Cons.prems(4,5)] by simp
  qed
qed simp

lemma tables_version_split:
  assumes ok: "readers_ok R ts" "apart R ts"
  shows "tables_version R ts k =
    (case tables_version R (filter P ts) k of
       None \<Rightarrow> tables_version R (filter (\<lambda>t. \<not> P t) ts) k | Some e \<Rightarrow> Some e)"
proof -
  have f: "readers_ok R (filter Q ts)" "apart R (filter Q ts)" for Q
    using ok apart_filter by (auto simp: readers_ok_def)
  show ?thesis
  proof (cases "\<exists>t\<in>set ts. \<exists>r. R t = Some r \<and> covers r k")
    case True
    then obtain t r where t: "t \<in> set ts" "R t = Some r" "covers r k" by blast
    have all: "tables_version R ts k = version [table_entries r] k" by (rule tables_version_at [OF ok t])
    have yes: "tables_version R (filter Q ts) k = version [table_entries r] k" if "Q t" for Q
      using t that by (intro tables_version_at [OF f]) auto
    have no: "tables_version R (filter Q ts) k = None" if "\<not> Q t" for Q
    proof (rule version_none_apart [OF _ f(1)], intro ballI allI impI)
      fix u s assume u: "u \<in> set (filter Q ts)" "R u = Some s"
      then have "u \<noteq> t" "u \<in> set ts" using that by auto
      then show "\<not> covers s k" using apart_pair [OF ok(2) t(1) _ _ t(2) u(2), of k] t(3) by auto
    qed
    show ?thesis using all yes [of P] no [of P] yes [of "\<lambda>t. \<not> P t"] no [of "\<lambda>t. \<not> P t"]
      by (cases "P t") (simp_all split: option.splits)
  next
    case False
    then have "tables_version R (filter Q ts) k = None" for Q using f(1) by (intro version_none_apart) auto
    moreover have "tables_version R ts k = None" using False ok(1) by (intro version_none_apart) auto
    ultimately show ?thesis by simp
  qed
qed

text \<open>What the new tables say: what the inputs say, without the tombstones at the bottom.\<close>

lemma new_tables_run:
  assumes "compaction_swap R L task new groups R'"
  shows "map (table_run R') new = map (map nil_empty) groups"
proof (rule nth_equalityI)
  have all: "list_all2 (\<lambda>t g. g \<noteq> [] \<and> (\<exists>r. R' t = Some r \<and> reader_ok r \<and> table_entries r = map nil_empty g)) new groups"
    using assms by (simp only: compaction_swap_def)
  then show "length (map (table_run R') new) = length (map (map nil_empty) groups)"
    by (simp add: list_all2_lengthD)
  fix i assume "i < length (map (table_run R') new)"
  then show "map (table_run R') new ! i = map (map nil_empty) groups ! i"
    using list_all2_nthD [OF all, of i] list_all2_lengthD [OF all] by (auto simp: table_run_def)
qed

lemma version_concat: "version [concat runs] = version runs"
  by (intro ext) (simp add: version_def)

lemma new_version:
  assumes ok: "levels_ok R L" "task_ok cfg R L task" and swap: "compaction_swap R L task new groups R'"
  shows "tables_version R' new k =
    (case tables_version R (task_inputs task) k of
       None \<Rightarrow> None
     | Some e \<Rightarrow> if IsBottom task \<and> IsTombstone e then None else Some (nil_empty e))"
proof -
  have cg: "concat groups = merged_view (IsBottom task) (input_runs R (task_inputs task))"
    using swap by (simp only: compaction_swap_def)
  have "tables_version R' new k = version [concat (map (map nil_empty) groups)] k"
    by (simp only: new_tables_run [OF swap] version_concat)
  also have "\<dots> = map_option nil_empty (version [concat groups] k)"
    using version_nil_empty [of "concat groups" k] by (simp add: map_concat)
  also have "version [concat groups] k = find (\<lambda>e. Key e = k) (concat groups)" by (simp add: version_def)
  finally show ?thesis
    unfolding cg merged_view_find input_runs_eq [OF inputs_readers_ok [OF ok]] by (simp split: option.splits)
qed

text \<open>The tables that stay in the target level do not have the keys of the inputs.\<close>

lemma kept_has_not:
  assumes ok: "levels_ok R L" "task_ok cfg R L task"
    and e: "tables_version R (task_inputs task) k = Some e"
  shows "tables_version R (filter (\<lambda>t. t \<notin> set (task_inputs task)) (L (ToLevel task))) k = None"
proof -
  obtain i ri where i: "i \<in> set (task_inputs task)" "R i = Some ri" "covers ri k"
    using tables_version_Some [OF inputs_readers_ok [OF ok] e] .
  have "\<not> covers rt k" if t: "t \<in> set (L (ToLevel task))" "t \<notin> set (task_inputs task)" "R t = Some rt" for t rt
    using remaining_side [OF ok t] i by (fastforce simp: covers_def)
  moreover have "readers_ok R (L (ToLevel task))" using ok(1) by (simp add: levels_ok_def)
  ultimately show ?thesis by (intro version_none_apart) (auto simp: readers_ok_def)
qed

text \<open>The tables of the first level that stay, and how the rest of the level relates to the inputs.\<close>

definition left_over :: "(int \<Rightarrow> uint64 list) \<Rightarrow> CompactionTask \<Rightarrow> uint64 list" where
  "left_over L task = filter (\<lambda>t. t \<notin> set (task_inputs task)) (L (FromLevel task))"

lemma input_to_disjoint:
  assumes ok: "levels_ok R L" "task_ok cfg R L task"
  shows "set (InputTo task) \<subseteq> set (L (ToLevel task))" "set (InputTo task) \<inter> set (L (FromLevel task)) = {}"
proof -
  show sub: "set (InputTo task) \<subseteq> set (L (ToLevel task))"
    using ok(2) findOverlapping_subset by (auto simp: task_ok_def)
  have "set (L (ToLevel task)) \<inter> set (L (FromLevel task)) = {}"
    using ok unfolding levels_ok_def task_ok_def by simp
  then show "set (InputTo task) \<inter> set (L (FromLevel task)) = {}" using sub by blast
qed

lemma from_level:
  assumes ok: "levels_ok R L" "task_ok cfg R L task"
  shows "FromLevel task = 0 \<Longrightarrow> InputFrom task = L 0 \<and> left_over L task = []"
    "FromLevel task \<noteq> 0 \<Longrightarrow> L (FromLevel task) = InputFrom task @ left_over L task"
proof -
  note dis = input_to_disjoint(2) [OF ok]
  show "InputFrom task = L 0 \<and> left_over L task = []" if "FromLevel task = 0"
    using ok(2) that by (auto simp: task_ok_def left_over_def filter_empty_conv)
  show "L (FromLevel task) = InputFrom task @ left_over L task" if "FromLevel task \<noteq> 0"
  proof -
    have "L (FromLevel task) \<noteq> []" "InputFrom task = [hd (L (FromLevel task))]"
      using ok(2) that by (auto simp: task_ok_def)
    then obtain t ts where t: "L (FromLevel task) = t # ts" "InputFrom task = [t]"
      by (cases "L (FromLevel task)") simp_all
    have "t \<notin> set ts" using ok(1) t(1) unfolding levels_ok_def by (metis distinct.simps(2))
    then have "filter (\<lambda>x. x \<notin> set (task_inputs task)) ts = ts"
      using dis t by (auto simp: filter_id_conv)
    then show ?thesis using t by (simp add: left_over_def)
  qed
qed

lemma target_version:
  assumes ok: "levels_ok R L" "task_ok cfg R L task"
  shows "tables_version R (L (ToLevel task)) k =
    (case tables_version R (InputTo task) k of
       None \<Rightarrow> tables_version R (filter (\<lambda>t. t \<notin> set (task_inputs task)) (L (ToLevel task))) k | Some e \<Rightarrow> Some e)"
proof -
  have lev: "readers_ok R (L (ToLevel task))" "apart R (L (ToLevel task))"
    using ok by (auto simp: levels_ok_def task_ok_def)
  have "set (InputFrom task) \<inter> set (L (ToLevel task)) = {}"
  proof -
    have "set (InputFrom task) \<subseteq> set (L (FromLevel task))" using ok(2) by (auto simp: task_ok_def)
    moreover have "set (L (FromLevel task)) \<inter> set (L (ToLevel task)) = {}"
      using ok unfolding levels_ok_def task_ok_def by simp
    ultimately show ?thesis by blast
  qed
  then have "filter (\<lambda>t. t \<in> set (task_inputs task)) (L (ToLevel task)) =
      filter (\<lambda>t. t \<in> set (InputTo task)) (L (ToLevel task))"
    by (intro filter_cong) auto
  also have "\<dots> = InputTo task"
  proof -
    have "\<exists>P. InputTo task = filter P (L (ToLevel task))"
      using ok(2) by (fastforce simp: task_ok_def findOverlapping_def split: prod.splits
          intro: exI [of _ "\<lambda>_. False"])
    then obtain P where P: "InputTo task = filter P (L (ToLevel task))" ..
    show ?thesis unfolding P by (intro filter_cong) auto
  qed
  finally show ?thesis
    using tables_version_split [OF lev, of k "\<lambda>t. t \<in> set (task_inputs task)"] by simp
qed

text \<open>
  The two levels before and after: where the inputs have the key, what stays in the first level has
  it only if the input of that level has not.
\<close>

lemma swapped_levels:
  assumes ok: "levels_ok R L" "task_ok cfg R L task" and swap: "compaction_swap R L task new groups R'"
    and bottom: "IsBottom task \<Longrightarrow> deeper = None"
  shows "value_of (case tables_version R' (left_over L task @ levels_after L task new (ToLevel task)) k of
      None \<Rightarrow> deeper | Some e \<Rightarrow> Some e) =
    value_of (case tables_version R (InputFrom task @ left_over L task @ L (ToLevel task)) k of
      None \<Rightarrow> deeper | Some e \<Rightarrow> Some e)"
proof -
  let ?kept = "filter (\<lambda>t. t \<notin> set (task_inputs task)) (L (ToLevel task))"
  have same: "map (table_run R') (filter (\<lambda>t. t \<notin> set (task_inputs task)) (L l)) =
      map (table_run R) (filter (\<lambda>t. t \<notin> set (task_inputs task)) (L l))" for l
    using swap_same(1) [OF swap] by (intro map_cong [OF refl]) (auto simp: table_run_def)
  have lhs: "tables_version R' (left_over L task @ levels_after L task new (ToLevel task)) k =
    (case tables_version R (left_over L task) k of
       None \<Rightarrow> (case tables_version R ?kept k of None \<Rightarrow> tables_version R' new k | Some e \<Rightarrow> Some e)
     | Some e \<Rightarrow> Some e)"
    using same [of "FromLevel task"] same [of "ToLevel task"]
    by (simp only: tables_version_append levels_after_def left_over_def refl if_True)
  have rhs: "tables_version R (InputFrom task @ left_over L task @ L (ToLevel task)) k =
    (case tables_version R (InputFrom task) k of
       None \<Rightarrow> (case tables_version R (left_over L task) k of
           None \<Rightarrow> (case tables_version R (InputTo task) k of
               None \<Rightarrow> tables_version R ?kept k | Some e \<Rightarrow> Some e)
         | Some e \<Rightarrow> Some e)
     | Some e \<Rightarrow> Some e)"
    by (simp only: tables_version_append target_version [OF ok])
  have ins: "tables_version R (task_inputs task) k =
      (case tables_version R (InputFrom task) k of None \<Rightarrow> tables_version R (InputTo task) k | Some e \<Rightarrow> Some e)"
    by (rule tables_version_append)
  have left: "tables_version R (left_over L task) k = None" if fk: "tables_version R (InputFrom task) k = Some e" for e
  proof (cases "FromLevel task = 0")
    case True
    then show ?thesis using from_level(1) [OF ok] by simp
  next
    case False
    have lev: "readers_ok R (L (FromLevel task))" "apart R (L (FromLevel task))"
      using ok False by (auto simp: levels_ok_def task_ok_def)
    have rd: "readers_ok R (InputFrom task)" "readers_ok R (left_over L task)"
      using lev(1) from_level(2) [OF ok False] by (auto simp: readers_ok_def)
    obtain t r where "t \<in> set (InputFrom task)" "R t = Some r" "covers r k"
      using tables_version_Some [OF rd(1) fk] .
    then have "\<not> covers s k" if "u \<in> set (left_over L task)" "R u = Some s" for u s
      using lev(2) that from_level(2) [OF ok False] by (auto simp: apart_def sorted_wrt_append)
    then show ?thesis using rd(2) by (intro version_none_apart) auto
  qed
  show ?thesis
  proof (cases "tables_version R (task_inputs task) k")
    case None
    then show ?thesis
      using lhs rhs ins new_version [OF ok swap, of k]
      by (simp split: option.splits)
  next
    case (Some e)
    note kept = kept_has_not [OF ok Some]
    show ?thesis
    proof (cases "tables_version R (InputFrom task) k")
      case None
      then show ?thesis
        using lhs rhs ins Some kept new_version [OF ok swap, of k] bottom value_of_nil_empty [of "Some e"]
        by (cases "tables_version R (left_over L task) k") (auto simp: value_of_def)
    next
      case (Some f)
      then show ?thesis
        using lhs rhs ins \<open>tables_version R (task_inputs task) k = Some e\<close> kept left [OF Some]
          new_version [OF ok swap, of k] bottom value_of_nil_empty [of "Some e"]
        by (auto simp: value_of_def)
    qed
  qed
qed

section \<open>All levels\<close>

definition level_runs :: "readers \<Rightarrow> (int \<Rightarrow> uint64 list) \<Rightarrow> int list \<Rightarrow> Entry list list" where
  "level_runs R L ls = concat (map (\<lambda>l. map (table_run R) (L l)) ls)"

lemma level_runs_simps [simp]:
  "level_runs R L [] = []" "level_runs R L (l # ls) = map (table_run R) (L l) @ level_runs R L ls"
  "level_runs R L (ls @ ms) = level_runs R L ls @ level_runs R L ms"
  by (simp_all add: level_runs_def)

lemma level_runs_cong:
  "(\<And>l. l \<in> set ls \<Longrightarrow> map (table_run R') (L' l) = map (table_run R) (L l)) \<Longrightarrow> level_runs R' L' ls = level_runs R L ls"
  by (simp add: level_runs_def cong: map_cong)

text \<open>
  The runs of the levels as a compaction leaves them: as reads saw them, but for a compaction of
  level 0, which lets its first, oldest table win.
\<close>

definition compacted_runs :: "readers \<Rightarrow> (int \<Rightarrow> uint64 list) \<Rightarrow> CompactionTask \<Rightarrow> Entry list list" where
  "compacted_runs R L task =
     map (table_run R) (if FromLevel task = 0 then L 0 else rev (L 0)) @ level_runs R L [1..6]"

lemma split_levels:
  assumes "1 \<le> f" "f \<le> 5"
  shows "[1..6] = [1..f - 1] @ f # (f + 1) # [f + 2..6]"
proof -
  have "[1..6] = [1..f - 1] @ [f..6]" using assms by (intro upto_split1) auto
  also have "[f..6] = f # (f + 1) # [f + 2..6]" using assms upto_rec1 [of f 6] upto_rec1 [of "f + 1" 6] by (simp add: add.commute)
  finally show ?thesis .
qed

lemma other_levels_same:
  assumes ok: "levels_ok R L" "task_ok cfg R L task" and swap: "compaction_swap R L task new groups R'"
    and l: "l \<noteq> FromLevel task" "l \<noteq> ToLevel task"
  shows "levels_after L task new l = L l" "map (table_run R') (L l) = map (table_run R) (L l)"
proof -
  have "set (InputFrom task) \<subseteq> set (L (FromLevel task))" using ok(2) by (auto simp: task_ok_def)
  moreover have "set (L (FromLevel task)) \<inter> set (L l) = {}" "set (L (ToLevel task)) \<inter> set (L l) = {}"
    using ok(1) l unfolding levels_ok_def by metis+
  ultimately have dis: "t \<notin> set (task_inputs task)" if "t \<in> set (L l)" for t
    using that input_to_disjoint(1) [OF ok] by auto
  then show "levels_after L task new l = L l" using l by (simp add: levels_after_def filter_id_conv)
  show "map (table_run R') (L l) = map (table_run R) (L l)"
    using swap_same(1) [OF swap _ dis] by (intro map_cong [OF refl]) (simp add: table_run_def)
qed

lemma level_runs_other:
  assumes "levels_ok R L" "task_ok cfg R L task" "compaction_swap R L task new groups R'"
    and "\<forall>l\<in>set ls. l \<noteq> FromLevel task \<and> l \<noteq> ToLevel task"
  shows "level_runs R' (levels_after L task new) ls = level_runs R L ls"
  using other_levels_same [OF assms(1-3)] assms(4) by (intro level_runs_cong) auto

lemma compaction_keeps_view:
  assumes ok: "levels_ok R L" "task_ok cfg R L task" and swap: "compaction_swap R L task new groups R'"
    and lim: "7 \<le> MaxLevels cfg" "ToLevel task \<le> 6"
  shows "view (map (table_run R') (rev (levels_after L task new 0)) @ level_runs R' (levels_after L task new) [1..6]) =
    view (compacted_runs R L task)"
proof -
  let ?L' = "levels_after L task new" and ?f = "FromLevel task"
  have f: "ToLevel task = ?f + 1" "0 \<le> ?f" "?f \<le> 5" using ok(2) lim(2) by (auto simp: task_ok_def)
  let ?deep = "level_runs R L [?f + 2..6]"
  have deep: "level_runs R' ?L' [?f + 2..6] = ?deep"
    by (rule level_runs_other [OF ok swap]) (simp add: f(1))
  have bottom: "version ?deep k = None" if "IsBottom task" for k
  proof -
    have "L l = []" if "l \<in> set [?f + 2..6]" for l
      using \<open>IsBottom task\<close> that ok(2) lim(1) f(1) by (auto simp: task_ok_def isBottomLevel_def list_all_iff)
    then have "?deep = []" by (auto simp: level_runs_def simp del: upto_rec_numeral)
    then show ?thesis by simp
  qed
  have two: "view (map (table_run R') (left_over L task @ ?L' (ToLevel task)) @ ?deep) =
      view (map (table_run R) (InputFrom task @ left_over L task @ L (ToLevel task)) @ ?deep)"
    using swapped_levels [OF ok swap bottom] by (intro ext) (simp only: view_def version_append)
  show ?thesis
  proof (cases "?f = 0")
    case True
    have one: "[1..6] = 1 # [2..6::int]" by (simp add: upto_rec1)
    have "?L' 0 = []" using from_level(1) [OF ok True] f(1) True by (simp add: levels_after_def)
    then show ?thesis
      using two deep from_level(1) [OF ok True] f(1) True
      unfolding one compacted_runs_def by (simp del: upto_rec_numeral)
  next
    case False
    then have f1: "1 \<le> ?f" using f(2) by simp
    have zero: "?L' 0 = L 0" "map (table_run R') (rev (L 0)) = map (table_run R) (rev (L 0))"
      using other_levels_same [OF ok swap, of 0] f1 f(1) by (simp_all add: rev_map [symmetric])
    have high: "level_runs R' ?L' [1..?f - 1] = level_runs R L [1..?f - 1]"
      by (rule level_runs_other [OF ok swap]) (simp add: f(1))
    have left: "?L' ?f = left_over L task" using f(1) by (simp add: levels_after_def left_over_def)
    have mid: "view (level_runs R' ?L' (?f # (?f + 1) # [?f + 2..6])) = view (level_runs R L (?f # (?f + 1) # [?f + 2..6]))"
      using two deep from_level(2) [OF ok False] left f(1) by simp
    show ?thesis
      unfolding split_levels [OF f1 f(3)] compacted_runs_def level_runs_simps(3) zero high if_not_P [OF False]
      by (intro view_append_cong mid)
  qed
qed

section \<open>The step of the engine\<close>

lemma open_readers_spec:
  assumes "tables_written disk lvl ids groups" "distinct ids" "storable_run (concat groups)"
  shows "\<exists>new. open_readers disk ids acc = Inr new \<and> (\<forall>t. t \<notin> set ids \<longrightarrow> new t = acc t) \<and>
    list_all2 (\<lambda>t g. g \<noteq> [] \<and> (\<exists>r. new t = Some r \<and> reader_ok r \<and> table_entries r = map nil_empty g)) ids groups"
  using assms unfolding tables_written_def
proof (induction ids groups arbitrary: acc rule: list_all2_induct)
  case (Cons t ts g gs)
  obtain meta where g: "g \<noteq> []" "files_hold (disk t) meta g" using Cons.hyps(1) by blast
  then obtain r where r: "OpenReader t (disk t) = Inr r" unfolding files_hold_def by blast
  have "storable_run (g @ concat gs)" using Cons.prems by simp
  then have run: "storable_run g" "storable_run (concat gs)" using storable_run_append by blast+
  note rok = files_hold_reader [OF g(2,1) run(1) r]
  have t: "t \<notin> set ts" "distinct ts" using Cons.prems by auto
  obtain new where new: "open_readers disk ts (acc(t \<mapsto> r)) = Inr new"
    "\<forall>u. u \<notin> set ts \<longrightarrow> new u = (acc(t \<mapsto> r)) u"
    "list_all2 (\<lambda>t g. g \<noteq> [] \<and> (\<exists>r. new t = Some r \<and> reader_ok r \<and> table_entries r = map nil_empty g)) ts gs"
    using Cons.IH [OF t(2) run(2), of "acc(t \<mapsto> r)"] by (elim exE conjE) (rule that)
  then have "new t = Some r" using t(1) by simp
  then show ?case using new rok g(1) r by simp
qed simp

text \<open>The readers after the step.\<close>

definition swapped_readers :: "bool \<Rightarrow> readers \<Rightarrow> readers \<Rightarrow> uint64 list \<Rightarrow> readers" where
  "swapped_readers bypass R new deleted tid =
     (if tid \<in> set deleted then None
      else (R ++ (if bypass then (\<lambda>t. map_option (SetBypassBloom True) (new t)) else new)) tid)"

lemma swapped_readers_swap:
  assumes new: "\<forall>t. t \<notin> set ids \<longrightarrow> new t = None"
    "list_all2 (\<lambda>t g. g \<noteq> [] \<and> (\<exists>r. new t = Some r \<and> reader_ok r \<and> table_entries r = map nil_empty g)) ids groups"
    and ids: "distinct ids" "\<forall>l. set ids \<inter> set (L l) = {}" "set ids \<inter> set (task_inputs task) = {}"
    and cg: "concat groups = merged_view (IsBottom task) (input_runs R (task_inputs task))"
  shows "compaction_swap R L task ids groups (swapped_readers bypass R new (task_inputs task))"
proof -
  let ?R' = "swapped_readers bypass R new (task_inputs task)"
  have "list_all2 (\<lambda>t g. g \<noteq> [] \<and> (\<exists>r. ?R' t = Some r \<and> reader_ok r \<and> table_entries r = map nil_empty g)) ids groups"
    unfolding list_all2_conv_all_nth
  proof (intro conjI allI impI)
    show "length ids = length groups" by (rule list_all2_lengthD [OF new(2)])
    fix i assume i: "i < length ids"
    from list_all2_nthD [OF new(2) i] obtain r where r: "groups ! i \<noteq> []" "new (ids ! i) = Some r" "reader_ok r"
      "table_entries r = map nil_empty (groups ! i)" by blast
    then show "groups ! i \<noteq> []" by blast
    have "ids ! i \<notin> set (task_inputs task)" using ids(3) i by (meson disjoint_iff nth_mem)
    then have "?R' (ids ! i) = Some (if bypass then SetBypassBloom True r else r)"
      using r(2) by (simp add: swapped_readers_def map_add_def)
    then show "\<exists>r. ?R' (ids ! i) = Some r \<and> reader_ok r \<and> table_entries r = map nil_empty (groups ! i)"
      using r by auto
  qed
  moreover have "?R' t = (if t \<in> set (task_inputs task) then None else R t)" if "t \<notin> set ids" for t
    using new(1) that by (simp add: swapped_readers_def map_add_def)
  ultimately show ?thesis using ids(1,2) cg unfolding compaction_swap_def by blast
qed

lemma readers_inputs_ok: "readers_ok R ts \<Longrightarrow> readers_open R \<Longrightarrow> inputs_ok R ts"
  by (auto simp: readers_ok_def readers_open_def inputs_ok_def reader_ok_def)

definition compaction_fits ::
  "('m \<Rightarrow> uint64 set) \<Rightarrow> 'm \<Rightarrow> readers \<Rightarrow> CompactionTask \<Rightarrow> bool" where
  "compaction_fits used m R task \<longleftrightarrow>
     (let out = merged_view (IsBottom task) (input_runs R (task_inputs task))
      in storable_run out \<and> card (used m) + length out < 2 ^ 64)"

lemma store_runs_levels:
  assumes "stReaders st = R" "\<And>l. 0 \<le> l \<Longrightarrow> l < 7 \<Longrightarrow> stLevelTables st l = L l"
  shows "store_runs st = map (table_run R) (rev (L 0)) @ level_runs R L [1..6]"
proof -
  have "map (table_run R) (stLevelTables st l) = map (table_run R) (L l)" if "l \<in> set [1..6]" for l
    using assms(2) [of l] that by (simp del: upto_rec_numeral)
  then have "level_runs R (stLevelTables st) [1..6] = level_runs R L [1..6]" by (rule level_runs_cong)
  then show ?thesis using assms(2) [of 0] unfolding store_runs_def level_runs_def assms(1) by simp
qed

lemma Engine_Compact_spec:
  fixes e :: "'m Engine"
  assumes laws: "manifest_laws M used" and ok: "engine_ok M used e" and env: "compact_env_ok C"
    and pick: "PickCompaction F (cpConfig (egCompactor e)) (mfGetLevelTables M (stManifest e)) (stReaders e) = Some task"
    and ins: "readers_open (stReaders e)" "InputFrom task \<noteq> []"
    and fits: "compaction_fits used (stManifest e) (stReaders e) task"
    and lim: "7 \<le> MaxLevels (cpConfig (egCompactor e))" "ToLevel task \<le> 6"
  shows "\<exists>err e'. Engine_Compact F M C e = Some (err, e') \<and> engine_ok M used e' \<and> egClosed e' = egClosed e \<and>
    mem_runs e' = mem_runs e \<and>
    (err = None \<and> engine_view e' = view (mem_runs e @ compacted_runs (stReaders e) (stLevelTables e) task) \<or>
     err = Some (CompactionFailed CommitFailed) \<and> engine_view e' = engine_view e \<and>
       \<not> (\<forall>edit m. fst (mfLogAndApply M edit m)))"
proof -
  define R m L where "R = stReaders e" and "m = stManifest e" and "L = mfGetLevelTables M m"
  have lv: "levels_ok R L" "stLevelTables e l = L l" if "0 \<le> l" "l < 7" for l
    using ok that by (simp_all add: engine_ok_def store_ok_def R_def L_def m_def)
  have lok: "levels_ok R L" "\<And>l. set (L l) \<subseteq> used m"
    using ok by (auto simp: engine_ok_def store_ok_def R_def L_def m_def)
  have task: "task_ok (cpConfig (egCompactor e)) R L task"
    using PickCompaction_task_ok [OF pick] by (simp add: R_def L_def m_def)
  have iok: "inputs_ok R (task_inputs task)"
    using readers_inputs_ok [OF inputs_readers_ok [OF lok(1) task]] ins(1) by (simp add: R_def)
  obtain ids groups m1 disk' bytes and st :: "'m compact_state" where c:
    "tables_written disk' (ToLevel task) ids groups"
    "concat groups = merged_view (IsBottom task) (input_runs R (task_inputs task))"
    "distinct ids" "set ids \<inter> used m = {}" "used m1 = used m \<union> set ids" "mfGetLevelTables M m1 = L"
    "Compact F M C R (egCompactor e) m (stTables e) = Some
      (case mfLogAndApply M (compaction_edit task ids) m1 of
         (False, m2) \<Rightarrow> (Inl CommitFailed, egCompactor e, m2, disk')
       | (True, m2) \<Rightarrow> (Inr (ids, task_inputs task), commit_stats C bytes st (egCompactor e), m2, disk'))"
    using Compact_spec [OF laws env pick _ refl, of "stTables e"] iok fits
    unfolding R_def m_def L_def compaction_fits_def Let_def by blast
  obtain acc m2 where ap: "mfLogAndApply M (compaction_edit task ids) m1 = (acc, m2)" by fastforce
  show ?thesis
  proof (cases acc)
    case False
    then have man: "mfGetLevelTables M m2 = L" "used m2 = used m \<union> set ids"
      using manifest_refused [OF laws, of "compaction_edit task ids" m1 m2] ap c(5,6) by simp_all
    let ?e' = "e\<lparr>egCompactor := egCompactor e, stManifest := m2, stTables := disk'\<rparr>"
    have "Engine_Compact F M C e = Some (Some (CompactionFailed CommitFailed), ?e')"
      using c(7) ap False by (simp add: Engine_Compact_def R_def m_def)
    moreover have "engine_ok M used ?e'" using ok man
      by (auto simp: engine_ok_def store_ok_def mems_ok_def L_def m_def)
    moreover have "mem_runs ?e' = mem_runs e" "engine_runs ?e' = engine_runs e"
      by (simp_all add: mem_runs_def engine_runs_def store_runs_def)
    moreover have "\<not> (\<forall>edit m. fst (mfLogAndApply M edit m))" using ap False by (metis fst_conv)
    ultimately show ?thesis by auto
  next
    case True
    have lv2: "mfGetLevelTables M m2 = levels_after L task ids"
      using manifest_apply(1) [OF laws, of "compaction_edit task ids" m1 m2] ap True c(6)
      by (simp add: compaction_edit_levels)
    have used2: "used m2 = used m \<union> set ids"
    proof -
      have "tmID ` set (AddedTables (compaction_edit task ids)) \<subseteq> used m1"
        by (simp add: compaction_edit_def image_image c(5))
      then show ?thesis using manifest_apply(2) [OF laws, of "compaction_edit task ids" m1 m2] ap True c(5) by simp
    qed
    have "storable_run (concat groups)" using fits by (simp add: c(2) compaction_fits_def Let_def R_def)
    then obtain new where new: "open_readers disk' ids Map.empty = Inr new" "\<forall>t. t \<notin> set ids \<longrightarrow> new t = None"
      "list_all2 (\<lambda>t g. g \<noteq> [] \<and> (\<exists>r. new t = Some r \<and> reader_ok r \<and> table_entries r = map nil_empty g)) ids groups"
      using open_readers_spec [OF c(1,3), of Map.empty] by blast
    define R' where "R' = swapped_readers (stBypassBloom e) R new (task_inputs task)"
    have fresh: "\<forall>l. set ids \<inter> set (L l) = {}" using c(4) lok(2) by blast
    have "set (task_inputs task) \<subseteq> set (L (FromLevel task)) \<union> set (L (ToLevel task))"
      using input_to_disjoint(1) [OF lok(1) task] task by (auto simp: task_ok_def)
    then have "set ids \<inter> set (task_inputs task) = {}" using fresh by blast
    from swapped_readers_swap [OF new(2,3) c(3) fresh this c(2)]
    have swap: "compaction_swap R L task ids groups R'" unfolding R'_def .
    let ?e1 = "e\<lparr>egCompactor := commit_stats C bytes st (egCompactor e), stManifest := m2, stTables := disk'\<rparr>"
    let ?e' = "updateLevelTables M (?e1\<lparr>stReaders := R', stTables := fold RemoveSSTableFiles (task_inputs task) disk'\<rparr>)"
    have "R' = (\<lambda>tid. if tid \<in> set (task_inputs task) then None
        else (R ++ (if stBypassBloom e then (\<lambda>t. map_option (SetBypassBloom True) (new t)) else new)) tid)"
      by (rule ext) (simp add: R'_def swapped_readers_def)
    then have run: "Engine_Compact F M C e = Some (None, ?e')"
      using c(7) ap True ins(2) new(1)
      by (simp add: Engine_Compact_def R_def [symmetric] m_def [symmetric] Let_def cong: if_cong)
    have lev': "stLevelTables ?e' l = levels_after L task ids l" if "0 \<le> l" "l < 7" for l
      using that lv2 by (simp add: updateLevelTables_def)
    have fields: "stReaders ?e' = R'" "stManifest ?e' = m2" by (simp_all add: updateLevelTables_def)
    have "engine_ok M used ?e'"
    proof -
      have "set (levels_after L task ids l) \<subseteq> used m2" for l
        using lok(2) [of l] used2 by (auto simp: levels_after_def)
      then have "store_ok M used ?e'"
        unfolding store_ok_def fields lv2 using levels_after_ok [OF lok(1) task swap] lev' by blast
      then show ?thesis using ok by (simp add: engine_ok_def mems_ok_def updateLevelTables_def)
    qed
    moreover have mem: "mem_runs ?e' = mem_runs e" by (simp add: mem_runs_def updateLevelTables_def)
    moreover have "engine_view ?e' = view (mem_runs e @ compacted_runs R (stLevelTables e) task)"
    proof -
      have "compacted_runs R (stLevelTables e) task = compacted_runs R L task"
      proof -
        have "level_runs R (stLevelTables e) [1..6] = level_runs R L [1..6]"
          using lv(2) by (intro level_runs_cong) (simp del: upto_rec_numeral)
        then show ?thesis using lv(2) [of 0] by (simp add: compacted_runs_def)
      qed
      then show ?thesis
        using view_append_cong [OF compaction_keeps_view [OF lok(1) task swap lim], of "mem_runs e"]
          store_runs_levels [OF fields(1) lev'] mem
        by (simp add: engine_runs_def)
    qed
    moreover have "egClosed ?e' = egClosed e" by (simp add: updateLevelTables_def)
    ultimately show ?thesis using run R_def by blast
  qed
qed

end
