(* ===== verification/CompactionView.thy ===== *)
theory CompactionView
  imports EngineCompact
begin

text \<open>
  Properties of \<open>Engine.Compact\<close> (\<open>pkg/lsm/engine.go\<close>): what reads see after a compaction.
\<close>

text \<open>
  C16. What reads see after a compaction into a level of at most 6. Let the readers be open, the inputs
  fit the table format, and the system calls on the tables succeed. Then the compaction ends and the
  table invariant holds again; when the manifest refuses the edit the engine reads as before; when it
  accepts it, a compaction between two of the levels 1 to 6 leaves every read as it was, while a
  compaction of level 0 makes reads answer as if the tables of level 0 were searched from the oldest
  to the newest. A task from level 6 to level 7, where no read looks, is excluded; the picker gives
  such tasks (\<open>picker_leaves_last_level\<close>).
\<close>

theorem engine_compaction_view:
  assumes "manifest_laws M used" "engine_ok M used e" "compact_env_ok C"
    and "PickCompaction F (cpConfig (egCompactor e)) (mfGetLevelTables M (stManifest e)) (stReaders e) = Some task"
    and "readers_open (stReaders e)" "InputFrom task \<noteq> []"
    and "compaction_fits used (stManifest e) (stReaders e) task"
    and "7 \<le> MaxLevels (cpConfig (egCompactor e))" "ToLevel task \<le> 6"
  shows "\<exists>err e'. Engine_Compact F M C e = Some (err, e') \<and> engine_ok M used e' \<and> egClosed e' = egClosed e \<and>
    (err = Some (CompactionFailed CommitFailed) \<and> engine_view e' = engine_view e \<and>
       (\<exists>edit m. \<not> fst (mfLogAndApply M edit m)) \<or>
     err = None \<and> engine_view e' =
       (if FromLevel task = 0
        then view (mem_runs e @ map (table_run (stReaders e)) (stLevelTables e 0) @
               level_runs (stReaders e) (stLevelTables e) [1..6])
        else engine_view e))"
proof -
  obtain err e' where e': "Engine_Compact F M C e = Some (err, e')" "engine_ok M used e'" "egClosed e' = egClosed e"
    "err = None \<and> engine_view e' = view (mem_runs e @ compacted_runs (stReaders e) (stLevelTables e) task) \<or>
     err = Some (CompactionFailed CommitFailed) \<and> engine_view e' = engine_view e \<and>
       (\<exists>edit m. \<not> fst (mfLogAndApply M edit m))"
    using Engine_Compact_spec [OF assms] by blast
  moreover have "mem_runs e @ compacted_runs (stReaders e) (stLevelTables e) task = engine_runs e"
    if "FromLevel task \<noteq> 0"
    using that store_runs_levels [of e "stReaders e" "stLevelTables e"]
    by (simp add: compacted_runs_def engine_runs_def)
  moreover have "mem_runs e @ compacted_runs (stReaders e) (stLevelTables e) task =
      mem_runs e @ map (table_run (stReaders e)) (stLevelTables e 0) @
        level_runs (stReaders e) (stLevelTables e) [1..6]" if "FromLevel task = 0"
    using that by (simp add: compacted_runs_def)
  ultimately show ?thesis by auto
qed

text \<open>An engine with the two tables of level 0 that hold an old and a new value of one key.\<close>

definition two_table_engine :: "SSTableReader \<Rightarrow> SSTableReader \<Rightarrow> mem_manifest Engine" where
  "two_table_engine r1 r2 =
     (opened 1)\<lparr>stReaders := [1 \<mapsto> r1, 2 \<mapsto> r2], stManifest := two_tables,
       stLevelTables := (\<lambda>l. if l = 0 then [1, 2] else []), egCompactor := two_compactor\<rparr>"

lemma two_levels: "mfGetLevelTables mem_manifest two_tables = (\<lambda>l. if l = 0 then [1, 2] else [])"
  by (rule ext) (simp add: mem_manifest_def mem_tables_def two_tables_def)

lemma two_table_engine_ok:
  assumes "reader_ok r1" "reader_ok r2"
  shows "engine_ok mem_manifest mem_used (two_table_engine r1 r2)" "\<not> egClosed (two_table_engine r1 r2)"
proof -
  have "(1 :: uint64) \<in> mem_used two_tables" "(2 :: uint64) \<in> mem_used two_tables"
    by (auto simp: mem_used_def two_tables_def intro: image_eqI [of _ _ 1] image_eqI [of _ _ 2])
  moreover have "levels_ok [1 \<mapsto> r1, 2 \<mapsto> r2] (\<lambda>l. if l = 0 then [1, 2 :: uint64] else [])"
    using assms by (auto simp: levels_ok_def readers_ok_def apart_def)
  ultimately have "store_ok mem_manifest mem_used (two_table_engine r1 r2)"
    by (auto simp: store_ok_def two_table_engine_def two_levels)
  then show "engine_ok mem_manifest mem_used (two_table_engine r1 r2)"
    by (simp add: engine_ok_def mems_ok_def two_table_engine_def opened_fields)
  show "\<not> egClosed (two_table_engine r1 r2)" by (simp add: two_table_engine_def opened_fields)
qed

lemma two_table_engine_runs:
  assumes "table_entries r1 = old_entries" "table_entries r2 = new_entries"
  shows "engine_runs (two_table_engine r1 r2) = [[], new_entries, old_entries]"
    "mem_runs (two_table_engine r1 r2) = [[]]"
  using assms by (simp_all add: engine_runs_def mem_runs_def store_runs_def two_table_engine_def opened_fields
      table_run_def)

lemma two_level_runs: "level_runs R (\<lambda>l. if l = 0 then [1, 2] else []) [1..6] = []"
  by (auto simp: level_runs_def simp del: upto_rec_numeral)

lemma built_reader:
  assumes "table_fits sample_opts es" "es \<noteq> []"
  shows "\<exists>r. reader_ok r \<and> table_entries r = map nil_empty es \<and> \<not> rdClosed r"
proof -
  obtain meta r where r: "rdMeta r = meta" "table_ok r" "lookup_ok r" "table_entries r = map nil_empty es"
    "mdMinKey meta = Key (hd es)" "mdMaxKey meta = Key (last es)"
    using built_table_spec [OF assms(1), of no_files 0 1] assms(2) by auto
  then show ?thesis using assms
    by (intro exI [of _ r])
      (auto simp: reader_ok_def hd_map last_map table_fits_def storable_run_def lookup_ok_def)
qed

abbreviation two_table_task :: CompactionTask where
  "two_table_task \<equiv> \<lparr>FromLevel = 0, ToLevel = 1, InputFrom = [1, 2], InputTo = [], IsBottom = True\<rparr>"

lemma two_table_parts:
  "stReaders (two_table_engine r1 r2) = [1 \<mapsto> r1, 2 \<mapsto> r2]" "stManifest (two_table_engine r1 r2) = two_tables"
  "egCompactor (two_table_engine r1 r2) = two_compactor"
  "stLevelTables (two_table_engine r1 r2) = (\<lambda>l. if l = 0 then [1, 2] else [])"
  by (simp_all add: two_table_engine_def)

text \<open>The compaction of both tables can run.\<close>

lemma two_table_ready:
  assumes "table_entries r1 = old_entries" "table_entries r2 = new_entries" "\<not> rdClosed r1" "\<not> rdClosed r2"
  shows "PickCompaction exact_ops (cpConfig two_compactor) (mfGetLevelTables mem_manifest two_tables) [1 \<mapsto> r1, 2 \<mapsto> r2]
      = Some two_table_task"
    "compaction_fits mem_used two_tables [1 \<mapsto> r1, 2 \<mapsto> r2] two_table_task"
    "readers_open [1 \<mapsto> r1, 2 \<mapsto> r2]" "7 \<le> MaxLevels (cpConfig two_compactor)"
proof -
  show "PickCompaction exact_ops (cpConfig two_compactor) (mfGetLevelTables mem_manifest two_tables) [1 \<mapsto> r1, 2 \<mapsto> r2]
      = Some two_table_task" by (rule two_task)
  show "compaction_fits mem_used two_tables [1 \<mapsto> r1, 2 \<mapsto> r2] two_table_task"
    using two_view assms card_two_tables sample_run_fits(1)
    by (simp add: compaction_fits_def input_runs_def table_fits_def) (simp add: old_entries_def)
  show "readers_open [1 \<mapsto> r1, 2 \<mapsto> r2]" using assms by (simp add: readers_open_def)
  show "7 \<le> MaxLevels (cpConfig two_compactor)"
    by (simp add: two_compactor_def NewCompactor_def DefaultLevelConfig_def)
qed

text \<open>The two tables can be built.\<close>

lemma two_readers:
  "\<exists>r1 r2. reader_ok r1 \<and> table_entries r1 = old_entries \<and> \<not> rdClosed r1 \<and>
    reader_ok r2 \<and> table_entries r2 = new_entries \<and> \<not> rdClosed r2"
proof -
  obtain r1 r2 where r: "reader_ok r1" "table_entries r1 = map nil_empty old_entries" "\<not> rdClosed r1"
    "reader_ok r2" "table_entries r2 = map nil_empty new_entries" "\<not> rdClosed r2"
    using built_reader [OF sample_run_fits(1)] built_reader [OF sample_run_fits(2)]
    by (auto simp: old_entries_def new_entries_def)
  moreover have "table_entries r1 = old_entries" "table_entries r2 = new_entries"
    using r by (simp_all add: old_entries_def new_entries_def nil_empty_def)
  ultimately show ?thesis by blast
qed

text \<open>Two flushed writes of one key: the compaction brings the first value back.\<close>

theorem engine_compaction_view_witness:
  "\<exists>e e'. fst (Get [7] e) = Inr (Some [20]) \<and>
    Engine_Compact exact_ops mem_manifest sample_env e = Some (None, e') \<and>
    fst (Get [7] e') = Inr (Some [10])"
proof -
  obtain r1 r2 where r: "reader_ok r1" "table_entries r1 = old_entries" "\<not> rdClosed r1"
    "reader_ok r2" "table_entries r2 = new_entries" "\<not> rdClosed r2"
    using two_readers by blast
  let ?e = "two_table_engine r1 r2" and ?M = mem_manifest
  note ok = two_table_engine_ok [OF r(1,4)]
  note runs = two_table_engine_runs [OF r(2,5)]
  note ready = two_table_ready [OF r(2,5,3,6)]
  obtain err e' where e': "Engine_Compact exact_ops ?M sample_env ?e = Some (err, e')"
    "engine_ok ?M mem_used e'" "egClosed e' = egClosed ?e"
    "(\<exists>edit m. \<not> fst (mfLogAndApply ?M edit m)) \<or> err = None \<and> engine_view e' = view [[], old_entries, new_entries]"
    using engine_compaction_view [OF mem_manifest_laws ok(1) two_env, of exact_ops two_table_task] runs(2) r(2,5) ready
    by (auto simp: two_table_parts table_run_def two_level_runs)
  have none: "err = None" "engine_view e' = view [[], old_entries, new_entries]"
    using e'(4) by (simp_all add: mem_manifest_def)
  then have "engine_view e' [7] = Some [10]" "engine_view ?e [7] = Some [20]"
    by (simp_all add: runs(1) view_def version_def old_entries_def new_entries_def)
  then show ?thesis
    using Get_value(2) [OF ok, of "[7]"] Get_value(2) [OF e'(2), of "[7]"] e'(1,3) ok(2) none(1)
    by (intro exI [of _ ?e] exI [of _ e']) simp
qed

end
