(* ===== verification/CompactWorker.thy ===== *)
theory CompactWorker
  imports CompactionView
begin

text \<open>
  The worker that compacts in the background (\<open>compactionWorker\<close> in \<open>pkg/lsm/engine.go\<close>): what a notification
  makes it do, when that ends, and when it does not.
\<close>

section \<open>The worker\<close>

text \<open>
  The inner loop of \<open>compactionWorker\<close>; the fuel bounds its rounds, and \<open>C n\<close> is the environment of the round
  with \<open>n\<close> rounds left. An error of a compaction is dropped and ends the loop.
\<close>

datatype 'e drain_result = Drained 'e | DrainPanic | StillCompacting 'e

fun drain_compactions ::
  "'f float_ops \<Rightarrow> 'm Manifest \<Rightarrow> (nat \<Rightarrow> compact_env) \<Rightarrow> nat \<Rightarrow> 'm Engine \<Rightarrow> 'm Engine drain_result" where
  "drain_compactions F M C 0 e = StillCompacting e"
| "drain_compactions F M C (Suc n) e =
     (case Engine_Compact F M (C n) e of
        None \<Rightarrow> DrainPanic
      | Some (Some _, e1) \<Rightarrow> Drained e1
      | Some (None, e1) \<Rightarrow>
          (if int (length (level_of (mfGetAllLevels M (stManifest e1)) 0)) < ogL0CompactionTrigger (stOpts e1)
           then Drained e1
           else drain_compactions F M C n e1))"

text \<open>The worker takes the notification and compacts.\<close>

definition compactionWorker ::
  "'f float_ops \<Rightarrow> 'm Manifest \<Rightarrow> (nat \<Rightarrow> compact_env) \<Rightarrow> nat \<Rightarrow> 'm Engine \<Rightarrow> 'm Engine drain_result" where
  "compactionWorker F M C n e =
     (if stCompactSignal e then drain_compactions F M C n (e\<lparr>stCompactSignal := False\<rparr>) else Drained e)"

section \<open>A compaction empties level 0\<close>

lemma compact_entry_levels:
  assumes laws: "manifest_laws M used" and res: "compact_entry M E target task entry st = (err, st')"
  shows "mfGetLevelTables M (ksManifest st') = mfGetLevelTables M (ksManifest st)"
proof -
  have add: "ksManifest s' = ksManifest s" if "add_entry E target entry s = (err, s')" for s s' err
    using that by (auto simp: add_entry_def finish_table_def keep_builder_def Let_def
        split: if_splits prod.splits option.splits sum.splits)
  have start: "mfGetLevelTables M (ksManifest s') = mfGetLevelTables M (ksManifest st)"
    if "startNewTable M E task st = (err, s')" for s' err
    using that by (auto simp: startNewTable_def keep_builder_def dest: manifest_NextID(1) [OF laws]
        split: prod.splits sum.splits)
  show ?thesis using res add start
    by (fastforce simp: compact_entry_def split: if_splits prod.splits option.splits)
qed

lemma compact_loop_levels:
  "compact_loop M E target task it st = Some r \<Longrightarrow> manifest_laws M used \<Longrightarrow>
    mfGetLevelTables M (ksManifest (snd r)) = mfGetLevelTables M (ksManifest st)"
proof (induction rule: compact_loop.raw_induct [rotated, consumes 1])
  case (1 f M E target task it st r)
  show ?case
  proof (cases "Merged_Valid it")
    case False
    then show ?thesis using 1(2) by auto
  next
    case True
    then obtain entry where entry: "Merged_Entry it = Some entry" using 1(2) by (cases "Merged_Entry it") auto
    obtain err st1 where ce: "compact_entry M E target task entry st = (err, st1)" by fastforce
    note lv = compact_entry_levels [OF 1(3) ce]
    show ?thesis
    proof (cases "IsBottom task \<and> IsTombstone entry")
      case drop: True
      then obtain it1 where "f M E target task it1 (st\<lparr>ksPurged := ksPurged st + 1\<rparr>) = Some r"
        using 1(2) True entry by (auto simp: bind_eq_Some_conv)
      from 1(1) [OF this 1(3)] show ?thesis by simp
    next
      case keep: False
      show ?thesis
      proof (cases "err = None")
        case False
        then have "r = (err, st1)" using 1(2) True entry keep ce by auto
        then show ?thesis using lv by simp
      next
        case none: True
        then obtain it1 where "f M E target task it1 st1 = Some r"
          using 1(2) True entry keep ce by (auto simp: bind_eq_Some_conv)
        from 1(1) [OF this 1(3)] show ?thesis using lv by simp
      qed
    qed
  qed
qed

text \<open>After a compaction without an error level 0 is below its trigger.\<close>

lemma Compact_levels:
  fixes M :: "'m Manifest"
  assumes laws: "manifest_laws M used" and trig: "1 \<le> L0CompactionTrigger (cpConfig c)"
    and res: "Compact F M E R c m d = Some (Inr out, c', m', d')"
  shows "int (length (mfGetLevelTables M m' 0)) < L0CompactionTrigger (cpConfig c)"
proof (cases "PickCompaction F (cpConfig c) (level_of (mfGetAllLevels M m)) R")
  case None
  then show ?thesis using res manifest_levels [OF laws]
    by (auto simp: Compact_def PickCompaction_def Let_def split: if_splits)
next
  case (Some task)
  let ?L = "mfGetLevelTables M m"
  have pick: "PickCompaction F (cpConfig c) ?L R = Some task" using Some manifest_levels [OF laws] by simp
  obtain st1 :: "'m compact_state" where st1: "mfGetLevelTables M (ksManifest st1) = ?L"
    "mfLogAndApply M (compaction_edit task (ksNew st1)) (ksManifest st1) = (True, m')"
  proof -
    obtain inputs inputBytes it err st where run: "compact_loop M E (cpTargetTable c) task it
        \<lparr>ksManifest = m, ksDisk = d, ksNew = [], ksBuilder = None, ksSize = 0, ksBytes = 0, ksPurged = 0\<rparr> = Some (err, st)"
      "err = None"
      "(case (case ksBuilder st of None \<Rightarrow> (None, st) | Some b \<Rightarrow> finish_table E b st) of
          (Some e, st1) \<Rightarrow> (Inl e, c, ksManifest st1, ksDisk st1)
        | (None, st1) \<Rightarrow>
            (case mfLogAndApply M (compaction_edit task (ksNew st1)) (ksManifest st1) of
               (False, m2) \<Rightarrow> (Inl CommitFailed, c, m2, ksDisk st1)
             | (True, m2) \<Rightarrow> (Inr (ksNew st1, InputFrom task @ InputTo task), commit_stats E inputBytes st1 c, m2, ksDisk st1)))
        = (Inr out, c', m', d')"
      using res Some
      by (auto simp: Compact_def Let_def bind_eq_Some_conv split: sum.splits option.splits prod.splits)
    obtain err1 st1 where f: "(case ksBuilder st of None \<Rightarrow> (None, st) | Some b \<Rightarrow> finish_table E b st) = (err1, st1)"
      by fastforce
    have "ksManifest st1 = ksManifest st" using f
      by (auto simp: finish_table_def keep_builder_def Let_def split: option.splits sum.splits prod.splits)
    then have "mfGetLevelTables M (ksManifest st1) = ?L" using compact_loop_levels [OF run(1) laws] by simp
    moreover have "mfLogAndApply M (compaction_edit task (ksNew st1)) (ksManifest st1) = (True, m')"
      using run(3) f by (cases err1) (auto split: prod.splits bool.splits)
    ultimately show ?thesis using that by blast
  qed
  have after_edit: "mfGetLevelTables M m' = levels_after ?L task (ksNew st1)"
    using manifest_apply(1) [OF laws st1(2)] st1(1) by (simp add: compaction_edit_levels)
  have "ToLevel task \<ge> 1" using PickCompaction_task_ok [OF pick] by (auto simp: task_ok_def)
  then have l0: "mfGetLevelTables M m' 0 = filter (\<lambda>t. t \<notin> set (task_inputs task)) (?L 0)"
    by (simp add: after_edit levels_after_def)
  show ?thesis
  proof (cases "int (length (?L 0)) \<ge> L0CompactionTrigger (cpConfig c)")
    case True
    then have "InputFrom task = ?L 0" using pick by (auto simp: PickCompaction_def)
    then show ?thesis using trig by (simp add: l0)
  next
    case False
    moreover have "length (mfGetLevelTables M m' 0) \<le> length (?L 0)" unfolding l0 by (rule length_filter_le)
    ultimately show ?thesis by linarith
  qed
qed

lemma Engine_Compact_levels:
  assumes laws: "manifest_laws M used" and trig: "1 \<le> L0CompactionTrigger (cpConfig (egCompactor e))"
    and res: "Engine_Compact F M C e = Some (None, e')"
  shows "int (length (level_of (mfGetAllLevels M (stManifest e')) 0)) < L0CompactionTrigger (cpConfig (egCompactor e))"
    "stOpts e' = stOpts e"
proof -
  obtain outcome c m d where run:
    "Compact F M C (stReaders e) (egCompactor e) (stManifest e) (stTables e) = Some (outcome, c, m, d)"
    using res by (auto simp: Engine_Compact_def bind_eq_Some_conv)
  then obtain new del where out: "outcome = Inr (new, del)" using res
    by (cases outcome) (auto simp: Engine_Compact_def)
  have "stManifest e' = m \<and> stOpts e' = stOpts e"
  proof (cases "new = [] \<and> del = []")
    case False
    then show ?thesis using res run out
      by (cases "open_readers d new Map.empty") (auto simp: Engine_Compact_def Let_def updateLevelTables_def)
  qed (use res run out in \<open>auto simp: Engine_Compact_def\<close>)
  then show "int (length (level_of (mfGetAllLevels M (stManifest e')) 0)) < L0CompactionTrigger (cpConfig (egCompactor e))"
    "stOpts e' = stOpts e"
    using Compact_levels [OF laws trig run [unfolded out]] manifest_levels [OF laws] by simp_all
qed

text \<open>Without the trigger in the options the loop has no end: nothing compacted, and level 0 is never below 0 tables.\<close>

lemma Engine_Compact_nothing:
  assumes laws: "manifest_laws M used" and ap: "\<forall>edit m. fst (mfLogAndApply M edit m)"
    and e: "mfGetLevelTables M (stManifest e) = (\<lambda>_. [])" "L0CompactionTrigger (cpConfig (egCompactor e)) \<le> 0"
  shows "\<exists>e'. Engine_Compact F M C e = Some (None, e') \<and> mfGetLevelTables M (stManifest e') = (\<lambda>_. []) \<and>
    cpConfig (egCompactor e') = cpConfig (egCompactor e) \<and> stOpts e' = stOpts e"
proof -
  let ?task = "\<lparr>FromLevel = 0, ToLevel = 1, InputFrom = [], InputTo = [],
    IsBottom = isBottomLevel (cpConfig (egCompactor e)) 1 (\<lambda>_. [])\<rparr> :: CompactionTask"
  have pick: "PickCompaction F (cpConfig (egCompactor e)) (level_of (mfGetAllLevels M (stManifest e))) (stReaders e) = Some ?task"
    using e manifest_levels [OF laws] by (simp add: PickCompaction_def findOverlapping_def)
  obtain m2 where m2: "mfLogAndApply M (compaction_edit ?task []) (stManifest e) = (True, m2)"
    using ap by (metis prod.collapse)
  then have lv: "mfGetLevelTables M m2 = (\<lambda>_. [])"
    using manifest_apply(1) [OF laws m2] e(1) by (simp add: compaction_edit_levels levels_after_def fun_eq_iff)
  have it: "\<exists>it. NewMergedIterator table_iterator [] b = Some it \<and> \<not> Merged_Valid it" for b
    by (subst NewMergedIterator_def, subst advance.simps) (simp add: Merged_Valid_def)
  then obtain it where it: "NewMergedIterator table_iterator [] (IsBottom ?task) = Some it" "\<not> Merged_Valid it" by blast
  have "compact_loop M C t ?task it st = Some (None, st)" for t st
    using it(2) by (simp add: compact_loop.simps)
  then show ?thesis using pick it m2 lv
    by (simp add: Engine_Compact_def Compact_def Let_def commit_stats_def)
qed

lemma drain_never_ends:
  assumes laws: "manifest_laws M used" and ap: "\<forall>edit m. fst (mfLogAndApply M edit m)"
  shows "mfGetLevelTables M (stManifest e) = (\<lambda>_. []) \<Longrightarrow> L0CompactionTrigger (cpConfig (egCompactor e)) \<le> 0 \<Longrightarrow>
    ogL0CompactionTrigger (stOpts e) \<le> 0 \<Longrightarrow> \<exists>e'. drain_compactions F M C n e = StillCompacting e'"
proof (induction n arbitrary: e)
  case (Suc n)
  obtain e' where e': "Engine_Compact F M (C n) e = Some (None, e')" "mfGetLevelTables M (stManifest e') = (\<lambda>_. [])"
    "cpConfig (egCompactor e') = cpConfig (egCompactor e)" "stOpts e' = stOpts e"
    using Engine_Compact_nothing [OF laws ap Suc.prems(1,2)] by blast
  then show ?case using Suc.IH [of e'] Suc.prems by simp
qed simp

section \<open>The work for a notification ends\<close>

text \<open>
  C18. The compaction worker. When the trigger is at least one table, a notification is worked off with one
  compaction: it brings level 0 below its trigger or is refused, and the worker waits again, with the tables
  in order.
\<close>

theorem compaction_worker_ends:
  assumes "manifest_laws M used" "engine_ok M used e" "compact_env_ok (C n)" "stCompactSignal e"
    and "PickCompaction F (cpConfig (egCompactor e)) (mfGetLevelTables M (stManifest e)) (stReaders e) = Some task"
    and "readers_open (stReaders e)" "InputFrom task \<noteq> []"
    and "compaction_fits used (stManifest e) (stReaders e) task"
    and "7 \<le> MaxLevels (cpConfig (egCompactor e))" "ToLevel task \<le> 6"
    and "L0CompactionTrigger (cpConfig (egCompactor e)) = ogL0CompactionTrigger (stOpts e)"
    and "1 \<le> ogL0CompactionTrigger (stOpts e)"
  shows "\<exists>e'. compactionWorker F M C (Suc n) e = Drained e' \<and> engine_ok M used e' \<and>
    (int (length (mfGetLevelTables M (stManifest e') 0)) < ogL0CompactionTrigger (stOpts e) \<or>
     \<not> (\<forall>edit m. fst (mfLogAndApply M edit m)))"
proof -
  let ?e = "e\<lparr>stCompactSignal := False\<rparr>"
  have ok: "engine_ok M used ?e" using assms(2)
    by (simp add: engine_ok_def store_ok_def mems_ok_def)
  obtain err e' where e': "Engine_Compact F M (C n) ?e = Some (err, e')" "engine_ok M used e'"
    "err = None \<or> \<not> (\<forall>edit m. fst (mfLogAndApply M edit m))"
    using Engine_Compact_spec [OF assms(1) ok assms(3), of F task] assms(5-10) by auto
  have "int (length (level_of (mfGetAllLevels M (stManifest e')) 0)) < ogL0CompactionTrigger (stOpts e) \<and> stOpts e' = stOpts e"
    if "err = None"
    using Engine_Compact_levels [OF assms(1) _ e'(1) [unfolded that]] assms(11,12) by simp
  then show ?thesis using e' assms(4) manifest_levels [OF assms(1)]
    by (cases err) (auto simp: compactionWorker_def)
qed

text \<open>The two tables of level 0 are merged on a notification.\<close>

theorem compaction_worker_ends_witness:
  "\<exists>e e'. mfGetLevelTables mem_manifest (stManifest e) 0 = [1, 2] \<and>
    compactionWorker exact_ops mem_manifest (\<lambda>_. sample_env) 1 e = Drained e' \<and>
    length (mfGetLevelTables mem_manifest (stManifest e') 0) < 2"
proof -
  obtain r1 r2 where r: "reader_ok r1" "table_entries r1 = old_entries" "\<not> rdClosed r1"
    "reader_ok r2" "table_entries r2 = new_entries" "\<not> rdClosed r2"
    using two_readers by blast
  let ?M = mem_manifest
  let ?e = "(two_table_engine r1 r2)\<lparr>stCompactSignal := True, stOpts := (small_options 1)\<lparr>ogL0CompactionTrigger := 2\<rparr>\<rparr>"
  have ok: "engine_ok ?M mem_used ?e"
    using two_table_engine_ok(1) [OF r(1,4)] by (simp add: engine_ok_def store_ok_def mems_ok_def)
  have trig: "L0CompactionTrigger (cpConfig two_compactor) = 2"
    by (simp add: two_compactor_def NewCompactor_def DefaultLevelConfig_def)
  obtain e' where "compactionWorker exact_ops ?M (\<lambda>_. sample_env) (Suc 0) ?e = Drained e'"
    "int (length (mfGetLevelTables ?M (stManifest e') 0)) < 2 \<or> \<not> (\<forall>edit m. fst (mfLogAndApply ?M edit m))"
    using compaction_worker_ends [OF mem_manifest_laws ok, of "\<lambda>_. sample_env" 0 exact_ops two_table_task]
      two_env two_table_ready [OF r(2,5,3,6)] trig by (auto simp: two_table_parts)
  then show ?thesis using two_levels by (intro exI [of _ ?e] exI [of _ e']) (simp add: two_table_parts mem_manifest_def)
qed

end
