(* ===== verification/EngineRecover.thy ===== *)
theory EngineRecover
  imports EngineProps
begin

text \<open>
  Opening the engine on what a crash has left: the tables of the manifest and the logs, replayed in
  the order of their ids.
\<close>

section \<open>Replaying a log\<close>

lemma handler_step:
  "recover_loop no_read_error t f d off v s =
     (case wal_step d off of
        StepEnd \<Rightarrow> (clean_report v off, None, d, s)
      | StepTruncate ty \<Rightarrow> stop_truncate t ty d off v s
      | StepKeep ty \<Rightarrow> stop_keep ty d off v s
      | StepFrame n e \<Rightarrow>
          (case f s e of
             Inl err \<Rightarrow> (empty_report, Some (HandlerFailed err), d, s)
           | Inr s' \<Rightarrow> recover_loop no_read_error t f d (off + 8 + n) (v + 1) s'))"
  by (subst recover_loop.simps)
    (auto simp: wal_step_def Let_def no_read_error_def DecodeEntry_no_panic
      split: sum.splits decode_error.splits)

text \<open>A handler that does not fail on the states it meets.\<close>

lemma replay_good_handler:
  assumes good: "\<And>s e. P s \<Longrightarrow> f s e = Inr (h s e) \<and> P (h s e)" and "P s" "off \<le> length d"
  shows "recover_loop no_read_error t f d off v s = (replay_loop t h d off v s :: ('s, unit) recovery)"
  using assms(2,3)
proof (induction "length d - off" arbitrary: off v s rule: less_induct)
  case less
  show ?case
  proof (cases "wal_step d off")
    case (StepFrame n e)
    note b = wal_step_frame_bounds [OF this]
    have "length d - (off + 8 + n) < length d - off" using b by simp
    from less.hyps [OF this _ b, of "h s e" "v + 1"] show ?thesis
      using StepFrame good [OF less.prems(1), of e] by (subst handler_step, subst replay_step) simp
  qed (subst handler_step, subst replay_step, simp)+
qed

definition replay :: "Entry list \<Rightarrow> Entry list" where
  "replay ops = fold put_entry ops []"

lemma replay_simps [simp]: "replay [] = []" "replay (ops @ [x]) = put_entry x (replay ops)"
  by (simp_all add: replay_def)

lemma put_nil_empty: "put_entry (nil_empty e) (map nil_empty es) = map nil_empty (put_entry e es)"
  by (simp add: put_entry_def filter_map comp_def)

lemma replay_nil_empty: "replay (map nil_empty ops) = map nil_empty (replay ops)"
  by (induction ops rule: rev_induct) (simp_all add: put_nil_empty)

definition mem_insert :: "MemTable \<Rightarrow> Entry \<Rightarrow> MemTable" where
  "mem_insert m e = (case MemTable_Put e m of None \<Rightarrow> m | Some m' \<Rightarrow> m')"

lemma mem_insert_props:
  assumes "mem_ok m"
  shows "replay_entry m e = Inr (mem_insert m e)" "mem_ok (mem_insert m e)"
    "mem_entries (mem_insert m e) = put_entry e (mem_entries m)" "mtId (mem_insert m e) = mtId m"
  using mem_Put [OF assms, of e] by (auto simp: replay_entry_def mem_insert_def)

lemma mem_inserts:
  "mem_ok m \<Longrightarrow> mem_ok (foldl mem_insert m ops) \<and>
    mem_entries (foldl mem_insert m ops) = fold put_entry ops (mem_entries m) \<and>
    mtId (foldl mem_insert m ops) = mtId m"
  by (induction ops arbitrary: m) (simp_all add: mem_insert_props)

text \<open>A log file that holds the entries \<open>ops\<close>, perhaps with a torn frame behind them.\<close>

definition log_holds :: "bytes \<Rightarrow> Entry list \<Rightarrow> bool" where
  "log_holds d ops \<longleftrightarrow>
     (\<exists>es n. (\<forall>e\<in>set es. loggable e) \<and> d = take n (frames es) \<and> ops = take (complete_frames es n) es)"

lemma log_holds_frames: "\<forall>e\<in>set ops. loggable e \<Longrightarrow> log_holds (frames ops) ops"
  unfolding log_holds_def
  by (intro exI [of _ ops] exI [of _ "length (frames ops)"]) (simp add: complete_frames_all)

lemma recover_wal_spec:
  assumes log: "log_holds d ops" "stWals st wid = Some d" and rd: "evWalRead E wid = no_read_error"
  shows "\<exists>mem d'. recover_wal E wid st = (Inr mem, st\<lparr>stWals := (stWals st)(wid \<mapsto> d')\<rparr>) \<and>
    mem_ok mem \<and> mem_entries mem = map nil_empty (replay ops) \<and> mtId mem = wid"
proof -
  obtain es n where es: "\<forall>e\<in>set es. loggable e" "d = take n (frames es)" "ops = take (complete_frames es n) es"
    using log(1) by (auto simp: log_holds_def)
  let ?start = "MemTable_New (evRnd E wid) wid (ogMemTableSize (stOpts st))" and ?t = "evWalTruncate E wid"
  let ?res = "foldl mem_insert ?start (map nil_empty ops)"
  have loop: "recover_loop no_read_error ?t replay_entry d 0 0 ?start = replay_loop ?t mem_insert d 0 0 ?start"
    by (rule replay_good_handler [where P = mem_ok and f = replay_entry and h = mem_insert])
      (simp_all add: mem_insert_props)
  obtain rep err d' s' where r: "replay_loop ?t mem_insert d 0 0 ?start = (rep, err, d', s')"
    using prod_cases4 by blast
  have "err = None" "s' = ?res"
    using recover_take [OF es(1) refl, of n mem_insert ?start ?t] r es(2,3) by (simp_all add: stopped_at_def)
  then have "recover_wal E wid st = (Inr ?res, st\<lparr>stWals := (stWals st)(wid \<mapsto> d')\<rparr>)"
    using r loop log(2) by (simp add: recover_wal_def Recover_def RecoverWithReport_def rd Let_def)
  moreover note ins = mem_inserts [OF mem_New(1), of "evRnd E wid" wid "ogMemTableSize (stOpts st)" "map nil_empty ops"]
  have "mem_ok ?res" using ins by (rule conjunct1)
  moreover have "mem_entries ?res = map nil_empty (replay ops)"
    using ins replay_nil_empty [of ops] by (simp add: replay_def)
  moreover have "mtId ?res = wid" using ins by (simp add: MemTable_New_def)
  ultimately show ?thesis by blast
qed

section \<open>Replaying all logs\<close>

definition run_flushable :: "Options \<Rightarrow> Entry list \<Rightarrow> bool" where
  "run_flushable opts es \<longleftrightarrow> storable_run es \<and>
     bfBits (NewBloomFilter (ogBloomBits opts) (ogBloomK opts) (int (length es))) < 2 ^ 35"

lemma flushable_run: "mem_ok mem \<Longrightarrow> flushable opts mem \<longleftrightarrow> run_flushable opts (mem_entries mem)"
  by (simp add: flushable_def run_flushable_def EntryCount_entries)

lemma install_manifest [simp]: "stManifest (install_table M tid r st) = stManifest st"
  by (simp add: install_table_def Let_def updateLevelTables_def triggerCompaction_def)

text \<open>The ids a flush takes from the manifest.\<close>

lemma flush_used:
  assumes laws: "manifest_laws M used" and res: "flushMemTableDirect M E mem st = (r, st')"
  shows "used (stManifest st') \<subseteq> insert (fst (mfNextID M (stManifest st))) (used (stManifest st))"
    "used (stManifest st) \<subseteq> used (stManifest st')"
proof -
  obtain tid m1 where id: "mfNextID M (stManifest st) = (tid, m1)" by fastforce
  note m1 = manifest_NextID(2) [OF laws id]
  obtain br st1 where b: "build_table E tid mem (st\<lparr>stManifest := m1\<rparr>) = (br, st1)" by fastforce
  have man: "stManifest st1 = m1" using build_table_frame(3) [OF b] by simp
  obtain acc m2 where ap: "mfLogAndApply M \<lparr>AddedTables = [\<lparr>tmID = tid, tmLevel = 0\<rparr>], DeletedTables = []\<rparr> m1 = (acc, m2)"
    by fastforce
  have u2: "used m2 = insert tid (used (stManifest st))"
    using manifest_apply(2) [OF laws, of _ m1 m2] manifest_refused(2) [OF laws, of _ m1 m2] ap m1
    by (cases acc) fastforce+

  have "stManifest st' \<in> {stManifest st, m1, m2}"
  proof (cases "EntryCount mem = 0")
    case True
    then show ?thesis using res by (simp add: flushMemTableDirect_def)
  next
    case False
    show ?thesis
    proof (cases br)
      case (Inl err)
      then show ?thesis using False res id b man by (simp add: flushMemTableDirect_def)
    next
      case (Inr meta)
      show ?thesis
      proof (cases "OpenReader tid (stTables st1 tid)")
        case (Inl err)
        then show ?thesis using False Inr res id b man by (simp add: flushMemTableDirect_def)
      next
        case (Inr rd)
        then show ?thesis using False \<open>br = Inr meta\<close> res id b man ap
          by (cases acc) (auto simp: flushMemTableDirect_def)
      qed
    qed
  qed
  then have "used (stManifest st') = used (stManifest st) \<or> used (stManifest st') = insert tid (used (stManifest st))"
    by (elim insertE emptyE) (simp_all only: m1 u2 simp_thms)
  then show "used (stManifest st') \<subseteq> insert (fst (mfNextID M (stManifest st))) (used (stManifest st))"
    "used (stManifest st) \<subseteq> used (stManifest st')" unfolding id fst_conv by blast+
qed

text \<open>What recovery needs of its environment: no errors when reading, opening and building.\<close>

definition recover_env_ok :: "engine_env \<Rightarrow> bool" where
  "recover_env_ok E \<longleftrightarrow> evWalRead E = (\<lambda>_. no_read_error) \<and> (\<forall>w. evWalOpen E w) \<and> (\<forall>t x. evTableIO E t x)"

definition logs_on_disk :: "(uint64 \<Rightarrow> bytes option) \<Rightarrow> (uint64 \<times> Entry list) list \<Rightarrow> bool" where
  "logs_on_disk wals logs \<longleftrightarrow>
     (\<forall>(wid, ops)\<in>set logs. \<exists>d. wals wid = Some d \<and> log_holds d ops) \<and> distinct (map fst logs)"

definition log_runs :: "(uint64 \<times> Entry list) list \<Rightarrow> Entry list list" where
  "log_runs logs = map (\<lambda>(wid, ops). replay ops) (rev logs)"

lemma store_ok_wals [simp]:
  "store_ok M used (st\<lparr>stWals := w\<rparr>) = store_ok M used st" "store_runs (st\<lparr>stWals := w\<rparr>) = store_runs st"
  by (simp_all add: store_ok_def store_runs_def)

lemma remove_wal_frame [simp]:
  "store_ok M used (remove_wal E wid st) = store_ok M used st" "store_runs (remove_wal E wid st) = store_runs st"
  "stOpts (remove_wal E wid st) = stOpts st" "stManifest (remove_wal E wid st) = stManifest st"
  by (simp_all add: remove_wal_def)

lemma recover_wals_spec:
  assumes laws: "manifest_laws M used" and env: "recover_env_ok E" and ap: "\<forall>edit m. fst (mfLogAndApply M edit m)"
    and "store_ok M used st" "logs \<noteq> []" "logs_on_disk (stWals st) logs"
    and "\<forall>(wid, ops)\<in>set (butlast logs). run_flushable (stOpts st) (map nil_empty (replay ops))"
    and "card (used (stManifest st)) + length logs < 2 ^ 64"
  shows "\<exists>w mem st'. recover_wals M E (map fst logs) st = (Inr (Some (w, mem)), st') \<and>
    store_ok M used st' \<and> mem_ok mem \<and> view (mem_entries mem # store_runs st') = view (log_runs logs @ store_runs st)"
  using assms(4-)
proof (induction logs arbitrary: st)
  case (Cons log logs)
  obtain wid ops where log: "log = (wid, ops)" by fastforce
  obtain d where d: "stWals st wid = Some d" "log_holds d ops"
    using Cons.prems(3) by (auto simp: logs_on_disk_def log)
  have rd: "evWalRead E wid = no_read_error" using env by (simp add: recover_env_ok_def)
  obtain mem d' where rec: "recover_wal E wid st = (Inr mem, st\<lparr>stWals := (stWals st)(wid \<mapsto> d')\<rparr>)"
    "mem_ok mem" "mem_entries mem = map nil_empty (replay ops)"
    using recover_wal_spec [OF d(2,1) rd] by blast
  let ?st1 = "st\<lparr>stWals := (stWals st)(wid \<mapsto> d')\<rparr>"
  show ?case
  proof (cases "logs = []")
    case True
    obtain w st2 where w: "open_wal E wid ?st1 = (Inr w, st2)"
      using env by (auto simp: open_wal_def WAL_Open_def recover_env_ok_def Let_def)
    have st2: "store_ok M used st2" "store_runs st2 = store_runs st"
      using w Cons.prems(1) by (auto simp: open_wal_def Let_def split: sum.splits)
    then show ?thesis
      using True rec w by (intro exI [of _ w] exI [of _ mem] exI [of _ st2]) (simp add: log log_runs_def view_nil_empty)
  next
    case False
    have fl: "flushable (stOpts ?st1) mem"
      using Cons.prems(4) False rec(2,3) by (simp add: log flushable_run)
    obtain r st2 where r: "flushMemTableDirect M E mem ?st1 = (r, st2)" by fastforce
    have "r = None"
      using flushMemTableDirect_works [OF rec(2) fl _ ap, of E] env r by (simp add: recover_env_ok_def)
    have room: "used (stManifest ?st1) \<noteq> UNIV"
    proof
      assume "used (stManifest ?st1) = UNIV"
      then have "card (used (stManifest st)) = 2 ^ 64" by (simp add: card_word)
      then show False using Cons.prems(5) by simp
    qed
    have st1: "store_ok M used ?st1" using Cons.prems(1) by simp
    note f = flushMemTableDirect_spec [OF laws st1 rec(2) fl room r]
    let ?st3 = "remove_wal E wid st2"
    have "(if EntryCount mem > 0 then flushMemTableDirect M E mem ?st1 else (None, ?st1)) = (None, st2)"
    proof (cases "EntryCount mem > 0")
      case True
      then show ?thesis using r \<open>r = None\<close> by simp
    next
      case False
      then have "EntryCount mem = 0" using EntryCount_entries [OF rec(2)] by simp
      then show ?thesis using r \<open>r = None\<close> by (simp add: flushMemTableDirect_def)
    qed
    then have step: "recover_wals M E (map fst (log # logs)) st = recover_wals M E (map fst logs) ?st3"
      using False rec(1) by (simp add: log)
    have runs: "view (store_runs ?st3) = view (replay ops # store_runs st)"
    proof (cases "mem_entries mem = []")
      case True
      then have "replay ops = []" using rec(3) by simp
      then show ?thesis using f(2) True by simp
    next
      case False
      then have "store_runs ?st3 = map nil_empty (map nil_empty (replay ops)) # store_runs st"
        using f(2) \<open>r = None\<close> rec(3) by simp
      then show ?thesis by (simp only: view_nil_empty)
    qed
    have wid: "wid \<notin> fst ` set logs" using Cons.prems(3) by (simp add: logs_on_disk_def log)
    have "stWals ?st3 v = stWals st v" if "v \<noteq> wid" for v
      using that f(4) by (simp add: remove_wal_def)
    then have disk: "logs_on_disk (stWals ?st3) logs"
      using Cons.prems(3) wid unfolding logs_on_disk_def log by force
    have card: "card (used (stManifest ?st3)) + length logs < 2 ^ 64"
    proof -
      have "card (used (stManifest st2)) \<le> card (insert (fst (mfNextID M (stManifest ?st1))) (used (stManifest ?st1)))"
        using flush_used(1) [OF laws r] by (intro card_mono) auto
      also have "\<dots> \<le> Suc (card (used (stManifest st)))" using card_insert_le_m1 by (simp add: card_insert_if)
      finally show ?thesis using Cons.prems(5) by simp
    qed
    have fits: "\<forall>(wid, ops)\<in>set (butlast logs). run_flushable (stOpts ?st3) (map nil_empty (replay ops))"
      using Cons.prems(4) False f(3) by (auto simp: log)
    have ok3: "store_ok M used ?st3" using f(1) by simp
    obtain w mem' st' where IH: "recover_wals M E (map fst logs) ?st3 = (Inr (Some (w, mem')), st')"
      "store_ok M used st'" "mem_ok mem'"
      "view (mem_entries mem' # store_runs st') = view (log_runs logs @ store_runs ?st3)"
      using Cons.IH [OF ok3 False disk fits card] by blast
    have "view (log_runs logs @ store_runs ?st3) = view (log_runs logs @ replay ops # store_runs st)"
      by (rule view_append_cong [OF runs])
    also have "\<dots> = view (log_runs (log # logs) @ store_runs st)" by (simp add: log_runs_def log)
    finally show ?thesis using IH step by auto
  qed
qed simp

end
