(* ===== verification/EngineDurable.thy ===== *)
theory EngineDurable
  imports EngineRecover
begin

text \<open>
  What is on disk while the engine runs with \<open>SyncAlways\<close> and working logs: every memtable that
  is not yet in a table has its log, and the logs hold exactly the writes of their memtables.
\<close>

section \<open>The invariant\<close>

definition tables_on_disk :: "'m Manifest \<Rightarrow> ('m, 'z) Store_scheme \<Rightarrow> bool" where
  "tables_on_disk M st \<longleftrightarrow>
     (\<forall>l. \<forall>t\<in>set (mfGetLevelTables M (stManifest st) l).
        \<exists>r r'. stReaders st t = Some r \<and> OpenReader t (stTables st t) = Inr r' \<and> reader_ok r' \<and>
          table_entries r' = table_entries r \<and> data_synced (stTables st t))"

text \<open>The logs' system calls succeed; nothing is assumed of the tables'.\<close>

definition log_env_ok :: "engine_env \<Rightarrow> bool" where
  "log_env_ok E \<longleftrightarrow> evWalIO E = (\<lambda>_. []) \<and> (\<forall>w. evWalOpen E w) \<and> (\<forall>w. evRemove E w)"

text \<open>Ids come in ascending order.\<close>

definition ids_ascend :: "'m Manifest \<Rightarrow> ('m \<Rightarrow> uint64 set) \<Rightarrow> bool" where
  "ids_ascend M used \<longleftrightarrow>
     (\<forall>m nid m'. mfNextID M m = (nid, m') \<and> used m \<noteq> UNIV \<longrightarrow> (\<forall>u\<in>used m. u < nid))"

text \<open>The memtables that still have a log, the oldest first.\<close>

definition logged_mems :: "'m Engine \<Rightarrow> flush_pc \<Rightarrow> MemTable list" where
  "logged_mems e pc =
     (case pc of FlushRemoving imm _ \<Rightarrow> [imm] | _ \<Rightarrow> []) @
     (case egImmMem e of None \<Rightarrow> [] | Some imm \<Rightarrow> [imm]) @ [egActiveMem e]"

definition mem_log :: "MemTable \<Rightarrow> uint64 \<times> Entry list" where
  "mem_log m = (mtId m, mem_entries m)"

abbreviation replayed :: "(uint64 \<times> Entry list) list \<Rightarrow> (uint64 \<times> Entry list) list" where
  "replayed logs \<equiv> map (map_prod (\<lambda>w. w) replay) logs"

definition wal_synced :: "'m Engine \<Rightarrow> bool" where
  "wal_synced e \<longleftrightarrow> log_works e \<and> ogSyncPolicy (stOpts e) = SyncAlways \<and>
     word_of_nat (walId (egActiveWAL e)) = mtId (egActiveMem e) \<and>
     fsynced (walFile (egActiveWAL e)) = length (fdata (walFile (egActiveWAL e)))"

definition durable ::
  "'m Manifest \<Rightarrow> ('m \<Rightarrow> uint64 set) \<Rightarrow> 'm Engine \<Rightarrow> flush_pc \<Rightarrow> (uint64 \<times> Entry list) list \<Rightarrow> bool" where
  "durable M used e pc logs \<longleftrightarrow>
     stWals e = map_option frames \<circ> map_of logs \<and> sorted_wrt (<) (map fst logs) \<and>
     fst ` set logs \<subseteq> used (stManifest e) \<and> (\<forall>(w, ops)\<in>set logs. \<forall>x\<in>set ops. loggable x) \<and>
     replayed logs = map mem_log (logged_mems e pc) \<and> wal_synced e \<and>
     stWals e (mtId (egActiveMem e)) = Some (fdata (walFile (egActiveWAL e))) \<and>
     (\<forall>imm b. pc = FlushRemoving imm b \<longrightarrow> written_behind imm e) \<and> tables_on_disk M e"

lemma durableD:
  assumes "durable M used e pc logs"
  shows "stWals e = map_option frames \<circ> map_of logs" "sorted_wrt (<) (map fst logs)"
    "fst ` set logs \<subseteq> used (stManifest e)" "\<forall>(w, ops)\<in>set logs. \<forall>x\<in>set ops. loggable x"
    "replayed logs = map mem_log (logged_mems e pc)" "wal_synced e"
    "stWals e (mtId (egActiveMem e)) = Some (fdata (walFile (egActiveWAL e)))"
    "\<forall>imm b. pc = FlushRemoving imm b \<longrightarrow> written_behind imm e" "tables_on_disk M e"
  using assms unfolding durable_def by fast+

text \<open>The memtables with a log behind the active one.\<close>

definition older_mems :: "'m Engine \<Rightarrow> flush_pc \<Rightarrow> MemTable list" where
  "older_mems e pc =
     (case pc of FlushRemoving imm _ \<Rightarrow> [imm] | _ \<Rightarrow> []) @
     (case egImmMem e of None \<Rightarrow> [] | Some imm \<Rightarrow> [imm])"

lemma logged_mems_older: "logged_mems e pc = older_mems e pc @ [egActiveMem e]"
  by (simp add: logged_mems_def older_mems_def)

lemma map_of_snoc: "k \<notin> fst ` set xs \<Longrightarrow> map_of (xs @ [(k, v)]) = (map_of xs)(k \<mapsto> v)"
  by (induction xs) (auto simp: fun_upd_twist)

text \<open>The last log is the one of the active memtable.\<close>

lemma durable_last:
  assumes "durable M used e pc logs"
  obtains logs0 ops where "logs = logs0 @ [(mtId (egActiveMem e), ops)]" "replay ops = mem_entries (egActiveMem e)"
    "frames ops = fdata (walFile (egActiveWAL e))" "replayed logs0 = map mem_log (older_mems e pc)"
    "mtId (egActiveMem e) \<notin> fst ` set logs0"
proof -
  note D = durableD [OF assms]
  have rp: "replayed logs = map mem_log (older_mems e pc) @ [mem_log (egActiveMem e)]"
    using D(5) by (simp add: logged_mems_older)
  then obtain logs0 log where l: "logs = logs0 @ [log]" by (cases logs rule: rev_cases) auto
  then have e: "replayed logs0 = map mem_log (older_mems e pc)" "map_prod (\<lambda>w. w) replay log = mem_log (egActiveMem e)"
    using rp by simp_all
  then obtain ops where ops: "log = (mtId (egActiveMem e), ops)" "replay ops = mem_entries (egActiveMem e)"
    by (cases log) (auto simp: mem_log_def)
  have notin: "mtId (egActiveMem e) \<notin> fst ` set logs0"
    using D(2) l ops(1) by (auto simp: sorted_wrt_append)
  then have "map_of logs (mtId (egActiveMem e)) = Some ops"
    using map_of_snoc [OF notin, of ops] by (simp only: l ops(1) fun_upd_same)
  then have "frames ops = fdata (walFile (egActiveWAL e))" using D(1,7) by simp
  then show thesis using that [of logs0 ops] l ops e notin by simp
qed

text \<open>The invariant reads only these fields.\<close>

lemma durable_cong:
  assumes "durable M used e pc logs"
    and "stWals e' = stWals e" "stManifest e' = stManifest e" "stReaders e' = stReaders e" "stTables e' = stTables e"
    "stLevelTables e' = stLevelTables e" "egActiveWAL e' = egActiveWAL e" "egActiveMem e' = egActiveMem e"
    "egImmMem e' = egImmMem e" "stOpts e' = stOpts e"
  shows "durable M used e' pc logs"
proof -
  have "store_runs e' = store_runs e" using assms(4,6) by (simp add: store_runs_def)
  then have "written_behind imm e' = written_behind imm e" for imm by (rule written_behind_cong)
  moreover have "tables_on_disk M e' = tables_on_disk M e" using assms(3-5) by (simp add: tables_on_disk_def)
  moreover have "wal_synced e' = wal_synced e" using assms(7,8,10) by (simp add: wal_synced_def log_works_def)
  moreover have "logged_mems e' pc = logged_mems e pc" using assms(8,9) by (simp add: logged_mems_def)
  moreover note D = durableD [OF assms(1)]
  ultimately show ?thesis
    unfolding durable_def assms(2,3,7,8) using D(1-4,7) by (intro conjI) (simp_all only: D simp_thms)
qed

section \<open>Writes\<close>

lemma frames_snoc: "frames (ops @ [x]) = frames ops @ frame_layout x"
  by simp

lemma write_entry_durable:
  assumes d: "durable M used e pc logs" and mem: "mem_ok (egActiveMem e)" and x: "loggable x"
    and res: "write_entry x e = (r, e')"
  shows "r = None \<and> (\<exists>logs'. durable M used e' pc logs') \<and> stManifest e' = stManifest e"
proof -
  obtain logs0 ops where l: "logs = logs0 @ [(mtId (egActiveMem e), ops)]" "replay ops = mem_entries (egActiveMem e)"
    "frames ops = fdata (walFile (egActiveWAL e))"
    "replayed logs0 = map mem_log (older_mems e pc)" "mtId (egActiveMem e) \<notin> fst ` set logs0"
    using durable_last [OF d] .
  note D = durableD [OF d]
  obtain wr w where w: "WAL_Write x (egActiveWAL e) = (wr, w)" by fastforce
  have works: "log_works e" and ids: "word_of_nat (walId (egActiveWAL e)) = mtId (egActiveMem e)"
    and pol: "ogSyncPolicy (stOpts e) = SyncAlways" using D(6) by (simp_all add: wal_synced_def)
  have ww: "wr = None \<and> \<not> walClosed w \<and> optSyncPolicy (walOptions w) = SyncAlways \<and>
    \<not> werr (walWriter w) \<and> wbuf (walWriter w) = [] \<and> fio (walFile w) = [] \<and>
    fdata (walFile w) = fdata (walFile (egActiveWAL e)) @ frame_layout x \<and>
    fsynced (walFile w) = length (fdata (walFile w))"
    using WAL_Write_works [OF _ _ _ _ _ w] works by (simp add: log_works_def)
  have wid: "walId w = walId (egActiveWAL e)"
    using w by (auto simp: WAL_Write_def Let_def split: if_splits prod.splits bool.splits)
  obtain mem' where m: "MemTable_Put x (egActiveMem e) = Some mem'" "mem_entries mem' = put_entry x (mem_entries (egActiveMem e))"
    "mtId mem' = mtId (egActiveMem e)"
    using mem_Put [OF mem, of x] by blast
  have e': "r = None" "e' = (set_wal w e)\<lparr>egActiveMem := mem'\<rparr>"
    using res w ww m(1) by (simp_all add: write_entry_def)
  let ?logs = "logs0 @ [(mtId (egActiveMem e), ops @ [x])]"
  have lm: "logged_mems e' pc = older_mems e pc @ [mem']"
    by (simp add: logged_mems_def older_mems_def e'(2))
  have wals: "stWals e' = map_option frames \<circ> map_of ?logs"
  proof
    fix v
    note old = D(1)
    show "stWals e' v = (map_option frames \<circ> map_of ?logs) v"
    proof (cases "v = mtId (egActiveMem e)")
      case True
      then show ?thesis using l(3) ww ids wid old
        by (simp add: e'(2) set_wal_def l(1) map_of_snoc [OF l(5)] del: map_of_append)
    next
      case False
      then show ?thesis using ids wid old
        by (simp add: e'(2) set_wal_def l(1) map_of_snoc [OF l(5)] del: map_of_append)
    qed
  qed
  have rep: "replayed ?logs = map mem_log (logged_mems e' pc)"
    using l(2,4) m(2,3) by (simp add: lm mem_log_def)
  have "store_runs e' = store_runs e" by (simp add: e'(2) store_runs_def)
  then have wb: "written_behind imm e' = written_behind imm e" for imm by (rule written_behind_cong)
  have "durable M used e' pc ?logs"
    unfolding durable_def
  proof (intro conjI)
    show "stWals e' = map_option frames \<circ> map_of ?logs" by (rule wals)
    show "replayed ?logs = map mem_log (logged_mems e' pc)" by (rule rep)
    show "sorted_wrt (<) (map fst ?logs)" "fst ` set ?logs \<subseteq> used (stManifest e')"
      using D(2,3) l(1) by (simp_all add: e'(2))
    show "\<forall>(w, ops)\<in>set ?logs. \<forall>x\<in>set ops. loggable x" using D(4) x l(1) by auto
    show "wal_synced e'" using ww ids wid m(3) pol by (simp add: wal_synced_def e'(2) log_works_def)
    show "stWals e' (mtId (egActiveMem e')) = Some (fdata (walFile (egActiveWAL e')))"
      using wals l(3) ww m(3) by (simp add: e'(2) map_of_snoc [OF l(5)] del: map_of_append)
    show "\<forall>imm b. pc = FlushRemoving imm b \<longrightarrow> written_behind imm e'" using D(8) wb by simp
    show "tables_on_disk M e'" using D(9) by (simp add: tables_on_disk_def e'(2))
  qed
  then show ?thesis using e' by auto
qed

section \<open>Rotation\<close>

lemma WAL_Close_works:
  assumes "log_works e" "fsynced (walFile (egActiveWAL e)) = length (fdata (walFile (egActiveWAL e)))"
  shows "walId (snd (WAL_Close b (egActiveWAL e))) = walId (egActiveWAL e)"
    "fdata (walFile (snd (WAL_Close b (egActiveWAL e)))) = fdata (walFile (egActiveWAL e))"
  using assms by (auto simp: log_works_def WAL_Close_def Let_def bufio_Flush_def file_Sync_def next_io_def)

text \<open>A rotation when no memtable waits starts a log of its own for the new memtable.\<close>

lemma rotate_durable:
  assumes laws: "manifest_laws M used" "ids_ascend M used" and env: "log_env_ok E"
    and d: "durable M used e pc logs" and imm: "egImmMem e = None" and room: "used (stManifest e) \<noteq> UNIV"
    and ok: "engine_ok M used e"
  shows "\<exists>nid m'. mfNextID M (stManifest e) = (nid, m') \<and> stManifest (rotateMemTable M E e) = m' \<and>
    durable M used (rotateMemTable M E e) pc (logs @ [(nid, [])])"
proof -
  note D = durableD [OF d]
  let ?mem = "MarkImmutable (egActiveMem e)"
  define w0 where "w0 = snd (WAL_Close (evWalClose E (walId (egActiveWAL e))) (egActiveWAL e))"
  define e1 where "e1 = (set_wal w0 e)\<lparr>egActiveMem := ?mem, egImmMem := Some ?mem\<rparr>"
  have w0: "walId w0 = walId (egActiveWAL e)" "fdata (walFile w0) = fdata (walFile (egActiveWAL e))"
    using WAL_Close_works [of e] D(6) by (simp_all add: w0_def wal_synced_def)
  obtain nid m' where nid: "mfNextID M (stManifest e) = (nid, m')" by fastforce
  have above: "\<forall>u\<in>used (stManifest e). u < nid" using laws(2) nid room unfolding ids_ascend_def by blast
  then have fresh: "nid \<notin> fst ` set logs" using D(3) by auto
  note m' = manifest_NextID(1,2) [OF laws(1) nid]
  have wals1: "stWals e1 = stWals e"
  proof
    fix v show "stWals e1 v = stWals e v"
      using D(6,7) w0 by (cases "v = mtId (egActiveMem e)") (simp_all add: e1_def set_wal_def wal_synced_def)
  qed
  have none: "stWals e1 nid = None" using D(1) fresh by (simp add: wals1 map_of_eq_None_iff)
  obtain w1 e2 where w1: "open_wal E nid (e1\<lparr>stManifest := m'\<rparr>) = (Inr w1, e2)"
    "e2 = e1\<lparr>stManifest := m', stWals := (stWals e1)(nid \<mapsto> [])\<rparr>" "walId w1 = unat nid"
    "walFile w1 = \<lparr>fdata = [], fsynced = 0, fio = []\<rparr>" "wbuf (walWriter w1) = []" "\<not> werr (walWriter w1)"
    "\<not> walClosed w1" "optSyncPolicy (walOptions w1) = SyncAlways"
    using env D(6) none by (auto simp: open_wal_def WAL_Open_def Let_def log_env_ok_def wal_options_def wal_synced_def e1_def)
  let ?e = "e2\<lparr>egActiveWAL := w1, egActiveMem := MemTable_New (evRnd E nid) nid (ogMemTableSize (stOpts e))\<rparr>"
  have rot: "rotateMemTable M E e = ?e"
    using nid w1(1) by (simp add: rotateMemTable_def Let_def w0_def [symmetric] e1_def [symmetric])
  have mid: "mtId (MemTable_New r nid n) = nid" for r n by (simp add: MemTable_New_def)
  have "durable M used ?e pc (logs @ [(nid, [])])"
    unfolding durable_def
  proof (intro conjI)
    have "stWals ?e = (stWals e)(nid \<mapsto> [])" by (simp add: w1(2) wals1)
    then show wals: "stWals ?e = map_option frames \<circ> map_of (logs @ [(nid, [])])"
      unfolding map_of_snoc [OF fresh] D(1) by (auto simp: fun_eq_iff)
    show "sorted_wrt (<) (map fst (logs @ [(nid, [])]))"
      using D(2,3) above by (auto simp: sorted_wrt_append)
    show "fst ` set (logs @ [(nid, [])]) \<subseteq> used (stManifest ?e)"
      using D(3) m'(2) by (auto simp: w1(2))
    show "\<forall>(w, ops)\<in>set (logs @ [(nid, [])]). \<forall>x\<in>set ops. loggable x" using D(4) by auto
    have "older_mems ?e pc = older_mems e pc @ [?mem]"
      using imm by (simp add: older_mems_def w1(2) e1_def)
    moreover have "mem_log ?mem = mem_log (egActiveMem e)" by (simp add: mem_log_def)
    ultimately show "replayed (logs @ [(nid, [])]) = map mem_log (logged_mems ?e pc)"
      using D(5) mid by (simp add: logged_mems_older) (simp add: mem_log_def)
    show "wal_synced ?e"
      using w1 D(6) mid by (simp add: wal_synced_def log_works_def e1_def)
    show "stWals ?e (mtId (egActiveMem ?e)) = Some (fdata (walFile (egActiveWAL ?e)))"
      using w1 mid by simp
    have "store_runs ?e = store_runs e" by (simp add: store_runs_def w1(2) e1_def)
    then show "\<forall>imm b. pc = FlushRemoving imm b \<longrightarrow> written_behind imm ?e"
      using D(8) written_behind_cong [of ?e e] by simp
    show "tables_on_disk M ?e" using D(9) m'(1) by (simp add: tables_on_disk_def w1(2) e1_def)
  qed
  then show ?thesis using nid rot by (simp add: w1(2))
qed

text \<open>What a write leaves: its entry is in the log, and the manifest has given out one id at most.\<close>

definition one_more :: "('m \<Rightarrow> uint64 set) \<Rightarrow> 'm \<Rightarrow> 'm \<Rightarrow> bool" where
  "one_more used m m' \<longleftrightarrow> (\<exists>x. used m' \<subseteq> insert x (used m))"

lemma flush_if_full_durable:
  assumes laws: "manifest_laws M used" "ids_ascend M used" and env: "log_env_ok E"
    and d: "durable M used e pc logs" and room: "used (stManifest e) \<noteq> UNIV" and ok: "engine_ok M used e"
  shows "(\<exists>logs'. durable M used (flush_if_full M E e) pc logs') \<and>
    one_more used (stManifest e) (stManifest (flush_if_full M E e))"
proof (cases "ShouldFlush (egActiveMem e) \<and> egImmMem e = None")
  case True
  then obtain nid m' where r: "mfNextID M (stManifest e) = (nid, m')" "stManifest (rotateMemTable M E e) = m'"
    "durable M used (rotateMemTable M E e) pc (logs @ [(nid, [])])"
    using rotate_durable [OF laws env d _ room ok] by blast
  have "durable M used (triggerFlush (rotateMemTable M E e)) pc (logs @ [(nid, [])])"
    by (rule durable_cong [OF r(3)]) (simp_all add: triggerFlush_def)
  then show ?thesis
    using True r manifest_NextID(2) [OF laws(1) r(1)]
    by (auto simp: flush_if_full_def Let_def one_more_def triggerFlush_def)
next
  case False
  have "durable M used (triggerFlush e) pc logs"
    by (rule durable_cong [OF d]) (simp_all add: triggerFlush_def)
  then show ?thesis using False d by (auto simp: flush_if_full_def Let_def one_more_def triggerFlush_def)
qed

section \<open>Puts and deletes\<close>

lemma one_more_refl [simp]: "one_more used m m"
  by (auto simp: one_more_def)

lemma write_durable:
  assumes laws: "manifest_laws M used" "ids_ascend M used" and env: "log_env_ok E"
    and d: "durable M used e pc logs" and room: "used (stManifest e) \<noteq> UNIV" and ok: "engine_ok M used e"
    and x: "loggable x" and w: "write_entry x e = (r, e1)"
    and e2: "stWals e2 = stWals e1" "stManifest e2 = stManifest e1" "stReaders e2 = stReaders e1"
      "stTables e2 = stTables e1" "stLevelTables e2 = stLevelTables e1" "egActiveWAL e2 = egActiveWAL e1"
      "egActiveMem e2 = egActiveMem e1" "egImmMem e2 = egImmMem e1" "stOpts e2 = stOpts e1" "engine_ok M used e2"
  shows "r = None" "(\<exists>logs'. durable M used (flush_if_full M E e2) pc logs') \<and>
    one_more used (stManifest e) (stManifest (flush_if_full M E e2))"
proof -
  have mem: "mem_ok (egActiveMem e)" using ok by (simp add: engine_ok_def mems_ok_def)
  obtain logs1 where w1: "r = None" "durable M used e1 pc logs1" "stManifest e1 = stManifest e"
    using write_entry_durable [OF d mem x w] by blast
  then show "r = None" by blast
  have d2: "durable M used e2 pc logs1" by (rule durable_cong [OF w1(2) e2(1-9)])
  show "(\<exists>logs'. durable M used (flush_if_full M E e2) pc logs') \<and>
    one_more used (stManifest e) (stManifest (flush_if_full M E e2))"
    using flush_if_full_durable [OF laws env d2 _ e2(10)] room e2(2) w1(3) by simp
qed

lemma Put_durable:
  assumes laws: "manifest_laws M used" "ids_ascend M used" and env: "log_env_ok E"
    and d: "durable M used e pc logs" and room: "used (stManifest e) \<noteq> UNIV" and ok: "engine_ok M used e"
    and x: "loggable (NewPutEntry (evNow E) key v)" and res: "Put M E key v e = (r, e')"
  shows "(\<exists>logs'. durable M used e' pc logs') \<and> one_more used (stManifest e) (stManifest e')"
proof -
  let ?x = "NewPutEntry (evNow E) key v"
  obtain wr e1 where w: "write_entry ?x e = (wr, e1)" by fastforce
  let ?e2 = "e1\<lparr>egPuts := egPuts e1 + 1, egLogicalBytes := egLogicalBytes e1 + int (length key + length (contents v)),
    egWalBytes := egWalBytes e1 + (8 + 8 + 1 + 2 + 4 + int (length key + length (contents v)))\<rparr>"
  have ok2: "engine_ok M used ?e2" using write_entry_spec(1) [OF ok w] by (simp add: frame)
  have wd: "wr = None" "(\<exists>logs'. durable M used (flush_if_full M E ?e2) pc logs') \<and>
      one_more used (stManifest e) (stManifest (flush_if_full M E ?e2))"
    by (rule write_durable [OF laws env d room ok x w _ _ _ _ _ _ _ _ _ ok2]; simp)+
  have "e' = e \<or> e' = flush_if_full M E ?e2"
    using res w wd(1) by (auto simp: Put_def Let_def split: if_splits)
  then show ?thesis using d wd(2) by auto
qed

lemma Delete_durable:
  assumes laws: "manifest_laws M used" "ids_ascend M used" and env: "log_env_ok E"
    and d: "durable M used e pc logs" and room: "used (stManifest e) \<noteq> UNIV" and ok: "engine_ok M used e"
    and x: "loggable (NewDeleteEntry (evNow E) key)" and res: "Delete M E key e = (r, e')"
  shows "(\<exists>logs'. durable M used e' pc logs') \<and> one_more used (stManifest e) (stManifest e')"
proof -
  let ?x = "NewDeleteEntry (evNow E) key"
  obtain wr e1 where w: "write_entry ?x e = (wr, e1)" by fastforce
  let ?e2 = "e1\<lparr>egDeletes := egDeletes e1 + 1, egLogicalBytes := egLogicalBytes e1 + int (length key),
    egWalBytes := egWalBytes e1 + (8 + 8 + 1 + 2 + 4 + int (length key))\<rparr>"
  have ok2: "engine_ok M used ?e2" using write_entry_spec(1) [OF ok w] by (simp add: frame)
  have wd: "wr = None" "(\<exists>logs'. durable M used (flush_if_full M E ?e2) pc logs') \<and>
      one_more used (stManifest e) (stManifest (flush_if_full M E ?e2))"
    by (rule write_durable [OF laws env d room ok x w _ _ _ _ _ _ _ _ _ ok2]; simp)+
  have "e' = e \<or> e' = flush_if_full M E ?e2"
    using res w wd(1) by (auto simp: Delete_def Let_def split: if_splits)
  then show ?thesis using d wd(2) by auto
qed

section \<open>Flushes\<close>

text \<open>A new table is on disk, the others stay there.\<close>

lemma flush_on_disk:
  fixes M :: "'m Manifest" and st :: "('m, 'z) Store_scheme"
  assumes laws: "manifest_laws M used" and st: "store_ok M used st" and mem: "mem_ok mem" "flushable (stOpts st) mem"
    and room: "used (stManifest st) \<noteq> UNIV" and disk: "tables_on_disk M st"
    and res: "flushMemTableDirect M E mem st = (r, st')"
  shows "tables_on_disk M st'"
proof (cases "EntryCount mem = 0")
  case True
  then show ?thesis using res disk by (simp add: flushMemTableDirect_def)
next
  case False
  then have ne: "mem_entries mem \<noteq> []" using EntryCount_entries [OF mem(1)] by simp
  obtain tid m1 where id: "mfNextID M (stManifest st) = (tid, m1)" by fastforce
  note m1 = manifest_NextID [OF laws id]
  let ?L = "mfGetLevelTables M (stManifest st)"
  have fresh: "tid \<notin> set (?L l)" for l using st m1(3) [OF room] by (auto simp: store_ok_def)
  obtain br st1 where b: "build_table E tid mem (st\<lparr>stManifest := m1\<rparr>) = (br, st1)" by fastforce
  note fr = build_table_frame [OF b]
  have tabs: "stTables st1 t = stTables st t" if "t \<noteq> tid" for t
    using b that by (auto simp: build_table_def set_table_def split: sum.splits option.splits prod.splits)
  have keep: "tables_on_disk M st''" if "mfGetLevelTables M (stManifest st'') = ?L" "stReaders st'' = stReaders st"
    "stTables st'' = stTables st1" for st'' :: "('m, 'z) Store_scheme"
    unfolding tables_on_disk_def that
  proof (intro allI ballI)
    fix l t assume t: "t \<in> set (?L l)"
    then have "t \<noteq> tid" using fresh by blast
    then show "\<exists>r r'. stReaders st t = Some r \<and> OpenReader t (stTables st1 t) = Inr r' \<and> reader_ok r' \<and>
        table_entries r' = table_entries r \<and> data_synced (stTables st1 t)"
      using disk t tabs by (simp add: tables_on_disk_def)
  qed
  show ?thesis
  proof (cases br)
    case (Inl err)
    then have "st' = st1" using res False id b by (simp add: flushMemTableDirect_def)
    then show ?thesis using keep fr m1(1) by simp
  next
    case (Inr meta)
    obtain files where st1: "st1 = set_table tid files (st\<lparr>stManifest := m1, stFlushBytes := stFlushBytes st + mdDataSize meta\<rparr>)"
      "files_hold files meta (mem_entries mem)"
      using build_table_spec [OF mem(1) ne _ b [unfolded Inr]] mem(2) by auto
    obtain reader where reader: "OpenReader tid files = Inr reader" using st1(2) by (auto simp: files_hold_def)
    have "storable_run (mem_entries mem)" using mem(2) by (simp add: flushable_def)
    note rok = files_hold_reader [OF st1(2) ne this reader]
    have tab: "stTables st1 tid = files" by (simp add: st1(1) set_table_def)
    have man: "stManifest st1 = m1" using fr by simp
    obtain acc m2 where ap: "mfLogAndApply M \<lparr>AddedTables = [\<lparr>tmID = tid, tmLevel = 0\<rparr>], DeletedTables = []\<rparr> m1 = (acc, m2)"
      by fastforce
    show ?thesis
    proof (cases acc)
      case False': False
      have "mfGetLevelTables M m2 = ?L"
        using manifest_refused(1) [OF laws, of _ m1 m2] ap False' m1(1) by auto
      moreover have "st' = st1\<lparr>stManifest := m2\<rparr>"
        using res False id b Inr ap tab reader man False' by (simp add: flushMemTableDirect_def)
      ultimately show ?thesis using keep fr by simp
    next
      case True
      have lv: "mfGetLevelTables M m2 = ?L(0 := ?L 0 @ [tid])"
        using manifest_apply(1) [OF laws, of _ m1 m2] ap True m1(1) by (auto simp: flush_edit_levels)
      have st': "st' = install_table M tid reader (st1\<lparr>stManifest := m2\<rparr>)"
        using res False id b Inr ap tab reader man True by (simp add: flushMemTableDirect_def)
      have parts: "stTables st' = stTables st1" "stManifest st' = m2"
        "\<exists>r. stReaders st' = (stReaders st)(tid \<mapsto> r) \<and> table_entries r = table_entries reader"
        using fr by (auto simp: st' install_table_def Let_def updateLevelTables_def triggerCompaction_def)
      then obtain r1 where r1: "stReaders st' = (stReaders st)(tid \<mapsto> r1)" "table_entries r1 = table_entries reader" by blast
      show ?thesis
        unfolding tables_on_disk_def parts(1,2) r1(1)
      proof (intro allI ballI)
        fix l t assume t: "t \<in> set (mfGetLevelTables M m2 l)"
        show "\<exists>r r'. ((stReaders st)(tid \<mapsto> r1)) t = Some r \<and> OpenReader t (stTables st1 t) = Inr r' \<and> reader_ok r' \<and>
          table_entries r' = table_entries r \<and> data_synced (stTables st1 t)"
        proof (cases "t = tid")
          case True
          then show ?thesis using reader tab rok(1) r1(2) st1(2) by (simp add: files_hold_def)
        next
          case False
          then have "t \<in> set (?L l)" using t lv by (auto split: if_splits)
          then show ?thesis using disk tabs [OF False] False by (simp add: tables_on_disk_def)
        qed
      qed
    qed
  qed
qed

end
