(* ===== verification/Format.thy ===== *)
theory Format
  imports GoLib
begin

text \<open>
  The parts of \<open>fmt\<close>, \<open>strconv\<close> and \<open>strings\<close> that file names and index keys are made with:
  decimal digits padded with zeros, their parsing, prefixes and suffixes; and that padded numbers of
  one width are ordered like the numbers.
\<close>

section \<open>Text\<close>

definition ascii :: "string \<Rightarrow> bytes" where
  "ascii s = map of_char s"

lemma ascii_simps [simp]: "ascii [] = []" "ascii (c # s) = of_char c # ascii s"
  by (simp_all add: ascii_def)

definition HasPrefix :: "bytes \<Rightarrow> bytes \<Rightarrow> bool" where
  "HasPrefix s p \<longleftrightarrow> take (length p) s = p"

definition HasSuffix :: "bytes \<Rightarrow> bytes \<Rightarrow> bool" where
  "HasSuffix s p \<longleftrightarrow> length p \<le> length s \<and> drop (length s - length p) s = p"

definition TrimPrefix :: "bytes \<Rightarrow> bytes \<Rightarrow> bytes" where
  "TrimPrefix s p = (if HasPrefix s p then drop (length p) s else s)"

definition TrimSuffix :: "bytes \<Rightarrow> bytes \<Rightarrow> bytes" where
  "TrimSuffix s p = (if HasSuffix s p then take (length s - length p) s else s)"

lemma affix_simps [simp]:
  "HasPrefix (p @ s) p" "HasSuffix (s @ p) p" "TrimPrefix (p @ s) p = s" "TrimSuffix (s @ p) p = s"
  by (simp_all add: HasPrefix_def HasSuffix_def TrimPrefix_def TrimSuffix_def)

section \<open>Decimal numbers\<close>

definition digit :: "nat \<Rightarrow> byte" where
  "digit d = word_of_nat (48 + d)"

fun dec :: "nat \<Rightarrow> bytes" where
  "dec n = (if n < 10 then [digit n] else dec (n div 10) @ [digit (n mod 10)])"

declare dec.simps [simp del]

text \<open>The verb \<open>%0wd\<close> on a natural number.\<close>

definition pad :: "nat \<Rightarrow> nat \<Rightarrow> bytes" where
  "pad w n = replicate (w - length (dec n)) 48 @ dec n"

definition is_digit :: "byte \<Rightarrow> bool" where
  "is_digit b \<longleftrightarrow> 48 \<le> b \<and> b \<le> 57"

definition dec_value :: "bytes \<Rightarrow> nat" where
  "dec_value bs = foldl (\<lambda>n b. 10 * n + (unat b - 48)) 0 bs"

text \<open>\<open>strconv.ParseUint(s, 10, 64)\<close>.\<close>

definition ParseUint :: "bytes \<Rightarrow> uint64 option" where
  "ParseUint s =
     (if s = [] \<or> \<not> list_all is_digit s then None
      else if dec_value s < 2 ^ 64 then Some (word_of_nat (dec_value s)) else None)"

lemma digit_props [simp]:
  assumes "d < 10"
  shows "is_digit (digit d)" "unat (digit d) = 48 + d"
proof -
  have "48 + d < 256" using assms by simp
  then show u: "unat (digit d) = 48 + d"
    unfolding digit_def by (subst unat_of_nat) simp
  then show "is_digit (digit d)" using assms by (simp add: is_digit_def word_le_nat_alt)
qed

lemma dec_value_simps [simp]:
  "dec_value [] = 0" "dec_value (bs @ [b]) = 10 * dec_value bs + (unat b - 48)"
  by (simp_all add: dec_value_def)

lemma dec_value_append: "dec_value (xs @ ys) = dec_value xs * 10 ^ length ys + dec_value ys"
proof (induction ys rule: rev_induct)
  case (snoc y ys)
  then show ?case by (simp add: algebra_simps flip: append_assoc)
qed simp

lemma dec_value_Cons: "dec_value (x # xs) = (unat x - 48) * 10 ^ length xs + dec_value xs"
proof -
  have "dec_value [x] = unat x - 48" by (simp add: dec_value_def)
  then show ?thesis using dec_value_append [of "[x]" xs] by simp
qed

lemma dec_digits [simp]: "list_all is_digit (dec n)" "dec n \<noteq> []" "dec_value (dec n) = n"
proof -
  have "list_all is_digit (dec n) \<and> dec n \<noteq> [] \<and> dec_value (dec n) = n"
  proof (induction n rule: dec.induct)
    case (1 n)
    show ?case
    proof (cases "n < 10")
      case True
      then show ?thesis by (subst (1 2 3) dec.simps) (simp add: dec_value_Cons)
    next
      case False
      then show ?thesis using 1 by (subst (1 2 3) dec.simps) simp
    qed
  qed
  then show "list_all is_digit (dec n)" "dec n \<noteq> []" "dec_value (dec n) = n" by blast+
qed

lemma dec_value_zeros: "dec_value (replicate k 48 @ bs) = dec_value bs"
  by (induction k) (simp_all add: dec_value_Cons)

lemma pad_digits [simp]: "list_all is_digit (pad w n)" "pad w n \<noteq> []" "dec_value (pad w n) = n"
  by (auto simp: pad_def list_all_iff is_digit_def dec_value_zeros dest: dec_digits(1) [unfolded list_all_iff, rule_format])

lemma ParseUint_pad: "n < 2 ^ 64 \<Longrightarrow> ParseUint (pad w n) = Some (word_of_nat n)"
  by (simp add: ParseUint_def)

text \<open>The length.\<close>

lemma length_dec: "n < 10 ^ w \<Longrightarrow> 0 < w \<Longrightarrow> length (dec n) \<le> w"
proof (induction n arbitrary: w rule: dec.induct)
  case (1 n)
  show ?case
  proof (cases "n < 10")
    case True
    then show ?thesis using 1 by (subst dec.simps) simp
  next
    case False
    then have "w \<noteq> 1" using 1(2) by auto
    then obtain v where v: "w = Suc v" "0 < v" using 1(3) by (cases w) auto
    then have "n div 10 < 10 ^ v" using 1(2) by (simp add: less_mult_imp_div_less mult.commute)
    then have "length (dec (n div 10)) \<le> v" using 1(1) [OF False _ v(2)] by simp
    then show ?thesis using False v by (subst dec.simps) simp
  qed
qed

lemma length_pad: "n < 10 ^ w \<Longrightarrow> 0 < w \<Longrightarrow> length (pad w n) = w"
  using length_dec [of n w] by (simp add: pad_def)

section \<open>Order\<close>

lemma dec_value_less: "list_all is_digit bs \<Longrightarrow> dec_value bs < 10 ^ length bs"
proof (induction bs)
  case (Cons b bs)
  have "unat b \<le> 57" using Cons.prems by (simp add: is_digit_def word_le_nat_alt)
  then have "unat b - 48 \<le> 9" by simp
  then have "(unat b - 48) * 10 ^ length bs \<le> 9 * 10 ^ length bs" by (rule mult_le_mono1)
  moreover have "dec_value bs < 10 ^ length bs" using Cons by simp
  moreover have "10 ^ length (b # bs) = 9 * 10 ^ length bs + (10 ^ length bs :: nat)" by simp
  ultimately show ?case unfolding dec_value_Cons by linarith
qed simp

text \<open>Numbers of one width are ordered as byte strings as they are as numbers.\<close>

lemma dec_value_mono:
  "length xs = length ys \<Longrightarrow> list_all is_digit xs \<Longrightarrow> list_all is_digit ys \<Longrightarrow>
    xs < ys \<longleftrightarrow> dec_value xs < dec_value ys"
proof (induction xs ys rule: list_induct2)
  case (Cons x xs y ys)
  have ih: "xs < ys \<longleftrightarrow> dec_value xs < dec_value ys" using Cons by simp
  have less: "dec_value xs < 10 ^ length ys" "dec_value ys < 10 ^ length ys"
    using dec_value_less [of xs] dec_value_less [of ys] Cons by simp_all
  have d: "48 \<le> unat x" "48 \<le> unat y" using Cons.prems by (simp_all add: is_digit_def word_le_nat_alt)
  consider "x = y" | "x < y" | "y < x" by fastforce
  then show ?case
  proof cases
    case 1
    then show ?thesis using ih Cons.hyps by (simp add: dec_value_Cons)
  next
    case 2
    then have "unat x - 48 + 1 \<le> unat y - 48" using d by (simp add: word_less_nat_alt)
    then have "(unat x - 48 + 1) * 10 ^ length ys \<le> (unat y - 48) * 10 ^ length ys" by (rule mult_le_mono1)
    then have "dec_value (x # xs) < dec_value (y # ys)"
      using less Cons.hyps by (simp add: dec_value_Cons)
    then show ?thesis using 2 by simp
  next
    case 3
    then have "unat y - 48 + 1 \<le> unat x - 48" using d by (simp add: word_less_nat_alt)
    then have "(unat y - 48 + 1) * 10 ^ length ys \<le> (unat x - 48) * 10 ^ length ys" by (rule mult_le_mono1)
    then have "dec_value (y # ys) < dec_value (x # xs)"
      using less Cons.hyps by (simp add: dec_value_Cons)
    moreover have "\<not> x < y" "x \<noteq> y" using 3 by auto
    ultimately show ?thesis by simp
  qed
qed simp

lemma pad_less: "m < 10 ^ w \<Longrightarrow> n < 10 ^ w \<Longrightarrow> 0 < w \<Longrightarrow> pad w m < pad w n \<longleftrightarrow> m < n"
  by (subst dec_value_mono) (simp_all add: length_pad)

lemma pad_inject: "pad w m = pad w n \<longleftrightarrow> m = n"
  using pad_digits(3) by metis

text \<open>A common prefix and equal lengths do not disturb the order.\<close>

lemma append_less_same [simp]: "(p @ xs < p @ ys) = (xs < (ys :: bytes))"
  by (induction p) simp_all

lemma append_le_same [simp]: "(p @ xs \<le> p @ ys) = (xs \<le> (ys :: bytes))"
  by (induction p) simp_all

lemma less_append_same_length:
  "length (xs :: bytes) = length ys \<Longrightarrow> xs @ us < ys @ vs \<longleftrightarrow> xs < ys \<or> xs = ys \<and> us < vs"
  by (induction xs ys rule: list_induct2) auto

lemma le_append_same_length:
  "length (xs :: bytes) = length ys \<Longrightarrow> xs @ us \<le> ys @ vs \<longleftrightarrow> xs < ys \<or> xs = ys \<and> us \<le> vs"
  by (induction xs ys rule: list_induct2) auto

end
