(* ===== verification/WalFiles.thy ===== *)
theory WalFiles
  imports Wal Format
begin

text \<open>
  \<open>ListWALFiles\<close> of \<open>pkg/wal/wal.go\<close> and the names of log files: in which order recovery meets the logs.
\<close>

section \<open>Names and listing\<close>

text \<open>\<open>fmt.Sprintf("wal_%06d.log", id)\<close>.\<close>

definition wal_name :: "uint64 \<Rightarrow> bytes" where
  "wal_name wid = ascii ''wal_'' @ pad 6 (unat wid) @ ascii ''.log''"

text \<open>The id in a file name, if it is the name of a log.\<close>

definition wal_id_of :: "bytes \<Rightarrow> uint64 option" where
  "wal_id_of name =
     (if HasPrefix name (ascii ''wal_'') \<and> HasSuffix name (ascii ''.log'')
      then ParseUint (TrimSuffix (TrimPrefix name (ascii ''wal_'')) (ascii ''.log''))
      else None)"

text \<open>What \<open>os.ReadDir\<close> gives: the entries with their names and whether they are directories.\<close>

datatype dir_listing = DirMissing | DirFailed | DirEntries "(bytes \<times> bool) list"

fun list_ids :: "(bytes \<times> bool) list \<Rightarrow> uint64 list" where
  "list_ids [] = []"
| "list_ids ((name, isDir) # ents) =
     (if isDir then list_ids ents
      else case wal_id_of name of
        None \<Rightarrow> list_ids ents
      | Some wid \<Rightarrow> wid # list_ids ents)"

definition ListWALFiles :: "dir_listing \<Rightarrow> uint64 list option" where
  "ListWALFiles dir =
     (case dir of DirMissing \<Rightarrow> Some [] | DirFailed \<Rightarrow> None | DirEntries ents \<Rightarrow> Some (list_ids ents))"

section \<open>The order of the ids\<close>

lemma wal_id_of_name [simp]: "wal_id_of (wal_name wid) = Some wid"
proof -
  have "ParseUint (pad 6 (unat wid)) = Some wid"
    using ParseUint_pad [of "unat wid" 6] unsigned_less [of wid] by simp
  moreover have "TrimPrefix (wal_name wid) (ascii ''wal_'') = pad 6 (unat wid) @ ascii ''.log''"
    unfolding wal_name_def by (rule affix_simps)
  moreover have "HasPrefix (wal_name wid) (ascii ''wal_'')" unfolding wal_name_def by (rule affix_simps)
  moreover have "HasSuffix (wal_name wid) (ascii ''.log'')"
    unfolding wal_name_def append_assoc [symmetric] by (rule affix_simps)
  ultimately show ?thesis unfolding wal_id_of_def by (simp only: affix_simps simp_thms if_True)
qed

lemma wal_name_less:
  assumes "unat v < 10 ^ 6" "unat w < 10 ^ 6"
  shows "wal_name v < wal_name w \<longleftrightarrow> v < w"
  using assms pad_less [of "unat v" 6 "unat w"]
  by (simp add: wal_name_def less_append_same_length length_pad word_less_nat_alt del: ascii_simps)

definition named_logs :: "(bytes \<times> bool) list \<Rightarrow> bool" where
  "named_logs ents \<longleftrightarrow>
     (\<forall>name wid. (name, False) \<in> set ents \<and> wal_id_of name = Some wid \<longrightarrow>
        name = wal_name wid \<and> unat wid < 10 ^ 6)"

lemma list_ids_set: "set (list_ids ents) = {wid. \<exists>name. (name, False) \<in> set ents \<and> wal_id_of name = Some wid}"
  by (induction ents rule: list_ids.induct) (auto split: option.split)

lemma list_ids_sorted:
  assumes "sorted_wrt (<) (map fst ents)" "named_logs ents"
  shows "\<exists>ids. ListWALFiles (DirEntries ents) = Some ids \<and> sorted_wrt (<) ids \<and>
    (\<forall>wid. wid \<in> set ids \<longleftrightarrow> (wal_name wid, False) \<in> set ents)"
proof -
  have "sorted_wrt (<) (list_ids ents)" using assms
  proof (induction ents rule: list_ids.induct)
    case (2 name isDir ents)
    have later: "sorted_wrt (<) (list_ids ents)" if "\<not> isDir" "wal_id_of name = Some wid" for wid
      using 2 that by (auto simp: named_logs_def)
    have other: "sorted_wrt (<) (list_ids ents)" if "isDir \<or> wal_id_of name = None"
      using 2 that by (cases isDir) (auto simp: named_logs_def)
    have "wid < v" if wid: "\<not> isDir" "wal_id_of name = Some wid" and v: "v \<in> set (list_ids ents)" for wid v
    proof -
      obtain n where n: "(n, False) \<in> set ents" "wal_id_of n = Some v" using v by (auto simp: list_ids_set)
      have "name < n" using 2(4) n(1) by force
      moreover have "name = wal_name wid \<and> unat wid < 10 ^ 6"
        using 2(5) [unfolded named_logs_def, rule_format, of name wid] wid by simp
      moreover have "n = wal_name v \<and> unat v < 10 ^ 6"
        using 2(5) [unfolded named_logs_def, rule_format, of n v] n by simp
      ultimately show ?thesis using wal_name_less [of wid v] by simp
    qed
    then show ?case using later other by (auto split: option.split)
  qed simp
  moreover have "wid \<in> set (list_ids ents) \<longleftrightarrow> (wal_name wid, False) \<in> set ents" for wid
  proof
    assume "wid \<in> set (list_ids ents)"
    then show "(wal_name wid, False) \<in> set ents"
      using assms(2) unfolding list_ids_set named_logs_def by auto
  next
    assume "(wal_name wid, False) \<in> set ents"
    then show "wid \<in> set (list_ids ents)" unfolding list_ids_set by (auto intro: wal_id_of_name)
  qed
  ultimately show ?thesis by (simp add: ListWALFiles_def)
qed

text \<open>
  The order of recovery. In a directory listed in the order of the file names, whose logs have
  the names the engine gives them and ids below a million, the listing has exactly the ids of the
  logs, in ascending order.
\<close>

lemma wal_listing_ascending:
  assumes "sorted_wrt (<) (map fst ents)" "named_logs ents"
  shows "\<exists>ids. ListWALFiles (DirEntries ents) = Some ids \<and> sorted_wrt (<) ids \<and>
    (\<forall>wid. wid \<in> set ids \<longleftrightarrow> (wal_name wid, False) \<in> set ents)"
  by (rule list_ids_sorted [OF assms])

text \<open>A directory with two logs and another file; from a million on the order of the names is not that of the ids.\<close>

lemma wal_listing_ascending_witness:
  "ListWALFiles (DirEntries [(ascii ''MANIFEST'', False), (wal_name 9, False), (wal_name 10, False)]) = Some [9, 10] \<and>
   wal_name 1000000 < wal_name 999999 \<and>
   ListWALFiles (DirEntries [(wal_name 1000000, False), (wal_name 999999, False)]) = Some [1000000, 999999]"
proof -
  let ?ents = "[(ascii ''MANIFEST'', False), (wal_name 9, False), (wal_name 10, False)]"
  have no: "wal_id_of (ascii ''MANIFEST'') = None" by (simp add: wal_id_of_def HasPrefix_def)
  have "ascii ''MANIFEST'' < wal_name 9" "ascii ''MANIFEST'' < wal_name 10" "wal_name 9 < wal_name 10"
    using wal_name_less [of 9 10] by (simp_all add: wal_name_def)
  then have sorted: "sorted_wrt (<) (map fst ?ents)" by (simp del: ascii_simps)
  have named: "named_logs ?ents"
    unfolding named_logs_def
  proof (intro allI impI)
    fix name wid assume a: "(name, False) \<in> set ?ents \<and> wal_id_of name = Some wid"
    then consider "name = ascii ''MANIFEST''" | "name = wal_name 9" | "name = wal_name 10"
      by (auto simp del: ascii_simps)
    then show "name = wal_name wid \<and> unat wid < 10 ^ 6"
      using a no by cases (auto simp del: ascii_simps)
  qed
  from wal_listing_ascending [OF sorted named] obtain ids where ids: "ListWALFiles (DirEntries ?ents) = Some ids"
    "sorted_wrt (<) ids" by blast
  then have "ids = [9, 10]" using no by (simp add: ListWALFiles_def del: ascii_simps)
  moreover have "wal_name 1000000 < wal_name 999999"
    by (simp add: wal_name_def pad_def dec.simps digit_def)
  ultimately show ?thesis using ids by (simp add: ListWALFiles_def)
qed

end
