(* ===== verification/EngineCrash.thy ===== *)
theory EngineCrash
  imports EngineDurable WalFiles
begin

text \<open>
  Crashes: every step of the running engine keeps on disk what recovery needs, and opening what a
  crash leaves at any moment brings back the acknowledged writes.
\<close>

section \<open>Every step keeps the writes on disk\<close>

lemma durable_pc:
  assumes "durable M used e pc logs" "\<forall>imm b. pc \<noteq> FlushRemoving imm b" "\<forall>imm b. pc' \<noteq> FlushRemoving imm b"
  shows "durable M used e pc' logs"
proof -
  have "logged_mems e pc' = logged_mems e pc"
    using assms(2,3) by (auto simp: logged_mems_def split: flush_pc.splits)
  then show ?thesis using durableD [OF assms(1)] assms(3) unfolding durable_def by (intro conjI) simp_all
qed

lemma Get_durable:
  assumes "durable M used e pc logs" "Get key e = (r, e')"
  shows "durable M used e' pc logs \<and> stManifest e' = stManifest e"
proof -
  have "stWals e' = stWals e \<and> stManifest e' = stManifest e \<and> stReaders e' = stReaders e \<and> stTables e' = stTables e \<and>
    stLevelTables e' = stLevelTables e \<and> egActiveWAL e' = egActiveWAL e \<and> egActiveMem e' = egActiveMem e \<and>
    egImmMem e' = egImmMem e \<and> stOpts e' = stOpts e"
    using assms(2)
    by (auto simp: Get_def get_tables_def Let_def split: if_splits option.splits prod.splits sum.splits)
  then show ?thesis using durable_cong [OF assms(1), of e'] by simp
qed

lemma bypass_durable:
  assumes "durable M used e pc logs"
  shows "durable M used (Engine_SetBypassBloom b e) pc logs"
proof -
  let ?e = "Engine_SetBypassBloom b e"
  note D = durableD [OF assms]
  have fr: "stWals ?e = stWals e" "stManifest ?e = stManifest e" "stTables ?e = stTables e" "egActiveWAL ?e = egActiveWAL e"
    "egActiveMem ?e = egActiveMem e" "stOpts ?e = stOpts e"
    "stReaders ?e t = map_option (SetBypassBloom b) (stReaders e t)" for t
    by (simp_all add: Engine_SetBypassBloom_def)
  have "tables_on_disk M ?e"
    unfolding tables_on_disk_def
  proof (intro allI ballI)
    fix l t assume "t \<in> set (mfGetLevelTables M (stManifest ?e) l)"
    then obtain r r' where "stReaders e t = Some r" "OpenReader t (stTables e t) = Inr r'" "reader_ok r'"
      "table_entries r' = table_entries r" "data_synced (stTables e t)"
      using D(9) unfolding tables_on_disk_def fr(2) by blast
    then show "\<exists>r r'. stReaders ?e t = Some r \<and> OpenReader t (stTables ?e t) = Inr r' \<and> reader_ok r' \<and>
      table_entries r' = table_entries r \<and> data_synced (stTables ?e t)" by (simp add: fr)
  qed
  moreover have "logged_mems ?e pc = logged_mems e pc" by (simp add: logged_mems_def fr bypass_frame)
  moreover have "wal_synced ?e" using D(6) by (simp add: wal_synced_def log_works_def fr)
  moreover have "written_behind imm ?e = written_behind imm e" for imm
    by (rule written_behind_cong) (rule bypass_frame)
  ultimately show ?thesis using D unfolding durable_def by (intro conjI) (simp_all add: fr(1-6))
qed

lemma flush_write_durable:
  fixes M :: "'m Manifest" and e :: "'m Engine"
  assumes laws: "manifest_laws M used" and d: "durable M used e pc logs" and ok: "engine_ok M used e"
    and imm: "egImmMem e = Some imm" and fits: "flushable (stOpts e) imm" and room: "used (stManifest e) \<noteq> UNIV"
    and res: "flushMemTableDirect M E imm e = (r, e')"
    and pc: "\<forall>imm b. pc \<noteq> FlushRemoving imm b"
  shows "durable M used e' pc logs" "one_more used (stManifest e) (stManifest e')"
proof -
  note D = durableD [OF d]
  have st: "store_ok M used e" "mem_ok imm" using ok imm by (simp_all add: engine_ok_def mems_ok_def)
  note fl = flushMemTableDirect_spec [OF laws st fits room res]
  note mo = Store_more_engine [OF fl(5)]
  show "one_more used (stManifest e) (stManifest e')" using flush_used(1) [OF laws res] by (auto simp: one_more_def)
  have "tables_on_disk M e'" by (rule flush_on_disk [OF laws st fits room D(9) res])
  moreover have "logged_mems e' pc = logged_mems e pc" by (simp add: logged_mems_def mo)
  moreover have "wal_synced e'" using D(6) mo fl(3) by (simp add: wal_synced_def log_works_def)
  moreover have "fst ` set logs \<subseteq> used (stManifest e')" using D(3) flush_used(2) [OF laws res] by blast
  ultimately show "durable M used e' pc logs"
    using D pc unfolding durable_def by (intro conjI) (simp_all add: fl(4) mo)
qed

lemma commit_durable:
  assumes laws: "manifest_laws M used" "ids_ascend M used" and env: "log_env_ok E"
    and d: "durable M used e (FlushWritten imm) logs" and ok: "engine_ok M used e"
    and imm: "egImmMem e = Some imm" "written_behind imm e" and room: "used (stManifest e) \<noteq> UNIV"
    and res: "flush_commit M E e = (hasMore, e')"
  shows "(\<exists>logs'. durable M used e' (FlushRemoving imm hasMore) logs') \<and> one_more used (stManifest e) (stManifest e')"
proof -
  let ?e1 = "e\<lparr>egImmMem := None\<rparr>" and ?pc = "FlushRemoving imm hasMore"
  note D = durableD [OF d]
  have "store_runs ?e1 = store_runs e" by (simp add: store_runs_def)
  then have "written_behind imm ?e1" using imm(2) written_behind_cong [of ?e1 e] by simp
  moreover have "logged_mems ?e1 ?pc = logged_mems e (FlushWritten imm)" by (simp add: logged_mems_def imm(1))
  moreover have "tables_on_disk M ?e1" using D(9) by (simp add: tables_on_disk_def)
  moreover have "wal_synced ?e1" using D(6) by (simp add: wal_synced_def log_works_def)
  ultimately have d1: "durable M used ?e1 ?pc logs"
    using D unfolding durable_def by (intro conjI) simp_all
  have ok1: "engine_ok M used ?e1" using ok by (simp add: engine_ok_def store_ok_def mems_ok_def)
  show ?thesis
  proof (cases "ShouldFlush (egActiveMem e)")
    case True
    then have e': "e' = rotateMemTable M E ?e1" using res by (simp add: flush_commit_def Let_def)
    have none: "egImmMem ?e1 = None" and room1: "used (stManifest ?e1) \<noteq> UNIV" using room by simp_all
    obtain nid m' where "mfNextID M (stManifest e) = (nid, m')" "stManifest e' = m'" "durable M used e' ?pc (logs @ [(nid, [])])"
      using rotate_durable [OF laws env d1 none room1 ok1] by (auto simp: e')
    then show ?thesis using manifest_NextID(2) [OF laws(1)] by (auto simp: one_more_def)
  next
    case False
    then show ?thesis using res d1 by (auto simp: flush_commit_def Let_def)
  qed
qed

lemma remove_durable:
  assumes env: "log_env_ok E" and d: "durable M used e (FlushRemoving imm hasMore) logs"
  shows "(\<exists>logs'. durable M used (flush_done E imm hasMore e) FlushIdle logs') \<and>
    stManifest (flush_done E imm hasMore e) = stManifest e"
proof -
  let ?e = "flush_done E imm hasMore e"
  note D = durableD [OF d]
  have old: "logged_mems e (FlushRemoving imm hasMore) = imm # logged_mems e FlushIdle" by (simp add: logged_mems_def)
  then obtain log rest where logs: "logs = log # rest" using D(5) by (cases logs) auto
  then have l: "fst log = mtId imm" "replayed rest = map mem_log (logged_mems e FlushIdle)"
    using D(5) old by (auto simp: mem_log_def map_prod_def split: prod.splits)
  have notin: "mtId imm \<notin> fst ` set rest" using D(2) l(1) by (auto simp: logs)
  have wals: "stWals ?e = (stWals e)(mtId imm := None)"
    using env by (simp add: flush_done_def remove_wal_def log_env_ok_def triggerFlush_def Let_def)
  have fr: "stReaders ?e = stReaders e" "stManifest ?e = stManifest e" "stTables ?e = stTables e"
    "egActiveWAL ?e = egActiveWAL e" "egActiveMem ?e = egActiveMem e" "stOpts ?e = stOpts e" "egImmMem ?e = egImmMem e"
    by (auto simp: flush_done_def Let_def triggerFlush_def remove_wal_def)
  have "(stWals e)(mtId imm := None) = map_option frames \<circ> map_of rest"
  proof
    fix v show "((stWals e)(mtId imm := None)) v = (map_option frames \<circ> map_of rest) v"
      using D(1) notin l(1) by (cases log) (auto simp: logs map_of_eq_None_iff)
  qed
  moreover have "mtId (egActiveMem e) \<noteq> mtId imm"
  proof -
    have "mtId (egActiveMem e) \<in> fst ` set (replayed rest)"
      unfolding l(2) logged_mems_older by (simp add: mem_log_def)
    then have "mtId (egActiveMem e) \<in> fst ` set rest" by (force simp: image_iff)
    then show ?thesis using notin by metis
  qed
  moreover have "tables_on_disk M ?e" using D(9) by (simp add: tables_on_disk_def fr)
  moreover have "wal_synced ?e" using D(6) by (simp add: wal_synced_def log_works_def fr)
  moreover have "logged_mems ?e FlushIdle = logged_mems e FlushIdle" by (simp add: logged_mems_def fr)
  ultimately have e: "stWals ?e = map_option frames \<circ> map_of rest" "mtId (egActiveMem e) \<noteq> mtId imm"
    "tables_on_disk M ?e" "wal_synced ?e" "logged_mems ?e FlushIdle = logged_mems e FlushIdle"
    by (simp_all only: wals simp_thms)
  have "stWals ?e (mtId (egActiveMem e)) = stWals e (mtId (egActiveMem e))" using e(2) by (simp add: wals)
  then have active: "stWals ?e (mtId (egActiveMem ?e)) = Some (fdata (walFile (egActiveWAL ?e)))"
    using D(7) by (simp only: fr)
  have "durable M used ?e FlushIdle rest"
    unfolding durable_def using e active l(2) D(2-4) by (intro conjI) (simp_all only: fr, simp_all add: logs)
  then show ?thesis using fr by blast
qed

definition event_loggable :: "engine_event \<Rightarrow> bool" where
  "event_loggable ev =
     (case ev of EvPut key v _ \<Rightarrow> \<forall>t. loggable (NewPutEntry t key v)
      | EvDelete key _ \<Rightarrow> \<forall>t. loggable (NewDeleteEntry t key) | _ \<Rightarrow> True)"

lemma engine_step_durable:
  assumes laws: "manifest_laws M used" "ids_ascend M used" and env: "\<forall>E\<in>envs. log_env_ok E"
  shows "engine_step M used envs s ev s' \<Longrightarrow> machine_ok M used s \<Longrightarrow> durable M used (fst s) (snd s) logs \<Longrightarrow>
    used (stManifest (fst s)) \<noteq> UNIV \<Longrightarrow> event_loggable ev \<Longrightarrow>
    (\<exists>logs'. durable M used (fst s') (snd s') logs') \<and> one_more used (stManifest (fst s)) (stManifest (fst s'))"
proof (induction rule: engine_step.induct)
  case (put E key v e r e' pc)
  then have "engine_ok M used e" "log_env_ok E" "loggable (NewPutEntry (evNow E) key v)"
    using env by (simp_all add: machine_ok_def event_loggable_def)
  then show ?case using Put_durable [OF laws _ _ _ _ _ put(1)] put by simp
next
  case (delete E key e r e' pc)
  then have "engine_ok M used e" "log_env_ok E" "loggable (NewDeleteEntry (evNow E) key)"
    using env by (simp_all add: machine_ok_def event_loggable_def)
  then show ?case using Delete_durable [OF laws _ _ _ _ _ delete(1)] delete by simp
next
  case (get key e r e' pc)
  then show ?case using Get_durable [OF _ get(1)] by fastforce
next
  case (bypass e pc b)
  have "stManifest (Engine_SetBypassBloom b e) = stManifest e" by (simp add: Engine_SetBypassBloom_def)
  then show ?case using bypass_durable bypass by fastforce
next
  case (begin_flush e imm)
  then show ?case using durable_pc [of M used e FlushIdle logs "FlushWriting imm"] by auto
next
  case (write_table e imm E e')
  then have a: "engine_ok M used e" "egImmMem e = Some imm" "durable M used e (FlushWriting imm) logs"
    by (simp_all add: machine_ok_def)
  note w = flush_write_durable [OF laws(1) a(3,1,2) write_table(1-3)]
  then have "durable M used e' (FlushWritten imm) logs" by (auto intro: durable_pc)
  then show ?case using w by auto
next
  case (write_failed e imm E err e')
  then have a: "engine_ok M used e" "egImmMem e = Some imm" "durable M used e (FlushWriting imm) logs"
    by (simp_all add: machine_ok_def)
  note w = flush_write_durable [OF laws(1) a(3,1,2) write_failed(1-3)]
  then have "durable M used e' FlushIdle logs" by (auto intro: durable_pc)
  then show ?case using w by auto
next
  case (commit E e hasMore e' imm)
  then have "engine_ok M used e" "egImmMem e = Some imm" "written_behind imm e" "log_env_ok E"
    using env by (simp_all add: machine_ok_def)
  then show ?case using commit_durable [OF laws _ _ _ _ _ _ commit(1)] commit by simp
next
  case (remove E e imm hasMore)
  then show ?case using remove_durable [of E M used e imm hasMore logs] env by simp
qed

text \<open>The ids do not run out before there are \<open>2 ^ 64\<close> events.\<close>

lemma one_more_card:
  fixes used :: "'m \<Rightarrow> uint64 set"
  assumes "one_more used m m'"
  shows "card (used m') \<le> Suc (card (used m))"
proof -
  obtain x where "used m' \<subseteq> insert x (used m)" using assms by (auto simp: one_more_def)
  then have "card (used m') \<le> card (insert x (used m))" by (intro card_mono) auto
  then show ?thesis using card_insert_le_m1 [of "Suc (card (used m))" "used m" x] by (simp add: card_insert_if split: if_splits)
qed

lemma rotate_manifest: "stManifest (rotateMemTable M E e) = snd (mfNextID M (stManifest e))"
  by (auto simp: rotateMemTable_def Let_def dest!: open_wal_frame(3) split: prod.splits sum.splits)

lemma card_room: "card (used :: uint64 set) < 2 ^ 64 \<Longrightarrow> used \<noteq> UNIV"
  by (auto simp: card_word)

lemma engine_run_durable:
  assumes laws: "manifest_laws M used" "ids_ascend M used" and env: "\<forall>E\<in>envs. log_env_ok E"
    and s: "machine_ok M used s" "durable M used (fst s) (snd s) logs"
  shows "engine_run M used envs s evs s' \<Longrightarrow> \<forall>ev\<in>set evs. event_loggable ev \<Longrightarrow>
    card (used (stManifest (fst s))) + length evs < 2 ^ 64 \<Longrightarrow>
    (\<exists>logs'. durable M used (fst s') (snd s') logs') \<and>
    card (used (stManifest (fst s'))) \<le> card (used (stManifest (fst s))) + length evs"
proof (induction rule: engine_run.induct)
  case run_start
  then show ?case using s(2) by auto
next
  case (run_step evs s' ev s'')
  then obtain logs' where l: "durable M used (fst s') (snd s') logs'"
    "card (used (stManifest (fst s'))) \<le> card (used (stManifest (fst s))) + length evs" by auto
  have ok: "machine_ok M used s'" using engine_run_ok [OF laws(1) s(1) run_step(1)] by blast
  have room: "used (stManifest (fst s')) \<noteq> UNIV" using l(2) run_step(5) by (intro card_room) simp
  have "event_loggable ev" using run_step(4) by simp
  from engine_step_durable [OF laws env run_step(2) ok l(1) room this]
  show ?case using one_more_card l(2) by fastforce
qed

end
