(* ===== verification/EngineLive.thy ===== *)
theory EngineLive
  imports EngineCrash
begin

text \<open>
  Progress of the storage engine: the worker that drains immutable memtables (\<open>flushWorker\<close> in
  \<open>pkg/lsm/engine.go\<close>) and the loop in which a write waits for it. A full memtable behind an immutable one
  makes writes wait; as long as the flushes work the wait ends, and after failed flushes it never does.
\<close>

section \<open>The worker and the waiting write\<close>

text \<open>
  One part of the work of \<open>flushWorker\<close>; \<open>None\<close> when it waits for a signal. The error of a flush is dropped.
\<close>

definition flushWorker ::
  "'m Manifest \<Rightarrow> engine_env \<Rightarrow> 'm Engine \<times> flush_pc \<Rightarrow> ('m Engine \<times> flush_pc) option" where
  "flushWorker M E s =
     (case s of
        (e, FlushIdle) \<Rightarrow>
          (if egFlushSignal e
           then Some (e\<lparr>egFlushSignal := False\<rparr>,
                      case egImmMem e of None \<Rightarrow> FlushIdle | Some imm \<Rightarrow> FlushWriting imm)
           else None)
      | (e, FlushWriting imm) \<Rightarrow>
          (case flushMemTableDirect M E imm e of
             (Some _, e1) \<Rightarrow> Some (e1, FlushIdle)
           | (None, e1) \<Rightarrow> Some (e1, FlushWritten imm))
      | (e, FlushWritten imm) \<Rightarrow>
          (case flush_commit M E e of (hasMore, e1) \<Rightarrow> Some (e1, FlushRemoving imm hasMore))
      | (e, FlushRemoving imm hasMore) \<Rightarrow> Some (flush_done E imm hasMore e, FlushIdle))"

definition worker_turn ::
  "'m Manifest \<Rightarrow> engine_env \<Rightarrow> 'm Engine \<times> flush_pc \<Rightarrow> 'm Engine \<times> flush_pc" where
  "worker_turn M E s = (case flushWorker M E s of None \<Rightarrow> s | Some s' \<Rightarrow> s')"

text \<open>
  \<open>Put\<close> and \<open>Delete\<close> with their waiting loops. A schedule is a list of looks; a look that finds the memtables
  full releases the lock and sleeps, and the worker takes any number of turns, each with an environment of its
  own, before the next look. The looks come at the pace of the sleep and the turns at that of the disk, so a look
  may be followed by no turn or by several. \<open>None\<close> is a write that still waits when the schedule ends.
\<close>

type_synonym looks = "(engine_env \<times> engine_env list) list"

definition worker_run ::
  "'m Manifest \<Rightarrow> engine_env list \<Rightarrow> 'm Engine \<times> flush_pc \<Rightarrow> 'm Engine \<times> flush_pc" where
  "worker_run M Ws s = foldl (\<lambda>s W. worker_turn M W s) s Ws"

fun write_waiting ::
  "'m Manifest \<Rightarrow> (engine_env \<Rightarrow> 'm Engine \<Rightarrow> engine_error option \<times> 'm Engine) \<Rightarrow> looks \<Rightarrow> 'm Engine \<times> flush_pc
     \<Rightarrow> (engine_error option \<times> 'm Engine \<times> flush_pc) option" where
  "write_waiting M look [] s = None"
| "write_waiting M look ((E, Ws) # looks) s =
     (case look E (fst s) of
        (Some Stalled, _) \<Rightarrow> write_waiting M look looks (worker_run M Ws s)
      | (r, e') \<Rightarrow> Some (r, e', snd s))"

definition Put_waiting ::
  "'m Manifest \<Rightarrow> looks \<Rightarrow> bytes \<Rightarrow> slice \<Rightarrow> 'm Engine \<times> flush_pc
     \<Rightarrow> (engine_error option \<times> 'm Engine \<times> flush_pc) option" where
  "Put_waiting M looks key v s = write_waiting M (\<lambda>E. Put M E key v) looks s"

definition Delete_waiting ::
  "'m Manifest \<Rightarrow> looks \<Rightarrow> bytes \<Rightarrow> 'm Engine \<times> flush_pc
     \<Rightarrow> (engine_error option \<times> 'm Engine \<times> flush_pc) option" where
  "Delete_waiting M looks key s = write_waiting M (\<lambda>E. Delete M E key) looks s"

section \<open>When a write waits\<close>

definition stalled :: "'m Engine \<Rightarrow> bool" where
  "stalled e \<longleftrightarrow> ShouldFlush (egActiveMem e) \<and> egImmMem e \<noteq> None"

text \<open>The worker is on its way, or has been called, whenever there is something to flush.\<close>

definition flush_pending :: "'m Engine \<times> flush_pc \<Rightarrow> bool" where
  "flush_pending s \<longleftrightarrow>
     (case s of (e, pc) \<Rightarrow>
        egImmMem e = None \<or> egFlushSignal e \<or>
        (case pc of FlushIdle \<Rightarrow> False | FlushRemoving _ hasMore \<Rightarrow> hasMore | _ \<Rightarrow> True))"

lemma Put_stalled: "key \<noteq> [] \<Longrightarrow> \<not> egClosed e \<Longrightarrow> stalled e \<Longrightarrow> Put M E key v e = (Some Stalled, e)"
  by (simp add: Put_def stalled_def)

lemma Delete_stalled: "key \<noteq> [] \<Longrightarrow> \<not> egClosed e \<Longrightarrow> stalled e \<Longrightarrow> Delete M E key e = (Some Stalled, e)"
  by (simp add: Delete_def stalled_def)

lemma Put_not_stalled: "\<not> stalled e \<Longrightarrow> fst (Put M E key v e) \<noteq> Some Stalled"
  by (auto simp: Put_def stalled_def write_entry_def Let_def split: prod.split option.split)

lemma Delete_not_stalled: "\<not> stalled e \<Longrightarrow> fst (Delete M E key e) \<noteq> Some Stalled"
  by (auto simp: Delete_def stalled_def write_entry_def Let_def split: prod.split option.split)

lemma write_waiting_done:
  assumes "fst (look E (fst s)) \<noteq> Some Stalled"
  shows "write_waiting M look ((E, Ws) # looks) s = Some (fst (look E (fst s)), snd (look E (fst s)), snd s)"
  using assms by (auto split: prod.split option.split engine_error.split)

section \<open>Called whenever there is something to flush\<close>

lemma write_entry_pending:
  "write_entry entry e = (r, e') \<Longrightarrow> flush_pending (e', pc) = flush_pending (e, pc)"
  by (auto simp: write_entry_def set_wal_def flush_pending_def split: prod.splits option.splits)

lemma flush_if_full_pending: "flush_pending (e, pc) \<Longrightarrow> flush_pending (flush_if_full M E e, pc)"
  by (simp add: flush_pending_def flush_if_full_def Let_def triggerFlush_def)

lemma stats_pending [simp]:
  "flush_pending (e\<lparr>egPuts := a, egLogicalBytes := b, egWalBytes := c\<rparr>, pc) = flush_pending (e, pc)"
  "flush_pending (e\<lparr>egDeletes := a, egLogicalBytes := b, egWalBytes := c\<rparr>, pc) = flush_pending (e, pc)"
  by (simp_all add: flush_pending_def)

lemma Put_pending:
  assumes "flush_pending (e, pc)" "Put M E key v e = (r, e')"
  shows "flush_pending (e', pc)"
proof -
  obtain wr e1 where w: "write_entry (NewPutEntry (evNow E) key v) e = (wr, e1)" by fastforce
  then show ?thesis using assms write_entry_pending [OF w, of pc]
    by (auto simp: Put_def Let_def flush_if_full_pending split: if_splits option.splits)
qed

lemma Delete_pending:
  assumes "flush_pending (e, pc)" "Delete M E key e = (r, e')"
  shows "flush_pending (e', pc)"
proof -
  obtain wr e1 where w: "write_entry (NewDeleteEntry (evNow E) key) e = (wr, e1)" by fastforce
  then show ?thesis using assms write_entry_pending [OF w, of pc]
    by (auto simp: Delete_def Let_def flush_if_full_pending split: if_splits option.splits)
qed

lemma Get_pending: "flush_pending (e, pc) \<Longrightarrow> Get key e = (r, e') \<Longrightarrow> flush_pending (e', pc)"
  by (auto simp: Get_def get_tables_def Let_def flush_pending_def split: if_splits option.splits prod.splits sum.splits)

section \<open>Working flushes end the wait\<close>

text \<open>
  What the worker needs for \<open>k\<close> turns: it is called, the memtables that it may have to write fit the table
  format, and there are ids for the tables and logs.
\<close>

definition worker_ready ::
  "'m Manifest \<Rightarrow> ('m \<Rightarrow> uint64 set) \<Rightarrow> nat \<Rightarrow> 'm Engine \<times> flush_pc \<Rightarrow> bool" where
  "worker_ready M used k s \<longleftrightarrow>
     machine_ok M used s \<and> flush_pending s \<and> card (used (stManifest (fst s))) + k < 2 ^ 64 \<and>
     (\<forall>imm. egImmMem (fst s) = Some imm \<longrightarrow> flushable (stOpts (fst s)) imm) \<and>
     (ShouldFlush (egActiveMem (fst s)) \<longrightarrow> flushable (stOpts (fst s)) (egActiveMem (fst s)))"

text \<open>The system calls of the worker succeed.\<close>

definition env_works :: "engine_env \<Rightarrow> bool" where
  "env_works E \<longleftrightarrow> (\<forall>w. evWalOpen E w) \<and> (\<forall>tid x. evTableIO E tid x)"

lemma ShouldFlush_new [simp]: "\<not> ShouldFlush (MemTable_New rnd mid n)"
  by (simp add: ShouldFlush_def MemTable_New_def SkipList_ByteSize_def NewSkipList_def)

text \<open>The turns left until the write goes on.\<close>

fun turns_left :: "flush_pc \<Rightarrow> nat" where
  "turns_left (FlushWritten imm) = 1"
| "turns_left (FlushWriting imm) = 2"
| "turns_left FlushIdle = 3"
| "turns_left (FlushRemoving imm hasMore) = 4"

lemma ids_left:
  assumes "card (used m :: uint64 set) + Suc k < 2 ^ 64" "one_more used m m'"
  shows "used m \<noteq> UNIV" "card (used m') + k < 2 ^ 64"
  using assms(1) card_room [of "used m"] one_more_card [OF assms(2)] by auto

lemma one_more_NextID: "manifest_laws M used \<Longrightarrow> one_more used m (snd (mfNextID M m))"
  using manifest_NextID(2) [of M used m] by (cases "mfNextID M m") (auto simp: one_more_def)

lemma worker_turn_spec:
  assumes laws: "manifest_laws M used" and ap: "\<forall>edit m. fst (mfLogAndApply M edit m)" and E: "env_works E"
    and ready: "worker_ready M used (Suc k) s" and s': "s' = worker_turn M E s"
  shows "engine_view (fst s') = engine_view (fst s) \<and> worker_ready M used k s' \<and>
    (stalled (fst s') \<longrightarrow> stalled (fst s) \<and> turns_left (snd s') < turns_left (snd s))"
proof -
  obtain e pc where s: "s = (e, pc)" by fastforce
  have ok: "engine_ok M used e" "\<not> egClosed e" using ready by (simp_all add: s worker_ready_def machine_ok_def)
  have room: "card (used (stManifest e)) + Suc k < 2 ^ 64" using ready by (simp add: s worker_ready_def)
  note left = ids_left [where used = used and m = "stManifest e" and k = k, OF room]
  show ?thesis
  proof (cases pc)
    case FlushIdle
    show ?thesis
    proof (cases "egFlushSignal e")
      case True
      let ?e = "e\<lparr>egFlushSignal := False\<rparr>"
      have fr: "engine_ok M used ?e = engine_ok M used e" "engine_runs ?e = engine_runs e"
        by (simp_all add: engine_ok_def store_ok_def mems_ok_def engine_runs_def mem_runs_def store_runs_def)
      show ?thesis using ready True ok fr
        by (cases "egImmMem e") (simp_all add: s s' FlushIdle worker_turn_def flushWorker_def worker_ready_def
            machine_ok_def flush_pending_def stalled_def)
    next
      case False
      then have "egImmMem e = None" using ready by (simp add: s FlushIdle worker_ready_def flush_pending_def)
      then show ?thesis using ready False
        by (simp add: s s' FlushIdle worker_turn_def flushWorker_def worker_ready_def stalled_def)
    qed
  next
    case (FlushWriting imm)
    have imm: "egImmMem e = Some imm" using ready by (simp add: s FlushWriting worker_ready_def machine_ok_def)
    then have fits: "flushable (stOpts e) imm" "mem_ok imm"
      using ready ok(1) by (simp_all add: s FlushWriting worker_ready_def engine_ok_def mems_ok_def)
    obtain e1 where w: "flushMemTableDirect M E imm e = (None, e1)"
      using flushMemTableDirect_works [OF fits(2,1) _ ap] E by (metis env_works_def prod.collapse)
    have more: "one_more used (stManifest e) (stManifest e1)" using flush_used(1) [OF laws w] by (auto simp: one_more_def)
    note sp = flush_write_spec [OF laws ok(1) imm fits(1) left(1) [OF more] w]
    show ?thesis using sp imm fits ok(2) w left(2) [OF more] ready
      by (simp add: s s' FlushWriting worker_turn_def flushWorker_def worker_ready_def machine_ok_def flush_pending_def
          stalled_def)
  next
    case (FlushWritten imm)
    have imm: "egImmMem e = Some imm" "written_behind imm e"
      using ready by (simp_all add: s FlushWritten worker_ready_def machine_ok_def)
    obtain more e1 where c: "flush_commit M E e = (more, e1)" by fastforce
    note sp = flush_commit_spec [OF laws ok(1) imm c]
    have ids: "one_more used (stManifest e) (stManifest e1)"
      using c one_more_NextID [OF laws, of "stManifest e"]
      by (auto simp: flush_commit_def Let_def rotate_manifest split: if_splits)
    have new: "\<not> ShouldFlush (egActiveMem e1)"
    proof (cases "ShouldFlush (egActiveMem e)")
      case True
      then have "e1 = rotateMemTable M E (e\<lparr>egImmMem := None\<rparr>)" using c by (simp add: flush_commit_def Let_def)
      then show ?thesis using rotate_new [of E M "e\<lparr>egImmMem := None\<rparr>"] E by (auto simp: env_works_def)
    qed (use c in \<open>auto simp: flush_commit_def Let_def\<close>)
    show ?thesis using sp c ok(2) new ready left(2) [OF ids]
      by (simp add: s s' FlushWritten worker_turn_def flushWorker_def machine_ok_def worker_ready_def flush_pending_def
          stalled_def)
  next
    case (FlushRemoving imm more)
    have fr: "stManifest (flush_done E imm more e) = stManifest e"
      "egFlushSignal (flush_done E imm more e) = (more \<or> egFlushSignal e)"
      by (simp_all add: flush_done_def remove_wal_def triggerFlush_def Let_def)
    have "s' = (flush_done E imm more e, FlushIdle)"
      by (simp add: s s' FlushRemoving worker_turn_def flushWorker_def)
    then show ?thesis using ready ok fr
      by (cases more; cases "egImmMem e")
        (simp_all add: s FlushRemoving worker_ready_def machine_ok_def flush_pending_def flush_done_frame stalled_def)
  qed
qed

lemma worker_run_spec:
  assumes laws: "manifest_laws M used" and ap: "\<forall>edit m. fst (mfLogAndApply M edit m)"
  shows "\<forall>W\<in>set Ws. env_works W \<Longrightarrow> worker_ready M used (length Ws + k) s \<Longrightarrow>
    engine_view (fst (worker_run M Ws s)) = engine_view (fst s) \<and> worker_ready M used k (worker_run M Ws s) \<and>
    (stalled (fst (worker_run M Ws s)) \<longrightarrow> stalled (fst s) \<and>
       turns_left (snd (worker_run M Ws s)) + length Ws \<le> turns_left (snd s))"
proof (induction Ws arbitrary: s)
  case (Cons W Ws)
  have "worker_ready M used (Suc (length Ws + k)) s" using Cons.prems(2) by simp
  note turn = worker_turn_spec [OF laws ap _ this refl, of W]
  have "worker_run M (W # Ws) s = worker_run M Ws (worker_turn M W s)" by (simp add: worker_run_def)
  then show ?case using turn Cons by fastforce
qed (simp add: worker_run_def)

text \<open>Any write that stalls as \<open>Put\<close> and \<open>Delete\<close> do, with the effect \<open>upd\<close> on the view.\<close>

lemma write_waiting_returns:
  assumes laws: "manifest_laws M used" and ap: "\<forall>edit m. fst (mfLogAndApply M edit m)"
    and waits: "\<And>E e. stalled e \<Longrightarrow> \<not> egClosed e \<Longrightarrow> look E e = (Some Stalled, e)"
    and returns: "\<And>E e. \<not> stalled e \<Longrightarrow> fst (look E e) \<noteq> Some Stalled"
    and writes: "\<And>E e r e'. engine_ok M used e \<Longrightarrow> look E e = (r, e') \<Longrightarrow>
      engine_view e' = (if r = None then upd (engine_view e) else engine_view e)"
  shows "\<forall>W\<in>set (concat (map snd looks)). env_works W \<Longrightarrow>
    worker_ready M used (length (concat (map snd looks))) s \<Longrightarrow> looks \<noteq> [] \<Longrightarrow>
    (stalled (fst s) \<longrightarrow> turns_left (snd s) \<le> length (concat (map snd (butlast looks)))) \<Longrightarrow>
    \<exists>r s'. write_waiting M look looks s = Some (r, s') \<and> r \<noteq> Some Stalled \<and>
      engine_view (fst s') = (if r = None then upd (engine_view (fst s)) else engine_view (fst s))"
proof (induction looks arbitrary: s)
  case (Cons a looks)
  obtain E Ws where a: "a = (E, Ws)" by fastforce
  have ok: "engine_ok M used (fst s)" "\<not> egClosed (fst s)"
    using Cons.prems(2) by (auto simp: worker_ready_def machine_ok_def split: prod.splits)
  show ?case
  proof (cases "stalled (fst s)")
    case False
    obtain r e' where p: "look E (fst s) = (r, e')" by fastforce
    show ?thesis using write_waiting_done [of look E s M Ws looks] p writes [OF ok(1) p]
        returns [OF False, of E] by (auto simp: a)
  next
    case True
    have more: "write_waiting M look (a # looks) s = write_waiting M look looks (worker_run M Ws s)"
      using waits [OF True ok(2)] by (simp add: a)
    have "1 \<le> turns_left (snd s)" by (cases "snd s") simp_all
    then have ne: "looks \<noteq> []" using Cons.prems(4) True by auto
    have "worker_ready M used (length Ws + length (concat (map snd looks))) s" using Cons.prems(2) by (simp add: a)
    note run = worker_run_spec [OF laws ap _ this]
    have works: "\<forall>W\<in>set Ws. env_works W" "\<forall>W\<in>set (concat (map snd looks)). env_works W"
      using Cons.prems(1) by (auto simp: a)
    have "turns_left (snd s) \<le> length Ws + length (concat (map snd (butlast looks)))"
      using Cons.prems(4) True ne by (simp add: a)
    then show ?thesis using Cons.IH [OF works(2) _ ne, of "worker_run M Ws s"] run [OF works(1)] unfolding more by fastforce
  qed
qed simp

text \<open>
  C7. Waiting writes go on. Let a \<open>Put\<close> or a \<open>Delete\<close> wait for the flush of a memtable while the worker is on its
  way or has been called (\<open>flush_pending\<close>; after a failed flush it is not), the two memtables fit the table
  format, and the system calls of the worker and the commits of the manifest succeed. However the write's
  looks and the worker's turns alternate, if the worker takes four turns in all before the last look, it
  has returned, with the effect of a write that did not wait.
\<close>

theorem stalled_put_resumes:
  assumes "manifest_laws M used" "\<forall>edit m. fst (mfLogAndApply M edit m)"
    and "\<forall>W\<in>set (concat (map snd looks)). env_works W"
    and "worker_ready M used (length (concat (map snd looks))) s" "key \<noteq> []"
    and "4 \<le> length (concat (map snd (butlast looks)))"
  shows "(\<exists>r s'. Put_waiting M looks key v s = Some (r, s') \<and> r \<noteq> Some Stalled \<and>
      engine_view (fst s') = (if r = None then (engine_view (fst s))(key \<mapsto> contents v) else engine_view (fst s))) \<and>
    (\<exists>r s'. Delete_waiting M looks key s = Some (r, s') \<and> r \<noteq> Some Stalled \<and>
      engine_view (fst s') = (if r = None then (engine_view (fst s))(key := None) else engine_view (fst s)))"
proof -
  have ne: "looks \<noteq> []" using assms(6) by auto
  have four: "stalled (fst s) \<longrightarrow> turns_left (snd s) \<le> length (concat (map snd (butlast looks)))"
    using assms(6) by (cases "snd s") simp_all
  note waits = write_waiting_returns [OF assms(1,2) _ _ _ assms(3,4) ne four]
  show ?thesis
    unfolding Put_waiting_def Delete_waiting_def
  proof (intro conjI waits)
    show "Put M E key v e = (Some Stalled, e)" "Delete M E key e = (Some Stalled, e)" if "stalled e" "\<not> egClosed e" for E e
      using assms(5) that by (simp_all add: Put_stalled Delete_stalled)
    show "fst (Put M E key v e) \<noteq> Some Stalled" "fst (Delete M E key e) \<noteq> Some Stalled" if "\<not> stalled e" for E e
      using that by (simp_all add: Put_not_stalled Delete_not_stalled)
  qed (fact Put_spec(4) [OF assms(1)] Delete_spec(4) [OF assms(1)])+
qed

text \<open>A write that waits for a worker which has just begun and whose turns come two and then three at a time.\<close>

theorem stalled_put_resumes_witness:
  "\<exists>s r s'. stalled (fst s) \<and>
    Put_waiting mem_manifest [(calm_env, [calm_env, calm_env]), (calm_env, []), (calm_env, [calm_env, calm_env, calm_env]),
      (calm_env, [])] [3] (Some [30]) s = Some (r, s')"
proof -
  let ?looks = "[(calm_env, [calm_env, calm_env]), (calm_env, []), (calm_env, [calm_env, calm_env, calm_env]), (calm_env, [])]"
  obtain e imm where e: "engine_ok mem_manifest mem_used e" "\<not> egClosed e" "egImmMem e = Some imm"
    "ShouldFlush (egActiveMem e)" "flushable (stOpts e) imm" "flushable (stOpts e) (egActiveMem e)"
    "card (mem_used (stManifest e)) \<le> 2"
    using stalled_engine by blast
  have "worker_ready mem_manifest mem_used (length (concat (map snd ?looks))) (e, FlushWriting imm)" "stalled e"
    using e by (simp_all add: worker_ready_def machine_ok_def flush_pending_def stalled_def)
  moreover have "\<forall>edit m. fst (mfLogAndApply mem_manifest edit m)" "\<forall>W\<in>set (concat (map snd ?looks)). env_works W"
    by (simp_all add: mem_manifest_def env_works_def calm_env_def)
  ultimately show ?thesis
    using stalled_put_resumes [OF mem_manifest_laws, where s = "(e, FlushWriting imm)"
      and key = "[3]" and looks = ?looks and v = "Some [30]"] by (intro exI [of _ "(e, FlushWriting imm)"]) auto
qed

section \<open>Failed flushes leave the writes waiting\<close>

fun worker_turns ::
  "'m Manifest \<Rightarrow> (nat \<Rightarrow> engine_env) \<Rightarrow> nat \<Rightarrow> 'm Engine \<times> flush_pc \<Rightarrow> 'm Engine \<times> flush_pc" where
  "worker_turns M B 0 s = s"
| "worker_turns M B (Suc n) s = worker_turns M B n (worker_turn M (B n) s)"

lemma flushMemTableDirect_more:
  "flushMemTableDirect M E mem st = (r, st') \<Longrightarrow> Store.more st' = Store.more st"
  by (auto simp: flushMemTableDirect_def install_table_def updateLevelTables_def triggerCompaction_def Let_def
      dest!: build_table_frame(6) split: if_splits prod.splits sum.splits bool.splits)

lemma failed_turn:
  assumes "fst (flushMemTableDirect M E imm e) \<noteq> None"
  shows "\<exists>e'. worker_turn M E (e, FlushWriting imm) = (e', FlushIdle) \<and> Store.more e' = Store.more e"
proof -
  obtain err e' where "flushMemTableDirect M E imm e = (Some err, e')" using assms by (metis option.exhaust prod.collapse)
  then show ?thesis using flushMemTableDirect_more by (auto simp: worker_turn_def flushWorker_def)
qed

lemma waiting_forever:
  assumes "stalled e" "\<not> egClosed e" "\<not> egFlushSignal e" "key \<noteq> []"
  shows "Put_waiting M looks key v (e, FlushIdle) = None \<and> Delete_waiting M looks key (e, FlushIdle) = None"
proof -
  have idle: "worker_run M Ws (e, FlushIdle) = (e, FlushIdle)" for Ws
    using assms(3) by (induction Ws) (simp_all add: worker_run_def worker_turn_def flushWorker_def)
  have "write_waiting M look looks (e, FlushIdle) = None" if "\<And>E. look E e = (Some Stalled, e)" for look
    by (induction looks) (auto simp: that idle)
  then show ?thesis using assms by (simp add: Put_waiting_def Delete_waiting_def Put_stalled Delete_stalled)
qed

text \<open>
  C17. Failed flushes stop all writes. When writes wait and the flushes of the immutable memtable fail, the worker
  gives up after at most two of them and is never called again, since only writes call it: every write and delete
  waits however often it looks, also when the system calls succeed again.
\<close>

theorem failed_flushes_stop_writes:
  assumes "stalled e" "\<not> egClosed e" "egImmMem e = Some imm"
    and "\<forall>i st. fst (flushMemTableDirect M (B i) imm (st :: 'm Engine)) \<noteq> None" "key \<noteq> []"
  shows "\<exists>n \<le> 3. \<exists>e'. worker_turns M B n (e, FlushWriting imm) = (e', FlushIdle) \<and>
    (\<forall>looks v. Put_waiting M looks key v (e', FlushIdle) = None \<and> Delete_waiting M looks key (e', FlushIdle) = None)"
proof -
  have turn: "\<exists>e'. worker_turn M (B i) (e, FlushWriting imm) = (e', FlushIdle) \<and> Store.more e' = Store.more e" for i e
    using assms(4) by (intro failed_turn) blast
  have keeps: "stalled e2 \<and> \<not> egClosed e2 \<and> egImmMem e2 = Some imm \<and> egFlushSignal e2 = egFlushSignal e1"
    if "Store.more e2 = Store.more e1" "stalled e1" "\<not> egClosed e1" "egImmMem e1 = Some imm" for e1 e2 :: "'m Engine"
    using Store_more_engine [OF that(1)] that by (simp add: stalled_def)
  show ?thesis
  proof (cases "egFlushSignal e")
    case False
    obtain e1 where e1: "worker_turn M (B 0) (e, FlushWriting imm) = (e1, FlushIdle)" "Store.more e1 = Store.more e"
      using turn by blast
    then have "worker_turns M B 1 (e, FlushWriting imm) = (e1, FlushIdle)" by simp
    moreover have "\<forall>looks v. Put_waiting M looks key v (e1, FlushIdle) = None \<and> Delete_waiting M looks key (e1, FlushIdle) = None"
      using waiting_forever keeps [OF e1(2) assms(1-3)] False assms(5) by blast
    ultimately show ?thesis by (intro exI [of _ 1]) auto
  next
    case True
    obtain e1 where e1: "worker_turn M (B 2) (e, FlushWriting imm) = (e1, FlushIdle)" "Store.more e1 = Store.more e"
      using turn by blast
    note k1 = keeps [OF e1(2) assms(1-3)]
    let ?e2 = "e1\<lparr>egFlushSignal := False\<rparr>"
    have w2: "worker_turn M (B 1) (e1, FlushIdle) = (?e2, FlushWriting imm)"
      using k1 True by (simp add: worker_turn_def flushWorker_def)
    obtain e3 where e3: "worker_turn M (B 0) (?e2, FlushWriting imm) = (e3, FlushIdle)" "Store.more e3 = Store.more ?e2"
      using turn by blast
    have "worker_turns M B 3 (e, FlushWriting imm) = (e3, FlushIdle)"
      using e1(1) w2 e3(1) by (simp add: numeral_3_eq_3 numeral_2_eq_2)
    moreover have "stalled e3 \<and> \<not> egClosed e3 \<and> \<not> egFlushSignal e3"
      using keeps [OF e3(2)] k1 by (simp add: stalled_def)
    then have "\<forall>looks v. Put_waiting M looks key v (e3, FlushIdle) = None \<and> Delete_waiting M looks key (e3, FlushIdle) = None"
      using waiting_forever assms(5) by blast
    ultimately show ?thesis by blast
  qed
qed

text \<open>A write to a working disk, after flushes to a full one.\<close>

theorem failed_flushes_stop_writes_witness:
  "\<exists>s e'. stalled (fst s) \<and> (\<exists>n. worker_turns mem_manifest (\<lambda>_. calm_env\<lparr>evTableIO := \<lambda>_ _. False\<rparr>) n s = (e', FlushIdle)) \<and>
    Put_waiting mem_manifest (replicate 1000000 (calm_env, [calm_env])) [3] (Some [30]) (e', FlushIdle) = None"
proof -
  let ?B = "\<lambda>_ :: nat. calm_env\<lparr>evTableIO := \<lambda>_ _. False\<rparr>"
  obtain e imm where e: "engine_ok mem_manifest mem_used e" "\<not> egClosed e" "egImmMem e = Some imm"
    "ShouldFlush (egActiveMem e)" "mem_ok imm" "mem_entries imm = [NewPutEntry 1 [1] (Some [10])]"
    using stalled_engine by blast
  have "0 < EntryCount imm" using EntryCount_entries [OF e(5)] e(6) by simp
  then have "\<forall>i st. fst (flushMemTableDirect mem_manifest (?B i) imm (st :: mem_manifest Engine)) \<noteq> None"
    by (auto simp: flushMemTableDirect_def build_table_def NewBuilder_def Let_def split: prod.split)
  moreover have "stalled e" using e by (simp add: stalled_def)
  ultimately obtain n e' where "worker_turns mem_manifest ?B n (e, FlushWriting imm) = (e', FlushIdle)"
    "\<forall>looks v. Put_waiting mem_manifest looks [3] v (e', FlushIdle) = None \<and>
      Delete_waiting mem_manifest looks [3] (e', FlushIdle) = None"
    using failed_flushes_stop_writes [of e imm mem_manifest ?B "[3]"] e(2,3) by auto
  then show ?thesis using \<open>stalled e\<close> by (intro exI [of _ "(e, FlushWriting imm)"] exI [of _ e']) auto
qed

end
