(* ===== verification/EngineReopen.thy ===== *)
theory EngineReopen
  imports EngineCrash
begin

text \<open>
  Opening the engine again: the tables of the manifest, the logs, and the recovery theorem.
\<close>

section \<open>The tables after a restart\<close>

text \<open>The map of the levels, as Go has it, has every level once.\<close>

definition levels_listed :: "'m Manifest \<Rightarrow> bool" where
  "levels_listed M \<longleftrightarrow> (\<forall>m. distinct (map fst (mfGetAllLevels M m)))"

lemma listed_tables:
  assumes "manifest_laws M used" "levels_listed M"
  shows "set (concat (map snd (mfGetAllLevels M m))) = (\<Union>l. set (mfGetLevelTables M m l))"
proof -
  let ?ls = "mfGetAllLevels M m"
  have d: "distinct (map fst ?ls)" using assms(2) by (simp add: levels_listed_def)
  have lev: "level_of ?ls l = mfGetLevelTables M m l" for l using manifest_levels [OF assms(1)] by metis
  have "t \<in> (\<Union>l. set (mfGetLevelTables M m l))" if "(l, ts) \<in> set ?ls" "t \<in> set ts" for l ts t
    using that d lev [of l] by (auto simp: level_of_def)
  moreover have "\<exists>p\<in>set ?ls. t \<in> set (snd p)" if t: "t \<in> set (mfGetLevelTables M m l)" for l t
  proof -
    obtain ts where "map_of ?ls l = Some ts" "t \<in> set ts"
      using t lev [of l] by (auto simp: level_of_def split: option.splits)
    then show ?thesis using map_of_SomeD [of ?ls l ts] by (intro bexI [of _ "(l, ts)"]) simp_all
  qed
  ultimately show ?thesis by (intro set_eqI iffI) (force, simp, blast)
qed






section \<open>Open\<close>


text \<open>A table of the manifest without its index file keeps the engine from being opened.\<close>

lemma open_readers_lost_index:
  "t \<in> set ts \<Longrightarrow> tfIndex (tables t) = None \<Longrightarrow> \<exists>err. open_readers tables ts acc = Inl (OpenTable err)"
proof (induction ts arbitrary: acc)
  case (Cons u ts)
  then show ?case using OpenReader_lost_index [of "tables u" u]
    by (cases "OpenReader u (tables u)") auto
qed simp

lemma Open_lost_index:
  assumes "manifest_laws M used" "levels_listed M" "ogDir opts \<noteq> []"
    and "t \<in> set (mfGetLevelTables M m l)" "tfIndex (tables t) = None"
  shows "\<exists>err. fst (Open M E opts m tables wals wids) = Inl (OpenTable err)"
proof -
  have "t \<in> set (concat (map snd (mfGetAllLevels M m)))"
    using listed_tables [OF assms(1,2), of m] assms(4) by blast
  from open_readers_lost_index [OF this, of tables Map.empty] assms(3,5) show ?thesis by (auto simp: Open_def)
qed

section \<open>Crashes\<close>











section \<open>One write and a crash\<close>










end
