(* ===== verification/Text.thy ===== *)
theory Text
  imports Format
begin

text \<open>
  The text functions that the log search uses: the runes of a byte string in UTF-8, \<open>strings.FieldsFunc\<close>,
  \<open>Trim\<close>, \<open>TrimSpace\<close>, \<open>ToLower\<close>, \<open>ToUpper\<close>, \<open>EqualFold\<close> and \<open>Split\<close>. What the tables of package
  \<open>unicode\<close> say of runes outside ASCII is a parameter.
\<close>

section \<open>Runes\<close>

type_synonym rune = nat

definition RuneError :: rune where
  "RuneError = 0xFFFD"

definition continuation :: "byte \<Rightarrow> bool" where
  "continuation b \<longleftrightarrow> 0x80 \<le> b \<and> b \<le> 0xBF"

definition low_bits :: "byte \<Rightarrow> nat" where
  "low_bits b = unat b mod 64"

text \<open>\<open>utf8.DecodeRune\<close>: the first rune and its width; an invalid sequence is one byte of \<open>RuneError\<close>.\<close>

definition decode2 :: "nat \<Rightarrow> bytes \<Rightarrow> rune \<times> nat" where
  "decode2 n t = (case t of b1 # _ \<Rightarrow>
       if continuation b1 then ((n mod 32) * 64 + low_bits b1, 2) else (RuneError, 1)
     | _ \<Rightarrow> (RuneError, 1))"

definition decode3 :: "nat \<Rightarrow> bytes \<Rightarrow> rune \<times> nat" where
  "decode3 n t = (case t of b1 # b2 # _ \<Rightarrow>
       if (if n = 0xE0 then 0xA0 else 0x80) \<le> unat b1 \<and> unat b1 \<le> (if n = 0xED then 0x9F else 0xBF) \<and> continuation b2
       then (((n mod 16) * 64 + low_bits b1) * 64 + low_bits b2, 3) else (RuneError, 1)
     | _ \<Rightarrow> (RuneError, 1))"

definition decode4 :: "nat \<Rightarrow> bytes \<Rightarrow> rune \<times> nat" where
  "decode4 n t = (case t of b1 # b2 # b3 # _ \<Rightarrow>
       if (if n = 0xF0 then 0x90 else 0x80) \<le> unat b1 \<and> unat b1 \<le> (if n = 0xF4 then 0x8F else 0xBF) \<and>
         continuation b2 \<and> continuation b3
       then ((((n mod 8) * 64 + low_bits b1) * 64 + low_bits b2) * 64 + low_bits b3, 4) else (RuneError, 1)
     | _ \<Rightarrow> (RuneError, 1))"

definition DecodeRune :: "byte \<Rightarrow> bytes \<Rightarrow> rune \<times> nat" where
  "DecodeRune b t =
     (let n = unat b
      in if n < 0x80 then (n, 1)
         else if 0xC2 \<le> n \<and> n \<le> 0xDF then decode2 n t
         else if 0xE0 \<le> n \<and> n \<le> 0xEF then decode3 n t
         else if 0xF0 \<le> n \<and> n \<le> 0xF4 then decode4 n t
         else (RuneError, 1))"

lemma DecodeRune_width: "0 < snd (DecodeRune b t)"
  by (simp add: DecodeRune_def decode2_def decode3_def decode4_def Let_def split: list.split)

text \<open>What \<open>range\<close> visits in a string: the runes, each with the bytes it stands for.\<close>

function runes :: "bytes \<Rightarrow> (rune \<times> bytes) list" where
  "runes [] = []"
| "runes (b # t) =
     (case DecodeRune b t of (r, w) \<Rightarrow> (r, take w (b # t)) # runes (drop (w - 1) t))"
  by pat_completeness auto
termination by (relation "measure length") auto

text \<open>\<open>utf8.AppendRune\<close>.\<close>

definition EncodeRune :: "rune \<Rightarrow> bytes" where
  "EncodeRune r0 =
     (let r = (if 0x10FFFF < r0 \<or> 0xD800 \<le> r0 \<and> r0 \<le> 0xDFFF then RuneError else r0)
      in if r < 0x80 then [word_of_nat r]
         else if r < 0x800 then [word_of_nat (0xC0 + r div 64), word_of_nat (0x80 + r mod 64)]
         else if r < 0x10000
         then [word_of_nat (0xE0 + r div 4096), word_of_nat (0x80 + r div 64 mod 64), word_of_nat (0x80 + r mod 64)]
         else [word_of_nat (0xF0 + r div 262144), word_of_nat (0x80 + r div 4096 mod 64),
               word_of_nat (0x80 + r div 64 mod 64), word_of_nat (0x80 + r mod 64)])"

text \<open>A string of ASCII bytes has one rune for each byte.\<close>

definition is_ascii :: "bytes \<Rightarrow> bool" where
  "is_ascii s \<longleftrightarrow> list_all (\<lambda>b. b < 0x80) s"

lemma is_ascii_simps [simp]:
  "is_ascii []" "is_ascii (b # s) \<longleftrightarrow> b < 0x80 \<and> is_ascii s" "is_ascii (s @ t) \<longleftrightarrow> is_ascii s \<and> is_ascii t"
  by (simp_all add: is_ascii_def)

lemma DecodeRune_ascii: "b < 0x80 \<Longrightarrow> DecodeRune b t = (unat b, 1)"
  by (simp add: DecodeRune_def Let_def word_less_nat_alt)

lemma runes_ascii: "is_ascii s \<Longrightarrow> runes s = map (\<lambda>b. (unat b, [b])) s"
  by (induction s) (simp_all add: DecodeRune_ascii)

lemma EncodeRune_ascii: "r < 0x80 \<Longrightarrow> EncodeRune r = [word_of_nat r]"
  by (simp add: EncodeRune_def Let_def)

lemma concat_runes [simp]: "concat (map snd (runes s)) = s"
proof (induction s rule: runes.induct)
  case (2 b t)
  obtain r w where d: "DecodeRune b t = (r, w)" by fastforce
  then have "0 < w" using DecodeRune_width [of b t] by simp
  then have "take w (b # t) @ drop (w - 1) t = b # t" by (cases w) simp_all
  then show ?case using 2 [OF d [symmetric]] d by simp
qed simp

section \<open>Classes of runes and case\<close>

text \<open>Package \<open>unicode\<close> outside ASCII.\<close>

record unicode =
  uLetter :: "rune \<Rightarrow> bool"
  uDigit :: "rune \<Rightarrow> bool"
  uSpace :: "rune \<Rightarrow> bool"
  uLower :: "rune \<Rightarrow> rune"
  uUpper :: "rune \<Rightarrow> rune"
  uSameFold :: "rune \<Rightarrow> rune \<Rightarrow> bool"

definition ascii_upper :: "rune \<Rightarrow> bool" where "ascii_upper r \<longleftrightarrow> 65 \<le> r \<and> r \<le> 90"
definition ascii_lower :: "rune \<Rightarrow> bool" where "ascii_lower r \<longleftrightarrow> 97 \<le> r \<and> r \<le> 122"

definition IsLetter :: "unicode \<Rightarrow> rune \<Rightarrow> bool" where
  "IsLetter U r = (if r < 0x80 then ascii_upper r \<or> ascii_lower r else uLetter U r)"

definition IsDigit :: "unicode \<Rightarrow> rune \<Rightarrow> bool" where
  "IsDigit U r = (if r < 0x80 then 48 \<le> r \<and> r \<le> 57 else uDigit U r)"

definition IsSpace :: "unicode \<Rightarrow> rune \<Rightarrow> bool" where
  "IsSpace U r = (if r < 0x80 then r = 32 \<or> 9 \<le> r \<and> r \<le> 13 else uSpace U r)"

definition lower_rune :: "unicode \<Rightarrow> rune \<Rightarrow> rune" where
  "lower_rune U r = (if r < 0x80 then (if ascii_upper r then r + 32 else r) else uLower U r)"

definition upper_rune :: "unicode \<Rightarrow> rune \<Rightarrow> rune" where
  "upper_rune U r = (if r < 0x80 then (if ascii_lower r then r - 32 else r) else uUpper U r)"

definition same_fold :: "unicode \<Rightarrow> rune \<Rightarrow> rune \<Rightarrow> bool" where
  "same_fold U a b = (if a < 0x80 \<and> b < 0x80 then lower_rune U a = lower_rune U b else uSameFold U a b)"

text \<open>\<open>strings.ToLower\<close> and \<open>ToUpper\<close>; the fast path for ASCII strings computes the same.\<close>

definition ToLower :: "unicode \<Rightarrow> bytes \<Rightarrow> bytes" where
  "ToLower U s = concat (map (\<lambda>(r, bs). EncodeRune (lower_rune U r)) (runes s))"

definition ToUpper :: "unicode \<Rightarrow> bytes \<Rightarrow> bytes" where
  "ToUpper U s = concat (map (\<lambda>(r, bs). EncodeRune (upper_rune U r)) (runes s))"

definition EqualFold :: "unicode \<Rightarrow> bytes \<Rightarrow> bytes \<Rightarrow> bool" where
  "EqualFold U s t = list_all2 (\<lambda>(a, _) (b, _). same_fold U a b) (runes s) (runes t)"

section \<open>Trimming and splitting\<close>

definition trim :: "('a \<Rightarrow> bool) \<Rightarrow> 'a list \<Rightarrow> 'a list" where
  "trim P xs = rev (dropWhile P (rev (dropWhile P xs)))"

definition TrimSpace :: "unicode \<Rightarrow> bytes \<Rightarrow> bytes" where
  "TrimSpace U s = concat (map snd (trim (\<lambda>(r, bs). IsSpace U r) (runes s)))"

text \<open>\<open>strings.Trim(s, cutset)\<close> for a set of ASCII characters.\<close>

definition Trim_ascii :: "bytes \<Rightarrow> bytes \<Rightarrow> bytes" where
  "Trim_ascii cutset s = trim (\<lambda>b. b \<in> set cutset) s"

text \<open>\<open>strings.FieldsFunc\<close>: the spans of runes that are no separators; \<open>cur\<close> is the span being read.\<close>

fun fields_loop :: "(rune \<Rightarrow> bool) \<Rightarrow> (rune \<times> bytes) list \<Rightarrow> bytes \<Rightarrow> bytes list" where
  "fields_loop sep [] cur = (if cur = [] then [] else [cur])"
| "fields_loop sep ((r, bs) # rs) cur =
     (if sep r then (if cur = [] then fields_loop sep rs [] else cur # fields_loop sep rs [])
      else fields_loop sep rs (cur @ bs))"

definition FieldsFunc :: "(rune \<Rightarrow> bool) \<Rightarrow> bytes \<Rightarrow> bytes list" where
  "FieldsFunc sep s = fields_loop sep (runes s) []"

text \<open>\<open>strings.Split\<close> at a one-byte separator; the result is never empty.\<close>

fun Split :: "byte \<Rightarrow> bytes \<Rightarrow> bytes list" where
  "Split c [] = [[]]"
| "Split c (b # s) =
     (if b = c then [] # Split c s else (case Split c s of [] \<Rightarrow> [[b]] | p # ps \<Rightarrow> (b # p) # ps))"

lemma Split_not_Nil [simp]: "Split c s \<noteq> []"
  by (induction s) (auto split: list.split)

lemma Split_none: "c \<notin> set s \<Longrightarrow> Split c s = [s]"
  by (induction s) auto

lemma Split_append: "c \<notin> set s \<Longrightarrow> Split c (s @ c # t) = s # Split c t"
  by (induction s) auto

lemma length_Split_append: "length (Split c (s @ c # t)) = length (Split c s) + length (Split c t)"
proof (induction s)
  case (Cons b s)
  then show ?case by (cases "Split c (s @ c # t)"; cases "Split c s") auto
qed simp

lemma last_Split: "c \<notin> set t \<Longrightarrow> last (Split c (s @ c # t)) = t"
proof (induction s)
  case (Cons b s)
  have "2 \<le> length (Split c (s @ c # t))" using Cons.prems by (simp add: length_Split_append Split_none Suc_le_eq)
  then show ?case using Cons by (cases "Split c (s @ c # t)") auto
qed (simp add: Split_none)

end
