(* ===== verification/Tokenizer.thy ===== *)
theory Tokenizer
  imports Text
begin

text \<open>
  The tokenizer of the log search (\<open>pkg/search/tokenizer.go\<close>): maximal runs of letters, digits,
  underscores and hyphens, trimmed, lowered, filtered by length and against the stop words, without
  repetition.
\<close>

section \<open>The tokenizer\<close>

definition defaultStopWords :: "bytes list" where
  "defaultStopWords = map ascii
     [''a'', ''an'', ''and'', ''are'', ''as'', ''at'',
      ''be'', ''by'', ''for'', ''from'', ''has'', ''he'',
      ''in'', ''is'', ''it'', ''its'', ''of'', ''on'',
      ''or'', ''that'', ''the'', ''to'', ''was'', ''were'',
      ''will'', ''with'']"

definition separator :: "unicode \<Rightarrow> rune \<Rightarrow> bool" where
  "separator U r \<longleftrightarrow> \<not> IsLetter U r \<and> \<not> IsDigit U r \<and> r \<noteq> 95 \<and> r \<noteq> 45"

definition cleaned :: "unicode \<Rightarrow> bytes \<Rightarrow> bytes" where
  "cleaned U w = ToLower U (Trim_ascii (ascii ''_-'') w)"

fun token_loop :: "unicode \<Rightarrow> bytes list \<Rightarrow> bytes set \<Rightarrow> bytes list \<Rightarrow> bytes list" where
  "token_loop U [] seen tokens = tokens"
| "token_loop U (w # ws) seen tokens =
     (let c = cleaned U w
      in if length c < 2 \<or> length c > 64 then token_loop U ws seen tokens
         else if c \<in> set defaultStopWords then token_loop U ws seen tokens
         else if c \<notin> seen then token_loop U ws (insert c seen) (tokens @ [c])
         else token_loop U ws seen tokens)"

definition Tokenize :: "unicode \<Rightarrow> bytes \<Rightarrow> bytes list" where
  "Tokenize U body =
     (if body = [] then [] else token_loop U (FieldsFunc (separator U) body) {} [])"

section \<open>What the tokens are\<close>

definition is_term :: "bytes \<Rightarrow> bool" where
  "is_term c \<longleftrightarrow> 2 \<le> length c \<and> length c \<le> 64 \<and> c \<notin> set defaultStopWords"

lemma token_loop_filter:
  "set tokens = seen \<Longrightarrow>
    token_loop U ws seen tokens = tokens @ filter (\<lambda>c. c \<notin> seen) (rev (remdups (rev (filter is_term (map (cleaned U) ws)))))"
proof (induction ws arbitrary: seen tokens)
  case (Cons w ws)
  have rem: "rev (remdups (rev xs @ [c])) = c # filter (\<lambda>d. d \<noteq> c) (rev (remdups (rev xs)))" for xs and c :: bytes
    by (induction xs rule: rev_induct) auto
  show ?case
  proof (cases "is_term (cleaned U w)")
    case True
    then have t: "2 \<le> length (cleaned U w)" "length (cleaned U w) \<le> 64" "cleaned U w \<notin> set defaultStopWords"
      by (simp_all add: is_term_def)
    show ?thesis
    proof (cases "cleaned U w \<in> seen")
      case new: False
      have "set (tokens @ [cleaned U w]) = insert (cleaned U w) seen" using Cons.prems by simp
      from Cons.IH [OF this] show ?thesis using t new True
        by (simp add: Let_def rem filter_filter)
    next
      case seen: True
      then have "filter (\<lambda>c. c \<notin> seen) (filter (\<lambda>d. d \<noteq> cleaned U w) zs) = filter (\<lambda>c. c \<notin> seen) zs" for zs
        by (auto simp: filter_filter intro: filter_cong)
      then show ?thesis using Cons.IH [OF Cons.prems] t seen True by (simp add: Let_def rem)
    qed
  next
    case False
    then have "token_loop U (w # ws) seen tokens = token_loop U ws seen tokens"
      by (auto simp: is_term_def Let_def)
    then show ?thesis using Cons.IH [OF Cons.prems] False by simp
  qed
qed simp

lemma Tokenize_terms:
  "Tokenize U body = rev (remdups (rev (filter is_term (map (cleaned U) (FieldsFunc (separator U) body)))))"
  by (auto simp: Tokenize_def token_loop_filter FieldsFunc_def)

lemma distinct_Tokenize: "distinct (Tokenize U body)"
  by (simp add: Tokenize_terms)

lemma Tokenize_is_term: "c \<in> set (Tokenize U body) \<Longrightarrow> is_term c"
  by (auto simp: Tokenize_terms)

text \<open>No token has a colon, which separates the parts of an index key.\<close>

definition lower_ok :: "unicode \<Rightarrow> bool" where
  "lower_ok U \<longleftrightarrow> (\<forall>r\<ge>0x80. uLower U r \<noteq> 58)"

lemma mod_from: "a \<le> m \<Longrightarrow> m < a + k \<Longrightarrow> k dvd a \<Longrightarrow> m mod k = m - a" for m :: nat
  by (elim dvdE) (auto simp: le_iff_add)

lemma DecodeRune_small:
  assumes "DecodeRune b t = (r, w)" "r < 0x80"
  shows "r = unat b"
proof -
  have two: "0x80 \<le> fst (decode2 n t)" if "0xC2 \<le> n" "n \<le> 0xDF" for n
  proof -
    have "n mod 32 = n - 192" using that by (intro mod_from) auto
    then have "2 \<le> n mod 32" using that by simp
    then show ?thesis by (auto simp: decode2_def RuneError_def split: list.split)
  qed
  have three: "0x80 \<le> fst (decode3 n t)" if "0xE0 \<le> n" "n \<le> 0xEF" for n
  proof (cases "n = 0xE0")
    case True
    have "32 \<le> low_bits b1" if "0xA0 \<le> unat b1" "unat b1 \<le> 0xBF" for b1
      using that mod_from [of 128 "unat b1" 64] by (simp add: low_bits_def)
    then show ?thesis using True by (fastforce simp: decode3_def RuneError_def split: list.split)
  next
    case False
    then have "1 \<le> n mod 16" using that mod_from [of 224 n 16] by simp
    then show ?thesis by (auto simp: decode3_def RuneError_def split: list.split)
  qed
  have four: "0x80 \<le> fst (decode4 n t)" if "0xF0 \<le> n" "n \<le> 0xF4" for n
  proof (cases "n = 0xF0")
    case True
    have "16 \<le> low_bits b1" if "0x90 \<le> unat b1" "unat b1 \<le> 0xBF" for b1
      using that mod_from [of 128 "unat b1" 64] by (simp add: low_bits_def)
    then show ?thesis using True by (fastforce simp: decode4_def RuneError_def split: list.split)
  next
    case False
    then have "1 \<le> n mod 8" using that mod_from [of 240 n 8] by simp
    then show ?thesis by (auto simp: decode4_def RuneError_def split: list.split)
  qed
  show ?thesis
    using assms two [of "unat b"] three [of "unat b"] four [of "unat b"]
    by (auto simp: DecodeRune_def Let_def RuneError_def split: if_splits)
qed

lemma EncodeRune_colon: "58 \<in> set (EncodeRune r) \<Longrightarrow> r = 58"
proof -
  assume colon: "58 \<in> set (EncodeRune r)"
  have high: "word_of_nat n \<noteq> (58 :: byte)" if "0x80 \<le> n" "n < 0x100" for n
  proof
    assume "word_of_nat n = (58 :: byte)"
    then have "unat (word_of_nat n :: byte) = 58" by simp
    then show False using that by (simp add: unat_of_nat)
  qed
  define r' where "r' = (if 0x10FFFF < r \<or> 0xD800 \<le> r \<and> r \<le> 0xDFFF then RuneError else r)"
  have r': "r' \<le> 0x10FFFF" by (simp add: r'_def RuneError_def)
  have "r' < 0x80"
  proof (rule ccontr)
    assume "\<not> r' < 0x80"
    moreover have "128 + x mod 64 < 256" for x :: nat
      by (rule less_le_trans [of _ "128 + 64"]) simp_all
    moreover have "r' < 2048 \<Longrightarrow> 192 + r' div 64 < 256" by (simp add: less_mult_imp_div_less)
    moreover have "r' < 65536 \<Longrightarrow> 224 + r' div 4096 < 256" by (simp add: less_mult_imp_div_less)
    moreover have "240 + r' div 262144 < 256" using r' by (simp add: less_mult_imp_div_less)
    ultimately show False
      using colon by (auto simp: EncodeRune_def Let_def high high [symmetric] simp del: of_nat_add simp flip: r'_def split: if_splits)
  qed
  then have "r' = r" by (simp add: r'_def RuneError_def split: if_splits)
  then have "word_of_nat r = (58 :: byte)" "r < 0x80"
    using colon \<open>r' < 0x80\<close> by (simp_all add: EncodeRune_def Let_def flip: r'_def)
  then have "unat (word_of_nat r :: byte) = 58" by simp
  then show ?thesis using \<open>r < 0x80\<close> by (simp add: unat_of_nat)
qed

lemma runes_small: "(r, bs) \<in> set (runes s) \<Longrightarrow> r < 0x80 \<Longrightarrow> word_of_nat r \<in> set bs"
proof (induction s rule: runes.induct)
  case (2 b t)
  obtain r' w where d: "DecodeRune b t = (r', w)" by fastforce
  then have "0 < w" using DecodeRune_width [of b t] by simp
  then show ?case using 2(1) [OF d [symmetric]] 2(2,3) d DecodeRune_small [OF d] by (cases w) auto
qed simp

lemma fields_loop_mem:
  "w \<in> set (fields_loop sep rs cur) \<Longrightarrow> b \<in> set w \<Longrightarrow>
    b \<in> set cur \<or> (\<exists>(r, bs)\<in>set rs. \<not> sep r \<and> b \<in> set bs)"
  by (induction sep rs cur rule: fields_loop.induct) (force split: if_splits)+

lemma set_trim: "set (trim P xs) \<subseteq> set xs"
  unfolding trim_def by (auto dest!: set_dropWhileD)

lemma cleaned_colon:
  assumes "lower_ok U" "58 \<in> set (cleaned U w)"
  shows "58 \<in> set w"
proof -
  let ?s = "Trim_ascii (ascii ''_-'') w"
  obtain r bs where r: "(r, bs) \<in> set (runes ?s)" "58 \<in> set (EncodeRune (lower_rune U r))"
    using assms(2) unfolding cleaned_def ToLower_def by auto
  then have "lower_rune U r = 58" by (auto dest: EncodeRune_colon)
  then have "r = 58" using assms(1) by (auto simp: lower_rune_def lower_ok_def ascii_upper_def split: if_splits)
  then have "(58 :: byte) \<in> set bs" using runes_small [OF r(1)] by simp
  then have "(58 :: byte) \<in> set (concat (map snd (runes ?s)))" using r(1) unfolding set_concat set_map by (metis UN_I image_eqI snd_conv)
  then show ?thesis by (auto simp: Trim_ascii_def dest: set_trim [THEN subsetD])
qed

lemma runes_colon: "(r, bs) \<in> set (runes s) \<Longrightarrow> 58 \<in> set bs \<Longrightarrow> r = 58"
proof (induction s rule: runes.induct)
  case (2 b t)
  obtain r' w where d: "DecodeRune b t = (r', w)" by fastforce
  have "r' = 58" if "58 \<in> set (take w (b # t))"
    using d that
    by (auto simp: DecodeRune_def decode2_def decode3_def decode4_def Let_def continuation_def word_le_nat_alt
        split: if_splits list.splits)
  then show ?case using 2(1) [OF d [symmetric]] 2(2,3) d by auto
qed simp

lemma token_no_colon:
  assumes "lower_ok U" "c \<in> set (Tokenize U body)"
  shows "58 \<notin> set c"
proof
  assume "58 \<in> set c"
  moreover obtain w where w: "w \<in> set (FieldsFunc (separator U) body)" "c = cleaned U w"
    using assms(2) by (auto simp: Tokenize_terms)
  ultimately have "58 \<in> set w" using cleaned_colon [OF assms(1)] by blast
  then obtain r bs where "(r, bs) \<in> set (runes body)" "\<not> separator U r" "58 \<in> set bs"
    using fields_loop_mem w(1) unfolding FieldsFunc_def by fastforce
  then show False using runes_colon by (fastforce simp: separator_def IsLetter_def IsDigit_def ascii_upper_def ascii_lower_def)
qed

section \<open>ASCII text\<close>

abbreviation ascii_rune :: "byte \<Rightarrow> rune \<times> bytes" where
  "ascii_rune b \<equiv> (unat b, [b])"

definition lower_byte :: "byte \<Rightarrow> byte" where "lower_byte b = (if 65 \<le> b \<and> b \<le> 90 then b + 32 else b)"
definition upper_byte :: "byte \<Rightarrow> byte" where "upper_byte b = (if 97 \<le> b \<and> b \<le> 122 then b - 32 else b)"

lemma lower_ascii:
  assumes "b < 0x80" shows "EncodeRune (lower_rune U (unat b)) = [lower_byte b]"
proof -
  have u: "unat b < 0x80" using assms by (simp add: word_less_nat_alt)
  show ?thesis
  proof (cases "65 \<le> b \<and> b \<le> 90")
    case True
    then have "65 \<le> unat b" "unat b \<le> 90" by (simp_all add: word_le_nat_alt)
    then show ?thesis using True u by (simp add: lower_byte_def lower_rune_def ascii_upper_def EncodeRune_ascii)
  next
    case False
    then have "\<not> ascii_upper (unat b)" by (auto simp: ascii_upper_def word_le_nat_alt)
    then show ?thesis using False u by (simp add: lower_byte_def lower_rune_def EncodeRune_ascii)
  qed
qed

lemma upper_ascii:
  assumes "b < 0x80" shows "EncodeRune (upper_rune U (unat b)) = [upper_byte b]"
proof -
  have u: "unat b < 0x80" using assms by (simp add: word_less_nat_alt)
  show ?thesis
  proof (cases "97 \<le> b \<and> b \<le> 122")
    case True
    then have "97 \<le> unat b" "unat b \<le> 122" by (simp_all add: word_le_nat_alt)
    moreover have "word_of_nat (unat b - 32) = b - 32"
      using calculation by (subst of_nat_diff) simp_all
    ultimately show ?thesis using True u by (simp add: upper_byte_def upper_rune_def ascii_lower_def EncodeRune_ascii)
  next
    case False
    then have "\<not> ascii_lower (unat b)" by (auto simp: ascii_lower_def word_le_nat_alt)
    then show ?thesis using False u by (simp add: upper_byte_def upper_rune_def EncodeRune_ascii)
  qed
qed

lemma ToLower_ascii: "is_ascii s \<Longrightarrow> ToLower U s = map lower_byte s"
  unfolding ToLower_def by (induction s) (simp_all add: DecodeRune_ascii lower_ascii)

lemma ToUpper_ascii: "is_ascii s \<Longrightarrow> ToUpper U s = map upper_byte s"
  unfolding ToUpper_def by (induction s) (simp_all add: DecodeRune_ascii upper_ascii)

lemma is_ascii_trim: "is_ascii s \<Longrightarrow> is_ascii (trim P s)"
  by (auto simp: is_ascii_def list_all_iff dest: set_trim [THEN subsetD])

lemma cleaned_ascii: "is_ascii w \<Longrightarrow> cleaned U w = map lower_byte (trim (\<lambda>b. b = 95 \<or> b = 45) w)"
  by (simp add: cleaned_def Trim_ascii_def ToLower_ascii is_ascii_trim)

lemma fields_ascii: "is_ascii s \<Longrightarrow> FieldsFunc sep s = fields_loop sep (map ascii_rune s) []"
  by (simp add: FieldsFunc_def runes_ascii)

lemma field_bytes:
  assumes "is_ascii s" "w \<in> set (FieldsFunc (separator U) s)"
  shows "b \<in> set w \<Longrightarrow> b < 0x80 \<and> \<not> separator U (unat b)" "is_ascii w"
proof -
  show *: "b < 0x80 \<and> \<not> separator U (unat b)" if "b \<in> set w" for b
    using fields_loop_mem [of w "separator U" "map ascii_rune s" "[]" b] assms that
    by (auto simp: fields_ascii is_ascii_def list_all_iff)
  show "is_ascii w" using * by (simp add: is_ascii_def list_all_iff)
qed

text \<open>The characters of a term.\<close>

definition term_char :: "byte \<Rightarrow> bool" where
  "term_char b \<longleftrightarrow> 48 \<le> b \<and> b \<le> 57 \<or> 97 \<le> b \<and> b \<le> 122 \<or> b = 95 \<or> b = 45"

lemma unat_eq_iff_byte: "n < 256 \<Longrightarrow> unat (b :: byte) = n \<longleftrightarrow> b = word_of_nat n"
  by (auto simp: unat_of_nat)

lemma lower_term_char: "b < 0x80 \<Longrightarrow> \<not> separator U (unat b) \<Longrightarrow> term_char (lower_byte b)"
proof -
  assume b: "b < 0x80" "\<not> separator U (unat b)"
  have e: "unat b = 95 \<Longrightarrow> b = 95" "unat b = 45 \<Longrightarrow> b = 45" by (simp_all add: unat_eq_iff_byte)
  have "unat (b + 32) = unat b + 32" if "unat b \<le> 90"
    using that by (simp add: unat_word_ariths)
  then show ?thesis using b e
    by (auto simp: term_char_def lower_byte_def separator_def IsLetter_def IsDigit_def ascii_upper_def ascii_lower_def
        word_le_nat_alt word_less_nat_alt split: if_splits)
qed

lemma term_char_fixed: "term_char b \<Longrightarrow> lower_byte b = b \<and> b < 0x80 \<and> \<not> separator U (unat b)"
  by (auto simp: term_char_def lower_byte_def separator_def IsLetter_def IsDigit_def ascii_lower_def word_le_nat_alt
      word_less_nat_alt)

text \<open>A trimmed list does not start or end with what was trimmed.\<close>

lemma trim_ends: "trim P xs \<noteq> [] \<Longrightarrow> \<not> P (hd (trim P xs)) \<and> \<not> P (last (trim P xs))"
proof -
  assume ne: "trim P xs \<noteq> []"
  let ?d = "dropWhile P xs"
  have l: "\<not> P (last (trim P xs))" using ne hd_dropWhile [of P "rev ?d"] by (simp add: trim_def last_rev)
  obtain zs where zs: "rev ?d = zs @ dropWhile P (rev ?d)" by (metis takeWhile_dropWhile_id)
  then have d: "?d = trim P xs @ rev zs" by (metis rev_append rev_rev_ident trim_def)
  then have "?d \<noteq> []" "hd ?d = hd (trim P xs)" using ne by auto
  then show ?thesis using l hd_dropWhile [of P xs] by simp
qed

lemma trim_id: "xs = [] \<or> \<not> P (hd xs) \<and> \<not> P (last xs) \<Longrightarrow> trim P xs = xs"
proof (cases xs)
  case (Cons x ys)
  assume "xs = [] \<or> \<not> P (hd xs) \<and> \<not> P (last xs)"
  then have "dropWhile P xs = xs" "dropWhile P (rev xs) = rev xs"
    using Cons hd_rev [of xs] by (simp, cases "rev xs") auto
  then show ?thesis by (simp add: trim_def)
qed (simp add: trim_def)

section \<open>The normal form\<close>

fun join_words :: "bytes list \<Rightarrow> bytes" where
  "join_words [] = []"
| "join_words [w] = w"
| "join_words (w # ws) = w @ 32 # join_words ws"

lemma fields_word:
  "\<forall>b\<in>set t. \<not> sep (unat b) \<Longrightarrow>
    fields_loop sep (map ascii_rune t @ rs) cur = fields_loop sep rs (cur @ t)"
  by (induction t arbitrary: cur) simp_all

lemma fields_join:
  assumes "\<forall>w\<in>set ws. w \<noteq> [] \<and> (\<forall>b\<in>set w. \<not> sep (unat b))" "sep 32"
  shows "fields_loop sep (map ascii_rune (join_words ws)) [] = ws"
  using assms(1)
proof (induction ws rule: join_words.induct)
  case (2 w)
  then show ?case using fields_word [of w sep "[]" "[]"] by simp
next
  case (3 w v ws)
  then show ?case using assms(2) fields_word [of w sep "ascii_rune 32 # map ascii_rune (join_words (v # ws))" "[]"]
    by simp
qed simp

definition normal_term :: "bytes \<Rightarrow> bool" where
  "normal_term c \<longleftrightarrow> is_term c \<and> list_all term_char c \<and> hd c \<notin> {95, 45} \<and> last c \<notin> {95, 45}"

lemma normal_term_cleaned:
  assumes "normal_term c" shows "cleaned U c = c"
proof -
  have "map lower_byte c = c" "is_ascii c"
    using assms term_char_fixed [of _ U] by (auto simp: normal_term_def list_all_iff is_ascii_def intro: map_idI)
  moreover have "trim (\<lambda>b. b = 95 \<or> b = 45) c = c" using assms by (intro trim_id) (auto simp: normal_term_def)
  ultimately show ?thesis by (simp add: cleaned_ascii)
qed

lemma lower_byte_moved: "65 \<le> b \<Longrightarrow> b \<le> 90 \<Longrightarrow> b + 32 \<noteq> 95 \<and> b + 32 \<noteq> 45" for b :: byte
proof -
  assume "65 \<le> b" "b \<le> 90"
  then have "unat (b + 32) = unat b + 32" "65 \<le> unat b" by (simp_all add: unat_word_ariths word_le_nat_alt)
  then have "unat (b + 32) \<noteq> 95 \<and> unat (b + 32) \<noteq> 45" by simp
  then show ?thesis by (auto simp: unat_eq_iff_byte)
qed

lemma Tokenize_normal:
  assumes "is_ascii body" "c \<in> set (Tokenize U body)" shows "normal_term c"
proof -
  let ?P = "\<lambda>b :: byte. b = 95 \<or> b = 45"
  obtain w where w: "w \<in> set (FieldsFunc (separator U) body)" "c = cleaned U w" "is_term c"
    using assms(2) by (auto simp: Tokenize_terms)
  note fb = field_bytes [OF assms(1) w(1)]
  have c: "c = map lower_byte (trim ?P w)" using w(2) cleaned_ascii [OF fb(2)] by simp
  have chars: "b < 0x80 \<and> \<not> separator U (unat b)" if "b \<in> set (trim ?P w)" for b
    using fb(1) [of b] that subsetD [OF set_trim] by metis
  have ne: "trim ?P w \<noteq> []" using w(3) c by (auto simp: is_term_def)
  have keep: "lower_byte b \<in> {95, 45} \<Longrightarrow> ?P b" for b
    using lower_byte_moved [of b] by (auto simp: lower_byte_def split: if_splits)
  have "list_all term_char c" using chars lower_term_char [of _ U] by (auto simp: c list_all_iff)
  moreover have "hd c \<notin> {95, 45}" "last c \<notin> {95, 45}"
    using trim_ends [OF ne] keep ne by (auto simp: c hd_map last_map)
  ultimately show ?thesis using w(3) by (simp add: normal_term_def)
qed

lemma Tokenize_join:
  assumes "\<forall>c\<in>set cs. normal_term c" "distinct cs" shows "Tokenize U (join_words cs) = cs"
proof -
  have c: "c \<noteq> [] \<and> (\<forall>b\<in>set c. b < 0x80 \<and> \<not> separator U (unat b))" if "c \<in> set cs" for c
    using assms(1) that term_char_fixed [of _ U] by (force simp: normal_term_def is_term_def list_all_iff)
  then have "is_ascii (join_words cs)"
    by (induction cs rule: join_words.induct) (auto simp: is_ascii_def list_all_iff)
  moreover have "separator U 32" by (simp add: separator_def IsLetter_def IsDigit_def ascii_upper_def ascii_lower_def)
  ultimately have "FieldsFunc (separator U) (join_words cs) = cs"
    using c by (simp add: fields_ascii fields_join)
  moreover have "map (cleaned U) cs = cs" using assms(1) normal_term_cleaned by (auto intro: map_idI)
  moreover have "filter is_term cs = cs" using assms(1) by (auto simp: normal_term_def)
  ultimately show ?thesis using assms(2) by (simp add: Tokenize_terms distinct_remdups_id)
qed

text \<open>The case of the letters does not matter.\<close>

lemma upper_bytes:
  assumes "b < 0x80"
  shows "upper_byte b < 0x80" "separator U (unat (upper_byte b)) = separator U (unat b)"
    "lower_byte (upper_byte b) = lower_byte b" "upper_byte b \<in> {95, 45} \<longleftrightarrow> b \<in> {95, 45}"
proof -
  have "upper_byte b < 0x80 \<and> separator U (unat (upper_byte b)) = separator U (unat b) \<and>
    lower_byte (upper_byte b) = lower_byte b \<and> (upper_byte b \<in> {95, 45} \<longleftrightarrow> b \<in> {95, 45})"
  proof (cases "97 \<le> b \<and> b \<le> 122")
    case True
    then have b: "97 \<le> unat b" "unat b \<le> 122" by (simp_all add: word_le_nat_alt)
    then have u: "unat (upper_byte b) = unat b - 32" using True by (simp add: upper_byte_def unat_sub_if')
    then have "65 \<le> upper_byte b" "upper_byte b \<le> 90" using b by (simp_all add: word_le_nat_alt)
    then have "lower_byte (upper_byte b) = b" using True by (simp add: lower_byte_def upper_byte_def)
    moreover have "lower_byte b = b" using b by (simp add: lower_byte_def word_le_nat_alt)
    ultimately show ?thesis using b u
      by (auto simp: separator_def IsLetter_def ascii_upper_def ascii_lower_def word_less_nat_alt simp flip: unat_eq_iff_byte)
  next
    case False
    then have "upper_byte b = b" by (auto simp: upper_byte_def)
    then show ?thesis using assms by simp
  qed
  then show "upper_byte b < 0x80" "separator U (unat (upper_byte b)) = separator U (unat b)"
    "lower_byte (upper_byte b) = lower_byte b" "upper_byte b \<in> {95, 45} \<longleftrightarrow> b \<in> {95, 45}"
    by simp_all
qed

lemma fields_upper:
  assumes "\<forall>b\<in>set s. b < 0x80"
  shows "fields_loop (separator U) (map ascii_rune (map upper_byte s)) (map upper_byte cur) =
    map (map upper_byte) (fields_loop (separator U) (map ascii_rune s) cur)"
  using assms
proof (induction s arbitrary: cur)
  case (Cons b s)
  have "separator U (unat (upper_byte b)) = separator U (unat b)" using upper_bytes Cons.prems by simp
  then show ?case using Cons.IH [of "[]"] Cons.IH [of "cur @ [b]"] Cons.prems by simp
qed simp

lemma dropWhile_map_cong: "(\<And>x. x \<in> set xs \<Longrightarrow> P (f x) = P x) \<Longrightarrow> dropWhile P (map f xs) = map f (dropWhile P xs)"
  by (induction xs) auto

lemma trim_map: "(\<And>x. x \<in> set xs \<Longrightarrow> P (f x) = P x) \<Longrightarrow> trim P (map f xs) = map f (trim P xs)"
  using dropWhile_map_cong [of xs P f] dropWhile_map_cong [of "rev (dropWhile P xs)" P f]
  by (simp add: trim_def flip: rev_map) (metis set_dropWhileD rev_map)

lemma cleaned_upper:
  assumes "is_ascii w" shows "cleaned U (map upper_byte w) = cleaned U w"
proof -
  let ?P = "\<lambda>b :: byte. b = 95 \<or> b = 45"
  have b: "b < 0x80" if "b \<in> set w" for b using assms that by (simp add: is_ascii_def list_all_iff)
  then have "is_ascii (map upper_byte w)" using upper_bytes(1) by (auto simp: is_ascii_def list_all_iff)
  moreover have "trim ?P (map upper_byte w) = map upper_byte (trim ?P w)"
    using b upper_bytes(4) by (intro trim_map) auto
  moreover have "map lower_byte (map upper_byte (trim ?P w)) = map lower_byte (trim ?P w)"
    using b upper_bytes(3) set_trim [of ?P w] by auto
  ultimately show ?thesis using assms by (simp add: cleaned_ascii)
qed

lemma Tokenize_upper:
  assumes "is_ascii body" shows "Tokenize U (ToUpper U body) = Tokenize U body"
proof -
  have "\<forall>b\<in>set body. b < 0x80" using assms by (simp add: is_ascii_def list_all_iff)
  then have "FieldsFunc (separator U) (ToUpper U body) = map (map upper_byte) (FieldsFunc (separator U) body)"
    using fields_upper [of body U "[]"] assms upper_bytes(1)
    by (simp add: ToUpper_ascii fields_ascii is_ascii_def list_all_iff)
  moreover have "map (cleaned U) (map (map upper_byte) (FieldsFunc (separator U) body)) =
      map (cleaned U) (FieldsFunc (separator U) body)"
    using cleaned_upper field_bytes(2) [OF assms] by simp
  ultimately show ?thesis by (simp only: Tokenize_terms)
qed

text \<open>
  C22. The tokens of a text. They are the cleaned words of the text that are terms, each once. For ASCII text
  they consist of lower-case letters, digits, underscores and hyphens with neither of the last two at an end,
  they do not depend on the case of the text, and tokenizing them again gives them back.
\<close>

theorem tokens_normal:
  "distinct (Tokenize U body) \<and>
   set (Tokenize U body) = {c \<in> cleaned U ` set (FieldsFunc (separator U) body). is_term c} \<and>
   (is_ascii body \<longrightarrow> list_all normal_term (Tokenize U body) \<and> Tokenize U (ToUpper U body) = Tokenize U body \<and>
      Tokenize U (join_words (Tokenize U body)) = Tokenize U body)"
  using distinct_Tokenize [of U body] Tokenize_normal [of body _ U]
    Tokenize_join [of "Tokenize U body" U] Tokenize_upper [of body U]
  by (auto simp: list_all_iff) (auto simp: Tokenize_terms)

text \<open>A message, with tables that know no letters outside ASCII.\<close>

definition ascii_unicode :: unicode where
  "ascii_unicode = \<lparr>uLetter = (\<lambda>_. False), uDigit = (\<lambda>_. False), uSpace = (\<lambda>_. False),
     uLower = (\<lambda>r. r), uUpper = (\<lambda>r. r), uSameFold = (\<lambda>a b. a = b)\<rparr>"

theorem tokens_normal_witness:
  "Tokenize ascii_unicode (ascii ''Disk_ is FULL: disk-full, a DISK'') = [ascii ''disk'', ascii ''full'', ascii ''disk-full''] \<and>
   Tokenize ascii_unicode (ToUpper ascii_unicode (ascii ''Disk_ is FULL: disk-full, a DISK'')) =
     [ascii ''disk'', ascii ''full'', ascii ''disk-full'']"
proof -
  let ?t = "ascii ''Disk_ is FULL: disk-full, a DISK''"
  have t: "Tokenize ascii_unicode ?t = [ascii ''disk'', ascii ''full'', ascii ''disk-full'']"
  proof -
    have "FieldsFunc (separator ascii_unicode) ?t =
        map ascii [''Disk_'', ''is'', ''FULL'', ''disk-full'', ''a'', ''DISK'']"
      by (simp add: fields_ascii separator_def IsLetter_def IsDigit_def ascii_upper_def ascii_lower_def)
    moreover have "map (cleaned ascii_unicode) \<dots> = map ascii [''disk'', ''is'', ''full'', ''disk-full'', ''a'', ''disk'']"
      by (simp add: cleaned_ascii trim_def lower_byte_def)
    ultimately show ?thesis by (simp add: Tokenize_terms is_term_def defaultStopWords_def)
  qed
  have "is_ascii ?t" by simp
  then show ?thesis using tokens_normal [of ascii_unicode ?t] t by (simp only: simp_thms)
qed

end
