(* ===== verification/Search.thy ===== *)
theory Search
  imports Tokenizer EngineScan "HOL-Library.Finite_Map" "HOL-Library.Signed_Division"
begin

text \<open>
  The log search engine (\<open>pkg/search\<close>) over a database: log records and their validation, the index keys
  they are stored under, ingestion, retrieval by id, queries with their index scans, filters and pagination,
  and the aggregation of the results. The database is a record of its operations; \<open>engine_db\<close> is the storage
  engine. Timestamps are the values of the \<open>int64\<close> fields as integers.
\<close>

section \<open>The database\<close>

text \<open>
  The operations of \<open>lsm.Engine\<close> that the search engine and the server call. \<open>dbScan\<close> gives what the
  iterator yields when it is walked to its end.
\<close>

record 'e Db =
  dbPut :: "bytes \<Rightarrow> slice \<Rightarrow> 'e \<Rightarrow> engine_error option \<times> 'e"
  dbDelete :: "bytes \<Rightarrow> 'e \<Rightarrow> engine_error option \<times> 'e"
  dbGet :: "bytes \<Rightarrow> 'e \<Rightarrow> (engine_error + slice) \<times> 'e"
  dbScan :: "bytes \<Rightarrow> bytes \<Rightarrow> 'e \<Rightarrow> engine_error + Entry list"

text \<open>The engine; the clock and the outcomes of the system calls of an operation depend on when it runs.\<close>

definition engine_scan :: "bytes \<Rightarrow> bytes \<Rightarrow> 'm Engine \<Rightarrow> engine_error + Entry list" where
  "engine_scan startKey endKey e =
     (case Scan startKey endKey e of
        None \<Rightarrow> Inl Panic
      | Some (Inl err) \<Rightarrow> Inl err
      | Some (Inr m) \<Rightarrow> (case drain any_iterator m [] of None \<Rightarrow> Inl Panic | Some es \<Rightarrow> Inr es))"

text \<open>
  The storage engine as a database. A write that finds the memtables full is taken as refused here
  (\<open>Stalled\<close>), where the code waits: every property that allows for a failing write allows for this one too,
  and the code does not show it.
\<close>

definition engine_db :: "'m Manifest \<Rightarrow> ('m Engine \<Rightarrow> engine_env) \<Rightarrow> 'm Engine Db" where
  "engine_db M E =
     \<lparr>dbPut = (\<lambda>k v e. Put M (E e) k v e), dbDelete = (\<lambda>k e. Delete M (E e) k e), dbGet = Get,
      dbScan = engine_scan\<rparr>"

section \<open>Records\<close>

type_synonym fields = "(bytes, bytes) fmap"

record LogRecord =
  lrID :: bytes
  lrTimestamp :: int
  lrLevel :: bytes
  lrService :: bytes
  lrHost :: bytes
  lrMessage :: bytes
  lrFields :: "fields option"

datatype search_error =
    EmptyMessage | MarshalFailed | InvalidJSON | StoreFailed engine_error | GetError engine_error
  | ScanFailed engine_error

text \<open>
  What the search engine takes from the standard library and the moment: the tables of \<open>unicode\<close>,
  \<open>encoding/json\<close> for log records, the order in which \<open>range\<close> visits a map and a set, \<open>sort.Slice\<close> by
  descending timestamp, \<open>time.ParseDuration\<close>, the random id and the clock.
\<close>

record search_env =
  seUnicode :: unicode
  seMarshal :: "LogRecord \<Rightarrow> bytes option"
  seUnmarshal :: "bytes \<Rightarrow> LogRecord option"
  seRange :: "fields \<Rightarrow> bytes list"
  seSetOrder :: "bytes list \<Rightarrow> bytes list"
  seSort :: "LogRecord list \<Rightarrow> LogRecord list"
  seDuration :: "bytes \<Rightarrow> int option"
  seNewID :: bytes
  seNow :: int

definition Validate :: "search_env \<Rightarrow> LogRecord \<Rightarrow> search_error option \<times> LogRecord" where
  "Validate S l =
     (let U = seUnicode S;
          l1 = (if lrID l = [] then l\<lparr>lrID := seNewID S\<rparr> else l);
          l2 = (if lrTimestamp l1 \<le> 0 then l1\<lparr>lrTimestamp := seNow S\<rparr> else l1);
          l3 = (if lrLevel l2 = [] then l2\<lparr>lrLevel := ascii ''INFO''\<rparr> else l2);
          l4 = l3\<lparr>lrLevel := ToUpper U (TrimSpace U (lrLevel l3))\<rparr>
      in if lrMessage l4 = [] then (Some EmptyMessage, l4)
         else (None, if lrService l4 = [] then l4\<lparr>lrService := ascii ''default''\<rparr> else l4))"

definition ParseLogRecord :: "search_env \<Rightarrow> bytes \<Rightarrow> search_error + LogRecord" where
  "ParseLogRecord S data =
     (case seUnmarshal S data of
        None \<Rightarrow> Inl InvalidJSON
      | Some l \<Rightarrow> (case Validate S l of (Some err, _) \<Rightarrow> Inl err | (None, l') \<Rightarrow> Inr l'))"

section \<open>Keys\<close>

text \<open>The verb \<open>%020d\<close>.\<close>

definition fmt20 :: "int \<Rightarrow> bytes" where
  "fmt20 t = (if 0 \<le> t then pad 20 (nat t) else 45 # pad 19 (nat (- t)))"

definition docKey :: "bytes \<Rightarrow> bytes" where "docKey i = ascii ''doc:'' @ i"

text \<open>An index key is a prefix, a timestamp and an id, the prefix ending with a colon.\<close>

definition index_key :: "bytes \<Rightarrow> int \<Rightarrow> bytes \<Rightarrow> bytes" where
  "index_key p t i = p @ fmt20 t @ ascii '':'' @ i"

definition timePrefix :: bytes where "timePrefix = ascii ''idx:time:''"
definition lvlPrefix :: "bytes \<Rightarrow> bytes" where "lvlPrefix l = ascii ''idx:lvl:'' @ l @ ascii '':''"
definition svcPrefix :: "bytes \<Rightarrow> bytes" where "svcPrefix s = ascii ''idx:svc:'' @ s @ ascii '':''"
definition termPrefix :: "bytes \<Rightarrow> bytes" where "termPrefix c = ascii ''term:'' @ c @ ascii '':''"
definition fldPrefix :: "bytes \<Rightarrow> bytes \<Rightarrow> bytes" where
  "fldPrefix k v = ascii ''fld:'' @ k @ ascii ''='' @ v @ ascii '':''"

text \<open>The bounds of a scan.\<close>

definition scan_from :: "bytes \<Rightarrow> int \<Rightarrow> bytes" where "scan_from p t = p @ fmt20 t @ ascii '':''"
definition scan_to :: "bytes \<Rightarrow> int \<Rightarrow> bytes" where "scan_to p t = p @ fmt20 t @ ascii '':'' @ [0xFF]"

section \<open>Ingestion\<close>

definition index_prefixes :: "search_env \<Rightarrow> LogRecord \<Rightarrow> bytes list" where
  "index_prefixes S l =
     [timePrefix, lvlPrefix (lrLevel l), svcPrefix (lrService l)] @
     map termPrefix (Tokenize (seUnicode S) (lrMessage l)) @
     (case lrFields l of None \<Rightarrow> [] | Some m \<Rightarrow>
        map (\<lambda>k. fldPrefix k (case fmlookup m k of None \<Rightarrow> [] | Some v \<Rightarrow> v)) (seRange S m))"

definition index_keys :: "search_env \<Rightarrow> LogRecord \<Rightarrow> bytes list" where
  "index_keys S l = map (\<lambda>p. index_key p (lrTimestamp l) (lrID l)) (index_prefixes S l)"

text \<open>Errors of the index writes are ignored.\<close>

fun put_keys :: "'e Db \<Rightarrow> bytes list \<Rightarrow> 'e \<Rightarrow> 'e" where
  "put_keys D [] db = db"
| "put_keys D (k # ks) db = put_keys D ks (snd (dbPut D k None db))"

definition Ingest :: "search_env \<Rightarrow> 'e Db \<Rightarrow> LogRecord \<Rightarrow> 'e \<Rightarrow> search_error option \<times> 'e" where
  "Ingest S D l0 db =
     (case Validate S l0 of
        (Some err, _) \<Rightarrow> (Some err, db)
      | (None, l) \<Rightarrow>
          (case seMarshal S l of
             None \<Rightarrow> (Some MarshalFailed, db)
           | Some payload \<Rightarrow>
               (case dbPut D (docKey (lrID l)) (Some payload) db of
                  (Some err, db1) \<Rightarrow> (Some (StoreFailed err), db1)
                | (None, db1) \<Rightarrow> (None, put_keys D (index_keys S l) db1))))"

text \<open>\<open>S i\<close> is the environment of the call for the record at position \<open>i\<close>.\<close>

fun ingest_loop :: "(nat \<Rightarrow> search_env) \<Rightarrow> 'e Db \<Rightarrow> LogRecord list \<Rightarrow> nat \<Rightarrow> 'e \<Rightarrow> nat \<times> search_error option \<times> 'e" where
  "ingest_loop S D [] n db = (n, None, db)"
| "ingest_loop S D (l # ls) n db =
     (case Ingest (S n) D l db of
        (Some err, db1) \<Rightarrow> (n, Some err, db1)
      | (None, db1) \<Rightarrow> ingest_loop S D ls (n + 1) db1)"

definition IngestBatch :: "(nat \<Rightarrow> search_env) \<Rightarrow> 'e Db \<Rightarrow> LogRecord list \<Rightarrow> 'e \<Rightarrow> nat \<times> search_error option \<times> 'e" where
  "IngestBatch S D ls db = ingest_loop S D ls 0 db"

definition GetByID :: "search_env \<Rightarrow> 'e Db \<Rightarrow> bytes \<Rightarrow> 'e \<Rightarrow> (search_error + LogRecord) \<times> 'e" where
  "GetByID S D i db =
     (case dbGet D (docKey i) db of
        (Inl err, db1) \<Rightarrow> (Inl (GetError err), db1)
      | (Inr val, db1) \<Rightarrow> (ParseLogRecord S (contents val), db1))"

section \<open>Index scans\<close>

fun scan_loop :: "bytes \<Rightarrow> Entry list \<Rightarrow> bytes set \<Rightarrow> bytes list \<Rightarrow> bytes list" where
  "scan_loop endKey [] seen ids = ids"
| "scan_loop endKey (x # es) seen ids =
     (if bytes_compare (Key x) endKey > 0 then ids
      else
        let parts = Split 58 (Key x); i = last parts
        in if length parts \<ge> 4 \<and> i \<notin> seen then scan_loop endKey es (insert i seen) (ids @ [i])
           else scan_loop endKey es seen ids)"

definition scanPrefixIDs :: "'e Db \<Rightarrow> bytes \<Rightarrow> bytes \<Rightarrow> 'e \<Rightarrow> engine_error + bytes list" where
  "scanPrefixIDs D startKey endKey db =
     (case dbScan D startKey endKey db of
        Inl err \<Rightarrow> Inl err
      | Inr es \<Rightarrow> Inr (scan_loop endKey es {} []))"

text \<open>\<open>common\<close> is the set of the ids found under all tokens so far.\<close>

fun intersect_loop :: "'e Db \<Rightarrow> int \<Rightarrow> int \<Rightarrow> bytes list \<Rightarrow> bytes list \<Rightarrow> 'e \<Rightarrow> engine_error + bytes list" where
  "intersect_loop D fromTime toTime [] common db = Inr common"
| "intersect_loop D fromTime toTime (c # cs) common db =
     (case scanPrefixIDs D (scan_from (termPrefix c) fromTime) (scan_to (termPrefix c) toTime) db of
        Inl err \<Rightarrow> Inl err
      | Inr ids \<Rightarrow>
          (let common' = filter (\<lambda>i. i \<in> set ids) common
           in if common' = [] then Inr [] else intersect_loop D fromTime toTime cs common' db))"

definition intersectTerms :: "search_env \<Rightarrow> 'e Db \<Rightarrow> bytes list \<Rightarrow> int \<Rightarrow> int \<Rightarrow> 'e \<Rightarrow> engine_error + bytes list" where
  "intersectTerms S D tokens fromTime toTime db =
     (case tokens of
        [] \<Rightarrow> Inr []
      | c # cs \<Rightarrow>
          (case scanPrefixIDs D (scan_from (termPrefix c) fromTime) (scan_to (termPrefix c) toTime) db of
             Inl err \<Rightarrow> Inl err
           | Inr ids \<Rightarrow> map_sum (\<lambda>err. err) (seSetOrder S) (intersect_loop D fromTime toTime cs ids db)))"

section \<open>Queries\<close>

record Query =
  qText :: bytes
  qLevel :: bytes
  qService :: bytes
  qHost :: bytes
  qFromTime :: int
  qToTime :: int
  qFields :: fields
  qLimit :: int
  qOffset :: int

text \<open>The measured duration \<open>TookMs\<close> is left out.\<close>

record SearchResult =
  srTotalHits :: int
  srLogs :: "LogRecord list"

definition from_time :: "Query \<Rightarrow> int" where "from_time q = (if qFromTime q \<le> 0 then 0 else qFromTime q)"
definition to_time :: "Query \<Rightarrow> int" where "to_time q = (if qToTime q \<le> 0 then 2 ^ 62 - 1 else qToTime q)"

text \<open>The choice of the index.\<close>

definition candidates :: "search_env \<Rightarrow> 'e Db \<Rightarrow> Query \<Rightarrow> 'e \<Rightarrow> engine_error + bytes list" where
  "candidates S D q db =
     (let scan = (\<lambda>p. scanPrefixIDs D (scan_from p (from_time q)) (scan_to p (to_time q)) db);
          tokens = Tokenize (seUnicode S) (qText q)
      in if length tokens > 0 then intersectTerms S D tokens (from_time q) (to_time q) db
         else if qLevel q \<noteq> [] then scan (lvlPrefix (ToUpper (seUnicode S) (qLevel q)))
         else if qService q \<noteq> [] then scan (svcPrefix (qService q))
         else scan timePrefix)"

definition field_matches :: "LogRecord \<Rightarrow> bytes \<Rightarrow> bytes \<Rightarrow> bool" where
  "field_matches l k v =
     (case lrFields l of
        None \<Rightarrow> False
      | Some m \<Rightarrow> (case fmlookup m k of None \<Rightarrow> [] | Some w \<Rightarrow> w) = v)"

definition passes :: "search_env \<Rightarrow> Query \<Rightarrow> LogRecord \<Rightarrow> bool" where
  "passes S q l \<longleftrightarrow>
     (let U = seUnicode S in
      \<not> (qLevel q \<noteq> [] \<and> \<not> EqualFold U (lrLevel l) (qLevel q)) \<and>
      \<not> (qService q \<noteq> [] \<and> \<not> EqualFold U (lrService l) (qService q)) \<and>
      \<not> (qHost q \<noteq> [] \<and> \<not> EqualFold U (lrHost l) (qHost q)) \<and>
      \<not> (lrTimestamp l < from_time q \<or> lrTimestamp l > to_time q) \<and>
      list_all (\<lambda>k. field_matches l k (case fmlookup (qFields q) k of None \<Rightarrow> [] | Some v \<Rightarrow> v))
        (seRange S (qFields q)))"

fun fetch_loop :: "search_env \<Rightarrow> 'e Db \<Rightarrow> Query \<Rightarrow> bytes list \<Rightarrow> 'e \<Rightarrow> LogRecord list \<times> 'e" where
  "fetch_loop S D q [] db = ([], db)"
| "fetch_loop S D q (i # ids) db =
     (case GetByID S D i db of
        (Inl _, db1) \<Rightarrow> fetch_loop S D q ids db1
      | (Inr l, db1) \<Rightarrow>
          (case fetch_loop S D q ids db1 of (ls, db2) \<Rightarrow> (if passes S q l then l # ls else ls, db2)))"

text \<open>Addition of \<open>int\<close> values wraps around.\<close>

definition wrap64 :: "int \<Rightarrow> int" where
  "wrap64 x = (x + 2 ^ 63) mod 2 ^ 64 - 2 ^ 63"

text \<open>The page of the results; \<open>None\<close> is the panic of a slice expression with its end before its start.\<close>

definition page :: "int \<Rightarrow> int \<Rightarrow> 'a list \<Rightarrow> 'a list option" where
  "page limit0 offset0 xs =
     (let limit = (if limit0 \<le> 0 then 50 else limit0);
          offset = (if offset0 < 0 then 0 else offset0)
      in if offset < int (length xs)
         then
           let e = wrap64 (offset + limit);
               end' = (if e > int (length xs) then int (length xs) else e)
           in if end' < offset then None else Some (drop (nat offset) (take (nat end') xs))
         else Some [])"

definition Search :: "search_env \<Rightarrow> 'e Db \<Rightarrow> Query \<Rightarrow> 'e \<Rightarrow> (search_error + SearchResult) option \<times> 'e" where
  "Search S D q db =
     (case candidates S D q db of
        Inl err \<Rightarrow> (Some (Inl (ScanFailed err)), db)
      | Inr ids \<Rightarrow>
          (case fetch_loop S D q ids db of
             (matched, db1) \<Rightarrow>
               (case page (qLimit q) (qOffset q) (seSort S matched) of
                  None \<Rightarrow> (None, db1)
                | Some logs \<Rightarrow> (Some (Inr \<lparr>srTotalHits = int (length matched), srLogs = logs\<rparr>), db1))))"

section \<open>Aggregation\<close>

record Bucket =
  bkTimestamp :: int
  bkCount :: int
  bkByLevel :: "(bytes, int) fmap"

record AggregationResult =
  agIntervalMs :: int
  agBuckets :: "Bucket list"
  agTotal :: int

definition minute :: int where "minute = 60 * 10 ^ 9"

definition ParseInterval :: "search_env \<Rightarrow> bytes \<Rightarrow> int" where
  "ParseInterval S s =
     (case seDuration S s of None \<Rightarrow> minute | Some d \<Rightarrow> if d \<le> 0 then minute else d)"

definition add_log :: "int \<Rightarrow> LogRecord \<Rightarrow> (int, Bucket) fmap \<Rightarrow> (int, Bucket) fmap" where
  "add_log interval l m =
     (let start = (lrTimestamp l sdiv interval) * interval;
          b = (case fmlookup m start of
                 None \<Rightarrow> \<lparr>bkTimestamp = start, bkCount = 0, bkByLevel = fmempty\<rparr> | Some b \<Rightarrow> b);
          n = (case fmlookup (bkByLevel b) (lrLevel l) of None \<Rightarrow> 0 | Some n \<Rightarrow> n)
      in fmupd start (b\<lparr>bkCount := bkCount b + 1, bkByLevel := fmupd (lrLevel l) (n + 1) (bkByLevel b)\<rparr>) m)"

text \<open>The buckets are visited in the order of a map and then sorted; their timestamps are distinct.\<close>

definition AggregateGroups :: "LogRecord list \<Rightarrow> int \<Rightarrow> AggregationResult" where
  "AggregateGroups logs intervalNano =
     (let interval = (if intervalNano \<le> 0 then minute else intervalNano);
          m = fold (add_log interval) logs fmempty
      in \<lparr>agIntervalMs = interval sdiv 10 ^ 6,
          agBuckets = sort_key bkTimestamp (map snd (sorted_list_of_fmap m)),
          agTotal = int (length logs)\<rparr>)"

definition Aggregate ::
  "search_env \<Rightarrow> 'e Db \<Rightarrow> Query \<Rightarrow> bytes \<Rightarrow> 'e \<Rightarrow> (search_error + AggregationResult) option \<times> 'e" where
  "Aggregate S D q intervalStr db =
     (case Search S D (q\<lparr>qLimit := 100000, qOffset := 0\<rparr>) db of
        (None, db1) \<Rightarrow> (None, db1)
      | (Some (Inl err), db1) \<Rightarrow> (Some (Inl err), db1)
      | (Some (Inr res), db1) \<Rightarrow> (Some (Inr (AggregateGroups (srLogs res) (ParseInterval S intervalStr))), db1))"

end
