(* ===== verification/Server.thy ===== *)
theory Server
  imports Search
begin

text \<open>
  The HTTP server (\<open>pkg/server\<close>): the handlers of the log and key-value interface over the storage engine and
  the search engine, the routing of paths, and the logging wrapper. A request is given by its method, its
  path, its query parameters and its body; a response by its status, content type and body, where JSON
  bodies are the values that \<open>encoding/json\<close> is given. A panic in a handler, which \<open>net/http\<close> turns into a
  closed connection, is \<open>None\<close>.
\<close>

section \<open>Requests and responses\<close>

datatype http_method = GET | HEAD | POST | PUT | DELETE | OtherMethod

text \<open>\<open>rqQuery\<close> gives the first value of a query parameter, empty when there is none; \<open>rqBody\<close> is \<open>None\<close> when reading fails.\<close>

record Request =
  rqMethod :: http_method
  rqPath :: bytes
  rqQuery :: "string \<Rightarrow> bytes"
  rqBody :: "bytes option"

datatype http_error = Message string | OnSearch string search_error | OnEngine engine_error

datatype http_body =
    ErrorBody http_error
  | Text bytes
  | Ingested nat
  | Found SearchResult
  | Aggregated AggregationResult
  | Document LogRecord
  | Pairs "(bytes \<times> bytes) list"
  | Moved bytes

record Response =
  rsStatus :: nat
  rsType :: string
  rsBody :: http_body

definition http_fail :: "nat \<Rightarrow> http_error \<Rightarrow> Response" where
  "http_fail code err = \<lparr>rsStatus = code, rsType = ''text/plain; charset=utf-8'', rsBody = ErrorBody err\<rparr>"

definition json_ok :: "http_body \<Rightarrow> Response" where
  "json_ok b = \<lparr>rsStatus = 200, rsType = ''application/json'', rsBody = b\<rparr>"

definition bad_method :: Response where
  "bad_method = http_fail 405 (Message ''Method not allowed'')"

text \<open>The JSON object with one field, named status; written without a content type, one is sniffed.\<close>

definition status_json :: "string \<Rightarrow> bytes" where
  "status_json s = [123, 34] @ ascii ''status'' @ [34, 58, 34] @ ascii s @ [34, 125]"

definition written :: "nat \<Rightarrow> string \<Rightarrow> Response" where
  "written code s = \<lparr>rsStatus = code, rsType = '''', rsBody = Text (status_json s)\<rparr>"

section \<open>The engine behind the server\<close>

text \<open>The operations the handlers call beyond those of the search engine; compaction may panic.\<close>

record ('e, 'f) ServerDb = "'e Db" +
  sdFlush :: "'e \<Rightarrow> engine_error option \<times> 'e"
  sdCompact :: "'e \<Rightarrow> (engine_error option \<times> 'e) option"
  sdStats :: "'e \<Rightarrow> 'f EngineStats"

definition server_db :: "'f float_ops \<Rightarrow> 'm Manifest \<Rightarrow> ('m Engine \<Rightarrow> engine_env) \<Rightarrow> ('m Engine \<Rightarrow> compact_env) \<Rightarrow> ('m Engine, 'f) ServerDb" where
  "server_db F M E C = Db.extend (engine_db M E)
     \<lparr>sdFlush = (\<lambda>e. Flush M (E e) e), sdCompact = (\<lambda>e. Engine_Compact F M (C e) e), sdStats = Stats F M\<rparr>"

section \<open>Numbers in queries\<close>

datatype parse_error = SyntaxError | RangeError

text \<open>\<open>strconv.ParseUint\<close> in base 10 and \<open>strconv.Atoi\<close>; a number out of range gives the nearest one and an error.\<close>

fun parse_digits :: "nat \<Rightarrow> bytes \<Rightarrow> nat \<times> parse_error option" where
  "parse_digits n [] = (n, None)"
| "parse_digits n (c # s) =
     (if \<not> is_digit c then (0, Some SyntaxError)
      else if 10 * n + (unat c - 48) \<ge> 2 ^ 64 then (2 ^ 64 - 1, Some RangeError)
      else parse_digits (10 * n + (unat c - 48)) s)"

definition Atoi :: "bytes \<Rightarrow> int \<times> parse_error option" where
  "Atoi s0 =
     (let neg = (case s0 of c # _ \<Rightarrow> c = 45 | [] \<Rightarrow> False);
          s = (case s0 of c # t \<Rightarrow> if c = 43 \<or> c = 45 then t else s0 | [] \<Rightarrow> [])
      in if s = [] then (0, Some SyntaxError)
         else case parse_digits 0 s of
           (_, Some SyntaxError) \<Rightarrow> (0, Some SyntaxError)
         | (n, _) \<Rightarrow>
             if \<not> neg \<and> n \<ge> 2 ^ 63 then (2 ^ 63 - 1, Some RangeError)
             else if neg \<and> n > 2 ^ 63 then (- (2 ^ 63), Some RangeError)
             else (if neg then - int n else int n, None))"

section \<open>Ingestion\<close>

text \<open>
  \<open>encoding/json\<close> for the bodies of requests: an array of records, where \<open>null\<close> is a nil pointer, and a query.
\<close>

record json_env =
  jsRecords :: "bytes \<Rightarrow> LogRecord option list option"
  jsQuery :: "bytes \<Rightarrow> Query option"

text \<open>
  The lines of a \<open>bufio.Scanner\<close>: scanning ends without a sign of it at a line that does not fit in the
  buffer of 64 KB. The body is trimmed, so its last line is not empty.
\<close>

definition drop_cr :: "bytes \<Rightarrow> bytes" where
  "drop_cr l = (if l \<noteq> [] \<and> last l = 13 then butlast l else l)"

definition scan_lines :: "bytes \<Rightarrow> bytes list" where
  "scan_lines s = map drop_cr (takeWhile (\<lambda>l. length l < 64 * 1024) (Split 10 s))"

text \<open>\<open>S i\<close> is the environment of the call for the \<open>i\<close>th record.\<close>

fun parse_lines :: "(nat \<Rightarrow> search_env) \<Rightarrow> bytes list \<Rightarrow> LogRecord list \<Rightarrow> search_error + LogRecord list" where
  "parse_lines S [] logs = Inr logs"
| "parse_lines S (l # ls) logs =
     (let line = TrimSpace (seUnicode (S (length logs))) l
      in if line = [] then parse_lines S ls logs
         else case ParseLogRecord (S (length logs)) line of
           Inl err \<Rightarrow> Inl err
         | Inr r \<Rightarrow> parse_lines S ls (logs @ [r]))"

definition request_logs :: "(nat \<Rightarrow> search_env) \<Rightarrow> json_env \<Rightarrow> bytes \<Rightarrow> http_error + LogRecord option list" where
  "request_logs S J body =
     (case TrimSpace (seUnicode (S 0)) body of
        [] \<Rightarrow> Inl (Message ''Unsupported body payload'')
      | c # rest \<Rightarrow>
          if c = 91 then
            (case jsRecords J (c # rest) of None \<Rightarrow> Inl (OnSearch ''Invalid JSON array'' InvalidJSON) | Some logs \<Rightarrow> Inr logs)
          else if c = 123 then
            (if 10 \<in> set (c # rest) then
               (case parse_lines S (scan_lines (c # rest)) [] of
                  Inl err \<Rightarrow> Inl (OnSearch ''Invalid NDJSON line'' err)
                | Inr logs \<Rightarrow> Inr (map Some logs))
             else
               (case ParseLogRecord (S 0) (c # rest) of
                  Inl err \<Rightarrow> Inl (OnSearch ''Invalid log JSON'' err)
                | Inr r \<Rightarrow> Inr [Some r]))
          else Inl (Message ''Unsupported body payload''))"

text \<open>\<open>IngestBatch\<close> on pointers: a nil pointer panics when its turn comes.\<close>

definition ingest_pointers ::
  "(nat \<Rightarrow> search_env) \<Rightarrow> ('e, 'z) Db_scheme \<Rightarrow> LogRecord option list \<Rightarrow> 'e \<Rightarrow> (nat \<times> search_error option) option \<times> 'e" where
  "ingest_pointers S D logs db =
     (let before = takeWhile (\<lambda>l. l \<noteq> None) logs
      in case IngestBatch S (Db.truncate D) (map the before) db of
           (n, err, db1) \<Rightarrow> (if err = None \<and> length before < length logs then None else Some (n, err), db1))"

definition handleIngest ::
  "(nat \<Rightarrow> search_env) \<Rightarrow> json_env \<Rightarrow> ('e, 'f) ServerDb \<Rightarrow> Request \<Rightarrow> 'e \<Rightarrow> Response option \<times> 'e" where
  "handleIngest S J D r db =
     (if rqMethod r \<noteq> POST then (Some bad_method, db)
      else case rqBody r of
        None \<Rightarrow> (Some (http_fail 400 (Message ''Failed reading request body'')), db)
      | Some body \<Rightarrow>
          (case request_logs S J body of
             Inl err \<Rightarrow> (Some (http_fail 400 err), db)
           | Inr logs \<Rightarrow>
               (case ingest_pointers S D logs db of
                  (None, db1) \<Rightarrow> (None, db1)
                | (Some (n, Some err), db1) \<Rightarrow> (Some (http_fail 500 (OnSearch ''Ingestion failed'' err)), db1)
                | (Some (n, None), db1) \<Rightarrow> (Some (json_ok (Ingested n)), db1))))"

section \<open>Queries\<close>

text \<open>\<open>time.Now().Add(-d).UnixNano()\<close> when the parameter parses.\<close>

definition since_time :: "search_env \<Rightarrow> bytes \<Rightarrow> Query \<Rightarrow> Query" where
  "since_time S s q =
     (if s = [] then q
      else case seDuration S s of None \<Rightarrow> q | Some d \<Rightarrow> q\<lparr>qFromTime := wrap64 (seNow S - d)\<rparr>)"

definition empty_query :: Query where
  "empty_query = \<lparr>qText = [], qLevel = [], qService = [], qHost = [], qFromTime = 0, qToTime = 0,
     qFields = fmempty, qLimit = 0, qOffset = 0\<rparr>"

definition get_query :: "search_env \<Rightarrow> Request \<Rightarrow> Query" where
  "get_query S r =
     (let q = since_time S (rqQuery r ''since'') (empty_query\<lparr>qText := rqQuery r ''query'', qLevel := rqQuery r ''level'',
            qService := rqQuery r ''service'', qHost := rqQuery r ''host''\<rparr>)
      in if rqQuery r ''limit'' = [] then q else q\<lparr>qLimit := fst (Atoi (rqQuery r ''limit''))\<rparr>)"

definition handleSearch ::
  "search_env \<Rightarrow> json_env \<Rightarrow> ('e, 'f) ServerDb \<Rightarrow> Request \<Rightarrow> 'e \<Rightarrow> Response option \<times> 'e" where
  "handleSearch S J D r db =
     (let run = (\<lambda>q. case Search S (Db.truncate D) q db of
            (None, db1) \<Rightarrow> (None, db1)
          | (Some (Inl err), db1) \<Rightarrow> (Some (http_fail 500 (OnSearch ''Search error'' err)), db1)
          | (Some (Inr res), db1) \<Rightarrow> (Some (json_ok (Found res)), db1))
      in case rqMethod r of
           POST \<Rightarrow>
             (case Option.bind (rqBody r) (jsQuery J) of
                None \<Rightarrow> (Some (http_fail 400 (Message ''Invalid query payload'')), db)
              | Some q \<Rightarrow> run q)
         | GET \<Rightarrow> run (get_query S r)
         | _ \<Rightarrow> (Some bad_method, db))"

definition handleAggregate ::
  "search_env \<Rightarrow> ('e, 'f) ServerDb \<Rightarrow> Request \<Rightarrow> 'e \<Rightarrow> Response option \<times> 'e" where
  "handleAggregate S D r db =
     (if rqMethod r \<noteq> GET then (Some bad_method, db)
      else
        let q = since_time S (rqQuery r ''since'') (empty_query\<lparr>qText := rqQuery r ''query'', qLevel := rqQuery r ''level'',
              qService := rqQuery r ''service''\<rparr>);
            interval = (if rqQuery r ''interval'' = [] then ascii ''1m'' else rqQuery r ''interval'')
        in case Aggregate S (Db.truncate D) q interval db of
             (None, db1) \<Rightarrow> (None, db1)
           | (Some (Inl err), db1) \<Rightarrow> (Some (http_fail 500 (OnSearch ''Aggregation error'' err)), db1)
           | (Some (Inr agg), db1) \<Rightarrow> (Some (json_ok (Aggregated agg)), db1))"

definition handleGetLog :: "search_env \<Rightarrow> ('e, 'f) ServerDb \<Rightarrow> Request \<Rightarrow> 'e \<Rightarrow> Response option \<times> 'e" where
  "handleGetLog S D r db =
     (let i = TrimPrefix (rqPath r) (ascii ''/api/v1/logs/'')
      in if i = [] then (Some (http_fail 400 (Message ''Log ID required'')), db)
         else case GetByID S (Db.truncate D) i db of
           (Inl err, db1) \<Rightarrow>
             (Some (if err = GetError KeyNotFound then http_fail 404 (Message ''Log not found'')
                    else http_fail 500 (OnSearch '''' err)), db1)
         | (Inr l, db1) \<Rightarrow> (Some (json_ok (Document l)), db1))"

section \<open>Keys and values\<close>

definition handleKV :: "('e, 'f) ServerDb \<Rightarrow> Request \<Rightarrow> 'e \<Rightarrow> Response option \<times> 'e" where
  "handleKV D r db =
     (let key = TrimPrefix (rqPath r) (ascii ''/api/v1/kv/'')
      in if key = [] then (Some (http_fail 400 (Message ''Key required'')), db)
         else case rqMethod r of
           GET \<Rightarrow>
             (case dbGet D key db of
                (Inl err, db1) \<Rightarrow>
                  (Some (if err = KeyNotFound then http_fail 404 (Message ''Key not found'')
                         else http_fail 500 (OnEngine err)), db1)
              | (Inr val, db1) \<Rightarrow>
                  (Some \<lparr>rsStatus = 200, rsType = ''application/octet-stream'', rsBody = Text (contents val)\<rparr>, db1))
         | HEAD \<Rightarrow> (Some bad_method, db)
         | OtherMethod \<Rightarrow> (Some bad_method, db)
         | DELETE \<Rightarrow>
             (case dbDelete D key db of
                (Some err, db1) \<Rightarrow> (Some (http_fail 500 (OnEngine err)), db1)
              | (None, db1) \<Rightarrow> (Some (written 200 ''deleted''), db1))
         | _ \<Rightarrow>
             (case rqBody r of
                None \<Rightarrow> (Some (http_fail 400 (Message ''Failed to read body'')), db)
              | Some val \<Rightarrow>
                  (case dbPut D key (Some val) db of
                     (Some err, db1) \<Rightarrow> (Some (http_fail 500 (OnEngine err)), db1)
                   | (None, db1) \<Rightarrow> (Some (written 201 ''created''), db1))))"

fun scan_pairs :: "bytes \<Rightarrow> int \<Rightarrow> Entry list \<Rightarrow> (bytes \<times> bytes) list \<Rightarrow> (bytes \<times> bytes) list" where
  "scan_pairs endKey limit [] results = results"
| "scan_pairs endKey limit (x # es) results =
     (if int (length results) < limit
      then if length endKey > 0 \<and> Key x > endKey then results
           else scan_pairs endKey limit es (results @ [(Key x, contents (Value x))])
      else results)"

definition scan_limit :: "bytes \<Rightarrow> int" where
  "scan_limit s =
     (if s = [] then 100 else case Atoi s of (l, err) \<Rightarrow> if err = None \<and> l > 0 then l else 100)"

definition handleKVScan :: "('e, 'f) ServerDb \<Rightarrow> Request \<Rightarrow> 'e \<Rightarrow> Response option \<times> 'e" where
  "handleKVScan D r db =
     (case dbScan D (rqQuery r ''start'') (rqQuery r ''end'') db of
        Inl err \<Rightarrow> (if err = Panic then None else Some (http_fail 500 (OnEngine err)), db)
      | Inr es \<Rightarrow>
          (Some (json_ok (Pairs (scan_pairs (rqQuery r ''end'') (scan_limit (rqQuery r ''limit'')) es []))), db))"

section \<open>Maintenance and metrics\<close>

definition handleFlush :: "('e, 'f) ServerDb \<Rightarrow> Request \<Rightarrow> 'e \<Rightarrow> Response option \<times> 'e" where
  "handleFlush D r db =
     (if rqMethod r \<noteq> POST then (Some bad_method, db)
      else case sdFlush D db of
        (Some err, db1) \<Rightarrow> (Some (http_fail 500 (OnEngine err)), db1)
      | (None, db1) \<Rightarrow> (Some (written 200 ''flushed''), db1))"

definition handleCompact :: "('e, 'f) ServerDb \<Rightarrow> Request \<Rightarrow> 'e \<Rightarrow> Response option \<times> 'e" where
  "handleCompact D r db =
     (if rqMethod r \<noteq> POST then (Some bad_method, db)
      else case sdCompact D db of
        None \<Rightarrow> (None, db)
      | Some (Some err, db1) \<Rightarrow> (Some (http_fail 500 (OnEngine err)), db1)
      | Some (None, db1) \<Rightarrow> (Some (written 200 ''compacted''), db1))"

text \<open>The verb \<open>%d\<close>, and one metric with its help and type.\<close>

definition fmt_d :: "int \<Rightarrow> bytes" where
  "fmt_d n = (if 0 \<le> n then dec (nat n) else 45 # dec (nat (- n)))"

definition metric :: "string \<Rightarrow> string \<Rightarrow> string \<Rightarrow> int \<Rightarrow> bytes" where
  "metric name help kind n =
     ascii ''# HELP '' @ ascii name @ ascii '' '' @ ascii help @ [10] @
     ascii ''# TYPE '' @ ascii name @ ascii '' '' @ ascii kind @ [10] @
     ascii name @ ascii '' '' @ fmt_d n @ [10, 10]"

definition metrics_text :: "'f EngineStats \<Rightarrow> bytes" where
  "metrics_text st =
     metric ''lsm_active_mem_bytes'' ''Memory size of active memtable in bytes'' ''gauge'' (esActiveMemBytes st) @
     metric ''lsm_active_mem_entries'' ''Number of entries in active memtable'' ''gauge'' (esActiveMemEntries st) @
     metric ''lsm_immutable_mem_bytes'' ''Memory size of immutable memtable'' ''gauge'' (esImmMemBytes st) @
     metric ''lsm_total_sstables'' ''Total on-disk SSTable files'' ''gauge'' (esTotalSSTables st) @
     metric ''lsm_total_disk_bytes'' ''Total size of all SSTable data on disk'' ''gauge'' (esTotalDiskBytes st) @
     metric ''lsm_puts_total'' ''Total write mutations processed'' ''counter'' (esTotalPuts st) @
     metric ''lsm_deletes_total'' ''Total delete tombstones processed'' ''counter'' (esTotalDeletes st) @
     metric ''lsm_gets_total'' ''Total point lookups'' ''counter'' (esTotalGets st) @
     metric ''lsm_bloom_hits_total'' ''Total positive Bloom filter checks'' ''counter'' (esBloomFilterHits st) @
     metric ''lsm_bloom_misses_total'' ''Total negative Bloom filter checks (disk seeks avoided)'' ''counter''
       (esBloomFilterMiss st) @
     metric ''lsm_flushes_total'' ''Total memtable to SSTable flushes'' ''counter'' (esTotalFlushes st) @
     metric ''lsm_compactions_total'' ''Total leveled compaction routines completed'' ''counter''
       (csTotalCompactions (esCompactionStats st))"

definition handleMetrics :: "('e, 'f) ServerDb \<Rightarrow> Request \<Rightarrow> 'e \<Rightarrow> Response option \<times> 'e" where
  "handleMetrics D r db =
     (Some \<lparr>rsStatus = 200, rsType = ''text/plain; version=0.0.4'', rsBody = Text (metrics_text (sdStats D db))\<rparr>, db)"

section \<open>Routes\<close>

text \<open>What the server is made with.\<close>

record ('e, 'f) APIHandler =
  ahDb :: "('e, 'f) ServerDb"
  ahEnv :: "nat \<Rightarrow> search_env"
  ahJSON :: json_env

definition fixed_json :: "string \<Rightarrow> Response" where
  "fixed_json s = json_ok (Text (status_json s))"

text \<open>
  The cleaning of paths by \<open>http.ServeMux\<close>, with \<open>path.Clean\<close>: empty and dot segments go, two dots take the
  segment before them along, and a final slash stays.
\<close>

fun path_segments :: "bytes list \<Rightarrow> bytes list \<Rightarrow> bytes list" where
  "path_segments acc [] = rev acc"
| "path_segments acc (s # ss) =
     (if s = [] \<or> s = ascii ''.'' then path_segments acc ss
      else if s = ascii ''..'' then path_segments (tl acc) ss
      else path_segments (s # acc) ss)"

definition CleanPath :: "bytes \<Rightarrow> bytes" where
  "CleanPath p =
     (let p1 = (case p of c # _ \<Rightarrow> if c = 47 then p else 47 # p | [] \<Rightarrow> [47]);
          segs = path_segments [] (Split 47 p1);
          np = (if segs = [] then [47] else concat (map (\<lambda>s. 47 # s) segs))
      in if last p1 = 47 \<and> np \<noteq> [47] then np @ [47] else np)"

text \<open>The redirect of \<open>http.Redirect\<close>, which has a content type for \<open>GET\<close> and \<open>HEAD\<close> only.\<close>

definition moved :: "http_method \<Rightarrow> bytes \<Rightarrow> Response" where
  "moved meth path =
     \<lparr>rsStatus = 301, rsType = (if meth = GET \<or> meth = HEAD then ''text/html; charset=utf-8'' else ''''),
      rsBody = Moved path\<rparr>"

text \<open>
  \<open>http.ServeMux\<close> with the patterns of \<open>NewServer\<close>: a path that is not clean, or lacks only the slash of a
  pattern, is redirected; then an exact pattern wins, then the longest pattern that ends with a slash and is
  a prefix. Paths are those sent without escaped slashes and dots, and the method is not CONNECT.
\<close>

definition serve_mux :: "('e, 'f) APIHandler \<Rightarrow> Request \<Rightarrow> 'e \<Rightarrow> Response option \<times> 'e" where
  "serve_mux h r db =
     (let D = ahDb h; S = ahEnv h; path = CleanPath (rqPath r)
      in if path = ascii ''/api/v1/logs'' \<or> path = ascii ''/api/v1/kv'' then (Some (moved (rqMethod r) (path @ ascii ''/'')), db)
         else if path \<noteq> rqPath r then (Some (moved (rqMethod r) path), db)
         else if path = ascii ''/api/v1/logs/ingest'' then handleIngest S (ahJSON h) D r db
         else if path = ascii ''/api/v1/logs/search'' then handleSearch (S 0) (ahJSON h) D r db
         else if path = ascii ''/api/v1/logs/aggregate'' then handleAggregate (S 0) D r db
         else if path = ascii ''/api/v1/kv/scan'' then handleKVScan D r db
         else if path = ascii ''/api/v1/db/flush'' then handleFlush D r db
         else if path = ascii ''/api/v1/db/compact'' then handleCompact D r db
         else if path = ascii ''/metrics'' then handleMetrics D r db
         else if path = ascii ''/healthz'' then (Some (fixed_json ''ok''), db)
         else if path = ascii ''/readyz'' then (Some (fixed_json ''ready''), db)
         else if HasPrefix path (ascii ''/api/v1/logs/'') then handleGetLog (S 0) D r db
         else if HasPrefix path (ascii ''/api/v1/kv/'') then handleKV D r db
         else (Some (http_fail 404 (Message ''404 page not found'')), db))"

text \<open>
  The wrapper around the routes: the response goes through unchanged, and a line is logged with the method,
  the path and the status, but not when the handler panics.
\<close>

record log_line =
  llMethod :: http_method
  llPath :: bytes
  llStatus :: nat

definition LoggingMiddleware ::
  "(Request \<Rightarrow> 'e \<Rightarrow> Response option \<times> 'e) \<Rightarrow> Request \<Rightarrow> 'e \<Rightarrow> Response option \<times> log_line option \<times> 'e" where
  "LoggingMiddleware next_handler r db =
     (case next_handler r db of
        (None, db1) \<Rightarrow> (None, None, db1)
      | (Some resp, db1) \<Rightarrow>
          (Some resp, Some \<lparr>llMethod = rqMethod r, llPath = rqPath r, llStatus = rsStatus resp\<rparr>, db1))"

section \<open>The server\<close>

text \<open>Durations are nanoseconds.\<close>

record Config =
  cfAddr :: bytes
  cfReadTimeout :: int
  cfWriteTimeout :: int

definition server_config :: "Config \<Rightarrow> Config" where
  "server_config cfg =
     \<lparr>cfAddr = (if cfAddr cfg = [] then ascii '':8080'' else cfAddr cfg),
      cfReadTimeout = (if cfReadTimeout cfg \<le> 0 then 10 * 10 ^ 9 else cfReadTimeout cfg),
      cfWriteTimeout = (if cfWriteTimeout cfg \<le> 0 then 30 * 10 ^ 9 else cfWriteTimeout cfg)\<rparr>"

record ('e, 'f) Server =
  svConfig :: Config
  svHandler :: "Request \<Rightarrow> 'e \<Rightarrow> Response option \<times> log_line option \<times> 'e"

definition NewServer :: "Config \<Rightarrow> ('e, 'f) APIHandler \<Rightarrow> ('e, 'f) Server" where
  "NewServer cfg h = \<lparr>svConfig = server_config cfg, svHandler = LoggingMiddleware (serve_mux h)\<rparr>"

end
