(* ===== verification/Client.thy ===== *)
theory Client
  imports Server
begin

text \<open>
  What the command line tools take from Go's library: the flags of package \<open>flag\<close>, URLs of \<open>net/url\<close> as
  far as the tools build them, and the client of \<open>net/http\<close> with its redirects.
\<close>

section \<open>Flags\<close>

datatype flag_value = StrFlag bytes | IntFlag int | BoolFlag bool

datatype flag_error = HelpWanted | BadSyntax bytes | UndefinedFlag bytes | BadValue bytes bytes | NeedsArgument bytes

definition ParseBool :: "bytes \<Rightarrow> bool option" where
  "ParseBool s =
     (if s \<in> set (map ascii [''1'', ''t'', ''T'', ''TRUE'', ''true'', ''True'']) then Some True
      else if s \<in> set (map ascii [''0'', ''f'', ''F'', ''FALSE'', ''false'', ''False'']) then Some False
      else None)"

text \<open>\<open>P\<close> is \<open>strconv.ParseInt\<close> with base 0 and 64 bits.\<close>

fun set_flag :: "(bytes \<Rightarrow> int option) \<Rightarrow> flag_value \<Rightarrow> bytes \<Rightarrow> flag_value option" where
  "set_flag P (StrFlag _) v = Some (StrFlag v)"
| "set_flag P (IntFlag _) v = map_option IntFlag (P v)"
| "set_flag P (BoolFlag _) v = map_option BoolFlag (ParseBool v)"

type_synonym flag_set = "(bytes \<times> flag_value) list"

definition assign_flag :: "bytes \<Rightarrow> flag_value \<Rightarrow> flag_set \<Rightarrow> flag_set" where
  "assign_flag n x fs = map (\<lambda>(m, y). (m, if m = n then x else y)) fs"

text \<open>The name and the value of an argument like \<open>--name=value\<close> without its dashes.\<close>

definition cut_value :: "bytes \<Rightarrow> bytes \<times> bytes option" where
  "cut_value s =
     (let n = takeWhile (\<lambda>b. b \<noteq> 61) s
      in (n, if length n < length s then Some (drop (length n + 1) s) else None))"

text \<open>\<open>FlagSet.Parse\<close>: the flags up to the first other argument, and the arguments from there on.\<close>

fun parse_flags :: "(bytes \<Rightarrow> int option) \<Rightarrow> flag_set \<Rightarrow> bytes list \<Rightarrow> flag_error + flag_set \<times> bytes list" where
  "parse_flags P fs [] = Inr (fs, [])"
| "parse_flags P fs (s # args) =
     (if length s < 2 \<or> hd s \<noteq> 45 then Inr (fs, s # args)
      else if s = [45, 45] then Inr (fs, args)
      else
        let nm = (if s ! 1 = 45 then drop 2 s else drop 1 s)
        in if nm = [] \<or> hd nm = 45 \<or> hd nm = 61 then Inl (BadSyntax s)
           else case cut_value nm of
             (n, val) \<Rightarrow>
               (case map_of fs n of
                  None \<Rightarrow> Inl (if n = ascii ''help'' \<or> n = ascii ''h'' then HelpWanted else UndefinedFlag n)
                | Some (BoolFlag b) \<Rightarrow>
                    (case val of
                       None \<Rightarrow> parse_flags P (assign_flag n (BoolFlag True) fs) args
                     | Some v \<Rightarrow>
                         (case set_flag P (BoolFlag b) v of
                            None \<Rightarrow> Inl (BadValue n v)
                          | Some x \<Rightarrow> parse_flags P (assign_flag n x fs) args))
                | Some old \<Rightarrow>
                    (case val of
                       Some v \<Rightarrow>
                         (case set_flag P old v of
                            None \<Rightarrow> Inl (BadValue n v)
                          | Some x \<Rightarrow> parse_flags P (assign_flag n x fs) args)
                     | None \<Rightarrow>
                         (case args of
                            [] \<Rightarrow> Inl (NeedsArgument n)
                          | v # args1 \<Rightarrow>
                              (case set_flag P old v of
                                 None \<Rightarrow> Inl (BadValue n v)
                               | Some x \<Rightarrow> parse_flags P (assign_flag n x fs) args1)))))"

definition str_flag :: "flag_set \<Rightarrow> string \<Rightarrow> bytes" where
  "str_flag fs n = (case map_of fs (ascii n) of Some (StrFlag s) \<Rightarrow> s | _ \<Rightarrow> [])"

definition int_flag :: "flag_set \<Rightarrow> string \<Rightarrow> int" where
  "int_flag fs n = (case map_of fs (ascii n) of Some (IntFlag i) \<Rightarrow> i | _ \<Rightarrow> 0)"

definition bool_flag :: "flag_set \<Rightarrow> string \<Rightarrow> bool" where
  "bool_flag fs n = (case map_of fs (ascii n) of Some (BoolFlag b) \<Rightarrow> b | _ \<Rightarrow> False)"

section \<open>URLs\<close>

definition unhex :: "byte \<Rightarrow> byte option" where
  "unhex c =
     (if 48 \<le> c \<and> c \<le> 57 then Some (c - 48)
      else if 97 \<le> c \<and> c \<le> 102 then Some (c - 87)
      else if 65 \<le> c \<and> c \<le> 70 then Some (c - 55)
      else None)"

text \<open>\<open>url.unescape\<close>; in a query a plus is a space.\<close>

fun unescape :: "bool \<Rightarrow> bytes \<Rightarrow> bytes option" where
  "unescape inQuery [] = Some []"
| "unescape inQuery (c # s) =
     (if c = 37 then
        (case s of
           a # b # t \<Rightarrow>
             (case (unhex a, unhex b) of
                (Some x, Some y) \<Rightarrow> map_option ((#) (16 * x + y)) (unescape inQuery t)
              | _ \<Rightarrow> None)
         | _ \<Rightarrow> None)
      else map_option ((#) (if inQuery \<and> c = 43 then 32 else c)) (unescape inQuery s))"

text \<open>
  \<open>url.Parse\<close> on what follows the address of the server, which itself has no query and no fragment: the path
  and the raw query.
\<close>

definition parse_target :: "bytes \<Rightarrow> (bytes \<times> bytes) option" where
  "parse_target t =
     (let u = takeWhile (\<lambda>b. b \<noteq> 35) t;
          path = takeWhile (\<lambda>b. b \<noteq> 63) u
      in if list_ex (\<lambda>b. b < 32 \<or> b = 127) t \<or> unescape False (drop (length u + 1) t) = None then None
         else map_option (\<lambda>p. (p, drop (length path + 1) u)) (unescape False path))"

text \<open>\<open>url.ParseQuery\<close>: pairs that are not well-formed are left out.\<close>

fun parse_query :: "bytes list \<Rightarrow> (bytes \<times> bytes) list" where
  "parse_query [] = []"
| "parse_query (kv # rest) =
     (if kv = [] \<or> 59 \<in> set kv then parse_query rest
      else
        let k = takeWhile (\<lambda>b. b \<noteq> 61) kv
        in case (unescape True k, unescape True (drop (length k + 1) kv)) of
             (Some n, Some v) \<Rightarrow> (n, v) # parse_query rest
           | _ \<Rightarrow> parse_query rest)"

definition query_get :: "bytes \<Rightarrow> string \<Rightarrow> bytes" where
  "query_get raw n = (case map_of (parse_query (Split 38 raw)) (ascii n) of None \<Rightarrow> [] | Some v \<Rightarrow> v)"

section \<open>The client\<close>

datatype request_body = NoBody | RawBody bytes | QueryBody Query

record client_request =
  crServer :: bytes
  crMethod :: http_method
  crPath :: bytes
  crQuery :: bytes
  crBody :: request_body

text \<open>
  What a tool sees of the world: the environment variable \<open>LSM_SERVER\<close>, the number parser of the flags,
  \<open>time.ParseDuration\<close>, the clock, files (\<open>Some None\<close> opens and cannot be read), its input, and one
  exchange with a server, which fails with \<open>None\<close>.
\<close>

record 'w client =
  clServer :: bytes
  clParseInt :: "bytes \<Rightarrow> int option"
  clDuration :: "bytes \<Rightarrow> int option"
  clNow :: int
  clFile :: "bytes \<Rightarrow> bytes option option"
  clStdin :: "bytes option"
  clSend :: "client_request \<Rightarrow> 'w \<Rightarrow> Response option \<times> 'w"

text \<open>
  \<open>http.Client.Do\<close>: a permanent redirect is followed with \<open>GET\<close> and without the body, whatever the method
  was; ten requests at most.
\<close>

fun http_do :: "nat \<Rightarrow> 'w client \<Rightarrow> client_request \<Rightarrow> 'w \<Rightarrow> Response option \<times> 'w" where
  "http_do n c r w =
     (case clSend c r w of
        (None, w1) \<Rightarrow> (None, w1)
      | (Some resp, w1) \<Rightarrow>
          (case (rsStatus resp, rsBody resp) of
             (_, Moved path) \<Rightarrow>
               (if rsStatus resp \<noteq> 301 then (Some resp, w1)
                else case n of
                  0 \<Rightarrow> (None, w1)
                | Suc m \<Rightarrow> http_do m c (r\<lparr>crMethod := GET, crPath := path, crBody := NoBody\<rparr>) w1)
           | _ \<Rightarrow> (Some resp, w1)))"

declare http_do.simps [simp del]

text \<open>A request to a target on the server; \<open>None\<close> when the URL does not parse.\<close>

definition new_request :: "bytes \<Rightarrow> http_method \<Rightarrow> bytes \<Rightarrow> request_body \<Rightarrow> client_request option" where
  "new_request server meth target body =
     map_option (\<lambda>(path, query).
       \<lparr>crServer = server, crMethod = meth, crPath = path, crQuery = query, crBody = body\<rparr>) (parse_target target)"

text \<open>\<open>http.Get\<close> and \<open>http.Post\<close>, which report a URL that does not parse as an error.\<close>

definition http_call ::
  "'w client \<Rightarrow> bytes \<Rightarrow> http_method \<Rightarrow> bytes \<Rightarrow> request_body \<Rightarrow> 'w \<Rightarrow> Response option \<times> 'w" where
  "http_call c server meth target body w =
     (case new_request server meth target body of
        None \<Rightarrow> (None, w)
      | Some r \<Rightarrow> http_do 9 c r w)"

section \<open>The server at the other end\<close>

text \<open>
  The request the server reads; \<open>enc\<close> is \<open>encoding/json\<close> for a query. A space in the query breaks the
  request line.
\<close>

definition server_request :: "(Query \<Rightarrow> bytes) \<Rightarrow> client_request \<Rightarrow> Request" where
  "server_request enc r =
     \<lparr>rqMethod = crMethod r, rqPath = crPath r, rqQuery = query_get (crQuery r),
      rqBody = Some (case crBody r of NoBody \<Rightarrow> [] | RawBody b \<Rightarrow> b | QueryBody q \<Rightarrow> enc q)\<rparr>"

definition local_send ::
  "(Query \<Rightarrow> bytes) \<Rightarrow> ('e, 'f) APIHandler \<Rightarrow> client_request \<Rightarrow> 'e \<Rightarrow> Response option \<times> 'e" where
  "local_send enc h r db =
     (if 32 \<in> set (crQuery r) then (Some (http_fail 400 (Message ''400 Bad Request'')), db)
      else serve_mux h (server_request enc r) db)"

end
