(* ===== verification/Lsmctl.thy ===== *)
theory Lsmctl
  imports Client
begin

text \<open>
  The command line client (\<open>cmd/lsmctl/main.go\<close>). A run prints lines to its output and its error output and
  exits with a status; a line is given by the values handed to \<open>fmt\<close>. \<open>None\<close> is a panic.
\<close>

section \<open>Runs\<close>

datatype cli_line =
    Line bytes
  | HelpText
  | UnknownCommand bytes
  | UsageOf string
  | Failure string
  | Rejected string nat http_body
  | Answer string http_body
  | Matches int
  | Match int bytes bytes bytes bytes
  | HistogramHead bytes int
  | HistogramBar int int int "(bytes, int) fmap"
  | ScannedKeys nat
  | PairLine bytes bytes

record cli_run =
  clOut :: "cli_line list"
  clErr :: "cli_line list"
  clExit :: nat

definition printed :: "cli_line list \<Rightarrow> cli_run" where
  "printed ls = \<lparr>clOut = ls, clErr = [], clExit = 0\<rparr>"

text \<open>A message on the error output, with and without \<open>os.Exit(1)\<close>.\<close>

definition exits :: "cli_line \<Rightarrow> cli_run" where
  "exits l = \<lparr>clOut = [], clErr = [l], clExit = 1\<rparr>"

definition complains :: "cli_line \<Rightarrow> cli_run" where
  "complains l = \<lparr>clOut = [], clErr = [l], clExit = 0\<rparr>"

text \<open>\<open>flag.ExitOnError\<close>: the flags are parsed, or the run ends with status 2, after a call for help with 0.\<close>

definition with_flags ::
  "'w client \<Rightarrow> string \<Rightarrow> flag_set \<Rightarrow> bytes list \<Rightarrow> (flag_set \<Rightarrow> bytes list \<Rightarrow> 'w \<Rightarrow> cli_run option \<times> 'w)
     \<Rightarrow> 'w \<Rightarrow> cli_run option \<times> 'w" where
  "with_flags c name fs args k w =
     (case parse_flags (clParseInt c) fs args of
        Inl err \<Rightarrow> (Some \<lparr>clOut = [], clErr = [UsageOf name], clExit = (if err = HelpWanted then 0 else 2)\<rparr>, w)
      | Inr (fs1, rem_args) \<Rightarrow> k fs1 rem_args w)"

definition local_server :: bytes where
  "local_server = ascii ''http://localhost:8080''"

text \<open>\<open>strings.TrimRight(u, "/")\<close>.\<close>

definition trim_slashes :: "bytes \<Rightarrow> bytes" where
  "trim_slashes s = rev (dropWhile (\<lambda>b. b = 47) (rev s))"

definition defaultServerURL :: "'w client \<Rightarrow> bytes" where
  "defaultServerURL c = (if clServer c \<noteq> [] then trim_slashes (clServer c) else local_server)"

section \<open>Logs\<close>

definition lsmctl_ingest :: "'w client \<Rightarrow> bytes list \<Rightarrow> 'w \<Rightarrow> cli_run option \<times> 'w" where
  "lsmctl_ingest c args =
     with_flags c ''ingest'' [(ascii ''file'', StrFlag []), (ascii ''server'', StrFlag local_server)] args (\<lambda>fs _ w.
       let send = (\<lambda>data. case http_call c (str_flag fs ''server'') POST (ascii ''/api/v1/logs/ingest'') (RawBody data) w of
             (None, w1) \<Rightarrow> (Some (exits (Failure ''Ingest request failed'')), w1)
           | (Some resp, w1) \<Rightarrow>
               (Some (if rsStatus resp \<noteq> 200 then exits (Rejected ''Ingest failed'' (rsStatus resp) (rsBody resp))
                      else printed [Answer ''Ingestion successful'' (rsBody resp)]), w1))
       in if str_flag fs ''file'' \<noteq> [] then
            (case clFile c (str_flag fs ''file'') of
               None \<Rightarrow> (Some (exits (Failure ''Failed to open file'')), w)
             | Some None \<Rightarrow> (Some (exits (Failure ''Failed to read input'')), w)
             | Some (Some data) \<Rightarrow> send data)
          else
            (case clStdin c of
               None \<Rightarrow> (Some (exits (Failure ''Failed to read input'')), w)
             | Some data \<Rightarrow> send data))"

text \<open>The line of a match ends with \<open>l.ID[:8]\<close>, which panics for a shorter id.\<close>

fun match_lines :: "LogRecord list \<Rightarrow> cli_line list option" where
  "match_lines [] = Some []"
| "match_lines (l # ls) =
     (if length (lrID l) < 8 then None
      else map_option ((#) (Match (lrTimestamp l) (lrLevel l) (lrService l) (lrMessage l) (take 8 (lrID l))))
             (match_lines ls))"

definition lsmctl_search :: "'w client \<Rightarrow> bytes list \<Rightarrow> 'w \<Rightarrow> cli_run option \<times> 'w" where
  "lsmctl_search c args =
     with_flags c ''search''
       [(ascii ''query'', StrFlag []), (ascii ''level'', StrFlag []), (ascii ''service'', StrFlag []),
        (ascii ''since'', StrFlag (ascii ''24h'')), (ascii ''limit'', IntFlag 20), (ascii ''server'', StrFlag local_server)]
       args (\<lambda>fs _ w.
       let q0 = empty_query\<lparr>qText := str_flag fs ''query'', qLevel := str_flag fs ''level'',
                  qService := str_flag fs ''service'', qLimit := int_flag fs ''limit''\<rparr>;
           since = str_flag fs ''since'';
           q = (if since = [] then q0
                else case clDuration c since of None \<Rightarrow> q0 | Some d \<Rightarrow> q0\<lparr>qFromTime := wrap64 (clNow c - d)\<rparr>)
       in case http_call c (str_flag fs ''server'') POST (ascii ''/api/v1/logs/search'') (QueryBody q) w of
            (None, w1) \<Rightarrow> (Some (exits (Failure ''Search request failed'')), w1)
          | (Some resp, w1) \<Rightarrow>
              (case rsBody resp of
                 Found res \<Rightarrow> (map_option (\<lambda>ls. printed (Matches (srTotalHits res) # ls)) (match_lines (srLogs res)), w1)
               | _ \<Rightarrow> (Some (exits (Failure ''Failed decoding response'')), w1)))"

text \<open>The bars of the histogram: at most 40 marks, at least one for a bucket that is not empty.\<close>

definition max_count :: "Bucket list \<Rightarrow> int" where
  "max_count bs = fold (\<lambda>b m. if bkCount b > m then bkCount b else m) bs 1"

definition bar_length :: "int \<Rightarrow> int \<Rightarrow> int" where
  "bar_length cnt maxCount =
     (let n = (wrap64 (cnt * 40)) sdiv maxCount in if n < 1 \<and> cnt > 0 then 1 else n)"

text \<open>\<open>strings.Repeat\<close> panics for a negative count.\<close>

fun bar_lines :: "int \<Rightarrow> Bucket list \<Rightarrow> cli_line list option" where
  "bar_lines maxCount [] = Some []"
| "bar_lines maxCount (b # bs) =
     (let n = bar_length (bkCount b) maxCount
      in if n < 0 then None
         else map_option ((#) (HistogramBar (bkTimestamp b) n (bkCount b) (bkByLevel b))) (bar_lines maxCount bs))"

definition lsmctl_aggregate :: "'w client \<Rightarrow> bytes list \<Rightarrow> 'w \<Rightarrow> cli_run option \<times> 'w" where
  "lsmctl_aggregate c args =
     with_flags c ''aggregate''
       [(ascii ''interval'', StrFlag (ascii ''1m'')), (ascii ''since'', StrFlag (ascii ''1h'')), (ascii ''query'', StrFlag []),
        (ascii ''level'', StrFlag []), (ascii ''server'', StrFlag local_server)]
       args (\<lambda>fs _ w.
       let target = ascii ''/api/v1/logs/aggregate?interval='' @ str_flag fs ''interval'' @ ascii ''&since='' @
             str_flag fs ''since'' @ ascii ''&query='' @ str_flag fs ''query'' @ ascii ''&level='' @ str_flag fs ''level''
       in case http_call c (str_flag fs ''server'') GET target NoBody w of
            (None, w1) \<Rightarrow> (Some (exits (Failure ''Aggregate request failed'')), w1)
          | (Some resp, w1) \<Rightarrow>
              (case rsBody resp of
                 Aggregated agg \<Rightarrow>
                   (map_option (\<lambda>ls. printed (HistogramHead (str_flag fs ''interval'') (agTotal agg) # ls))
                      (bar_lines (max_count (agBuckets agg)) (agBuckets agg)), w1)
               | _ \<Rightarrow> (Some (exits (Failure ''Failed decoding response'')), w1)))"

section \<open>Keys and values\<close>

abbreviation server_flag :: "'w client \<Rightarrow> bytes \<times> flag_value" where
  "server_flag c \<equiv> (ascii ''server'', StrFlag (defaultServerURL c))"

text \<open>\<open>http.NewRequest\<close> gives nil for a URL that does not parse, and its error is ignored: \<open>Do\<close> panics.\<close>

definition lsmctl_put :: "'w client \<Rightarrow> bytes list \<Rightarrow> 'w \<Rightarrow> cli_run option \<times> 'w" where
  "lsmctl_put c args =
     with_flags c ''put'' [server_flag c] args (\<lambda>fs rem_args w.
       case rem_args of
         key # val # _ \<Rightarrow>
           (case new_request (str_flag fs ''server'') PUT (ascii ''/api/v1/kv/'' @ key) (RawBody val) of
              None \<Rightarrow> (None, w)
            | Some r \<Rightarrow>
                (case http_do 9 c r w of
                   (None, w1) \<Rightarrow> (Some (exits (Failure ''Put failed'')), w1)
                 | (Some resp, w1) \<Rightarrow>
                     (Some (if rsStatus resp = 200 \<or> rsStatus resp = 201 then printed [Line (ascii ''OK'')]
                            else complains (Rejected ''Put failed'' (rsStatus resp) (rsBody resp))), w1)))
       | _ \<Rightarrow> (Some (exits (UsageOf ''put'')), w))"

definition lsmctl_get :: "'w client \<Rightarrow> bytes list \<Rightarrow> 'w \<Rightarrow> cli_run option \<times> 'w" where
  "lsmctl_get c args =
     with_flags c ''get'' [server_flag c] args (\<lambda>fs rem_args w.
       case rem_args of
         key # _ \<Rightarrow>
           (case http_call c (str_flag fs ''server'') GET (ascii ''/api/v1/kv/'' @ key) NoBody w of
              (None, w1) \<Rightarrow> (Some (exits (Failure ''Get failed'')), w1)
            | (Some resp, w1) \<Rightarrow>
                (Some (if rsStatus resp = 404 then printed [Line (ascii ''(nil)'')]
                       else if rsStatus resp \<noteq> 200
                       then complains (Rejected ''Get failed'' (rsStatus resp) (rsBody resp))
                       else printed [Answer '''' (rsBody resp)]), w1))
       | [] \<Rightarrow> (Some (exits (UsageOf ''get'')), w))"

definition lsmctl_delete :: "'w client \<Rightarrow> bytes list \<Rightarrow> 'w \<Rightarrow> cli_run option \<times> 'w" where
  "lsmctl_delete c args =
     with_flags c ''delete'' [server_flag c] args (\<lambda>fs rem_args w.
       case rem_args of
         key # _ \<Rightarrow>
           (case new_request (str_flag fs ''server'') DELETE (ascii ''/api/v1/kv/'' @ key) NoBody of
              None \<Rightarrow> (None, w)
            | Some r \<Rightarrow>
                (case http_do 9 c r w of
                   (None, w1) \<Rightarrow> (Some (exits (Failure ''Delete failed'')), w1)
                 | (Some resp, w1) \<Rightarrow>
                     (Some (if rsStatus resp = 200 then printed [Line (ascii ''DELETED'')]
                            else complains (Rejected ''Delete failed'' (rsStatus resp) (rsBody resp))), w1)))
       | [] \<Rightarrow> (Some (exits (UsageOf ''delete'')), w))"

definition lsmctl_scan :: "'w client \<Rightarrow> bytes list \<Rightarrow> 'w \<Rightarrow> cli_run option \<times> 'w" where
  "lsmctl_scan c args =
     with_flags c ''scan'' [server_flag c, (ascii ''limit'', IntFlag 100)] args (\<lambda>fs rem_args w.
       case rem_args of
         startKey # endKey # _ \<Rightarrow>
           (case http_call c (str_flag fs ''server'') GET
                   (ascii ''/api/v1/kv/scan?start='' @ startKey @ ascii ''&end='' @ endKey @ ascii ''&limit='' @
                    fmt_d (int_flag fs ''limit'')) NoBody w of
              (None, w1) \<Rightarrow> (Some (exits (Failure ''Scan failed'')), w1)
            | (Some resp, w1) \<Rightarrow>
                (case rsBody resp of
                   Pairs ps \<Rightarrow> (Some (printed (ScannedKeys (length ps) # map (\<lambda>(k, v). PairLine k v) ps)), w1)
                 | _ \<Rightarrow> (Some (exits (Failure ''Failed decoding scan results'')), w1)))
       | _ \<Rightarrow> (Some (exits (UsageOf ''scan'')), w))"

section \<open>Maintenance\<close>

text \<open>The answer is printed, or not looked at.\<close>

definition lsmctl_stats :: "'w client \<Rightarrow> bytes list \<Rightarrow> 'w \<Rightarrow> cli_run option \<times> 'w" where
  "lsmctl_stats c args =
     with_flags c ''stats'' [server_flag c] args (\<lambda>fs _ w.
       case http_call c (str_flag fs ''server'') GET (ascii ''/metrics'') NoBody w of
         (None, w1) \<Rightarrow> (Some (exits (Failure ''Stats request failed'')), w1)
       | (Some resp, w1) \<Rightarrow>
           (Some (printed [Line (ascii ''=== LSM Engine Telemetry Metrics ===''), Answer '''' (rsBody resp)]), w1))"

definition lsmctl_flush :: "'w client \<Rightarrow> bytes list \<Rightarrow> 'w \<Rightarrow> cli_run option \<times> 'w" where
  "lsmctl_flush c args =
     with_flags c ''flush'' [server_flag c] args (\<lambda>fs _ w.
       case http_call c (str_flag fs ''server'') POST (ascii ''/api/v1/db/flush'') NoBody w of
         (None, w1) \<Rightarrow> (Some (exits (Failure ''Flush failed'')), w1)
       | (Some resp, w1) \<Rightarrow> (Some (printed [Line (ascii ''Flush completed successfully'')]), w1))"

definition lsmctl_compact :: "'w client \<Rightarrow> bytes list \<Rightarrow> 'w \<Rightarrow> cli_run option \<times> 'w" where
  "lsmctl_compact c args =
     with_flags c ''compact'' [server_flag c] args (\<lambda>fs _ w.
       case http_call c (str_flag fs ''server'') POST (ascii ''/api/v1/db/compact'') NoBody w of
         (None, w1) \<Rightarrow> (Some (exits (Failure ''Compact failed'')), w1)
       | (Some resp, w1) \<Rightarrow> (Some (printed [Line (ascii ''Compaction triggered successfully'')]), w1))"

section \<open>The program\<close>

text \<open>The arguments of the process without its name.\<close>

definition lsmctl :: "'w client \<Rightarrow> bytes list \<Rightarrow> 'w \<Rightarrow> cli_run option \<times> 'w" where
  "lsmctl c argv w =
     (case argv of
        [] \<Rightarrow> (Some \<lparr>clOut = [HelpText], clErr = [], clExit = 1\<rparr>, w)
      | sub # args \<Rightarrow>
          (if sub = ascii ''ingest'' then lsmctl_ingest c args w
           else if sub = ascii ''search'' then lsmctl_search c args w
           else if sub = ascii ''aggregate'' then lsmctl_aggregate c args w
           else if sub = ascii ''put'' then lsmctl_put c args w
           else if sub = ascii ''get'' then lsmctl_get c args w
           else if sub = ascii ''delete'' then lsmctl_delete c args w
           else if sub = ascii ''scan'' then lsmctl_scan c args w
           else if sub = ascii ''stats'' then lsmctl_stats c args w
           else if sub = ascii ''flush'' then lsmctl_flush c args w
           else if sub = ascii ''compact'' then lsmctl_compact c args w
           else if sub = ascii ''help'' \<or> sub = ascii ''-h'' \<or> sub = ascii ''--help'' then (Some (printed [HelpText]), w)
           else (Some \<lparr>clOut = [HelpText], clErr = [UnknownCommand sub], clExit = 1\<rparr>, w)))"

end
