(* ===== verification/SearchIndex.thy ===== *)
theory SearchIndex
  imports Search
begin

text \<open>
  The index of the log search: the database as a map (locale \<open>kv_store\<close>, interpreted on the storage engine),
  the map that a sequence of ingested records builds, and which index keys a scan between two timestamps
  visits.
\<close>

section \<open>The database as a map\<close>

definition scanned :: "(bytes \<Rightarrow> bytes option) \<Rightarrow> bytes \<Rightarrow> bytes \<Rightarrow> Entry list \<Rightarrow> bool" where
  "scanned v s u es \<longleftrightarrow> keys_sorted es \<and> (\<forall>x\<in>set es. s \<le> Key x) \<and>
     (\<forall>k. in_range s u k \<longrightarrow> map_option (\<lambda>x. contents (Value x)) (find (\<lambda>x. Key x = k) es) = v k)"

locale kv_store =
  fixes D :: "'e Db" and ok :: "'e \<Rightarrow> bool" and vw :: "'e \<Rightarrow> bytes \<Rightarrow> bytes option"
  assumes put: "ok db \<Longrightarrow> dbPut D k v db = (r, db') \<Longrightarrow>
      ok db' \<and> vw db' = (if r = None then (vw db)(k \<mapsto> contents v) else vw db)"
    and get: "ok db \<Longrightarrow> dbGet D k db = (res, db') \<Longrightarrow>
      ok db' \<and> vw db' = vw db \<and> map_sum (\<lambda>err. err) contents res = map_answer k (vw db)"
    and scan: "ok db \<Longrightarrow> \<exists>es. dbScan D s u db = Inr es \<and> scanned (vw db) s u es"

section \<open>The storage engine\<close>

definition db_ok :: "'m Manifest \<Rightarrow> ('m \<Rightarrow> uint64 set) \<Rightarrow> 'm Engine \<Rightarrow> bool" where
  "db_ok M used e \<longleftrightarrow> engine_ok M used e \<and> \<not> egClosed e \<and> readers_open (stReaders e)"

lemma rotate_readers: "stReaders (rotateMemTable M E e) = stReaders e"
  by (auto simp: rotateMemTable_def Let_def open_wal_def split: prod.splits sum.splits)

lemma Put_readers: "Put M E k v e = (r, e') \<Longrightarrow> stReaders e' = stReaders e"
  by (auto simp: Put_def write_entry_def flush_if_full_def Let_def triggerFlush_def rotate_readers
      split: if_splits prod.splits option.splits)

lemma Get_readers: "Get k e = (r, e') \<Longrightarrow> stReaders e' = stReaders e"
  by (auto simp: Get_def get_tables_def Let_def split: if_splits option.splits prod.splits sum.splits)

lemma engine_scan_spec:
  assumes "db_ok M used e"
  shows "\<exists>es. engine_scan s u e = Inr es \<and> scanned (engine_view e) s u es"
proof -
  have e: "engine_ok M used e" "\<not> egClosed e" "readers_open (stReaders e)" using assms by (simp_all add: db_ok_def)
  from Scan_agrees [OF e, of s u] show ?thesis
    by (auto simp: engine_scan_def scanned_def)
qed

lemma engine_kv_store: "manifest_laws M used \<Longrightarrow> kv_store (engine_db M E) (db_ok M used) engine_view"
proof
  fix db k v r db'
  assume laws: "manifest_laws M used" and ok: "db_ok M used db" and put: "dbPut (engine_db M E) k v db = (r, db')"
  then show "db_ok M used db' \<and> engine_view db' = (if r = None then (engine_view db)(k \<mapsto> contents v) else engine_view db)"
    using Put_spec [OF laws, of db "E db" k v r db'] Put_readers [of M "E db" k v db r db']
    by (simp add: engine_db_def db_ok_def)
next
  fix db k r db'
  assume ok: "db_ok M used db" and get: "dbGet (engine_db M E) k db = (r, db')"
  then have g: "Get k db = (r, db')" by (simp add: engine_db_def)
  then show "db_ok M used db' \<and> engine_view db' = engine_view db \<and>
      map_sum (\<lambda>err. err) contents r = map_answer k (engine_view db)"
    using Get_answer [OF _ _ g, of M used] Get_readers [OF g] Get_frame [OF g] ok
    by (simp add: db_ok_def view_def)
next
  fix db s u assume "db_ok M used db"
  then show "\<exists>es. dbScan (engine_db M E) s u db = Inr es \<and> scanned (engine_view db) s u es"
    using engine_scan_spec by (simp add: engine_db_def)
qed

interpretation mem_db: kv_store "engine_db mem_manifest E" "db_ok mem_manifest mem_used" engine_view
  by (rule engine_kv_store [OF mem_manifest_laws])

section \<open>Keys and their order\<close>

lemma colon: "ascii '':'' = [58]" by simp

lemma length_fmt20: "0 \<le> t \<Longrightarrow> t < 2 ^ 63 \<Longrightarrow> length (fmt20 t) = 20"
  unfolding fmt20_def by (simp, intro length_pad) auto

lemma fmt20_less: "0 \<le> t \<Longrightarrow> t < 2 ^ 63 \<Longrightarrow> 0 \<le> u \<Longrightarrow> u < 2 ^ 63 \<Longrightarrow> fmt20 t < fmt20 u \<longleftrightarrow> t < u"
  using pad_less [of "nat t" 20 "nat u"] by (auto simp: fmt20_def)

lemma fmt20_no_colon: "0 \<le> t \<Longrightarrow> 58 \<notin> set (fmt20 t)"
  using pad_digits(1) [of 20 "nat t"] by (auto simp: fmt20_def list_all_iff is_digit_def)

lemma index_key_in_range:
  assumes "0 \<le> t" "t < 2 ^ 63" "0 \<le> f" "f < 2 ^ 63" "0 \<le> u" "u < 2 ^ 63" "0xFF \<notin> set i"
  shows "in_range (scan_from p f) (scan_to p u) (index_key p t i) \<longleftrightarrow> f \<le> t \<and> t \<le> u"
proof -
  have i: "i \<le> [0xFF :: byte]"
  proof (cases i)
    case (Cons b j)
    have "b \<le> 0xFF" by (simp add: word_le_nat_alt) (use unat_bound [of b] in simp)
    then have "b < 0xFF" using assms(7) Cons by (simp add: order_less_le)
    then show ?thesis using Cons by simp
  qed simp
  have lower: "scan_from p f \<le> index_key p t i \<longleftrightarrow> f \<le> t"
    using assms fmt20_less [of f t] fmt20_less [of t f]
    by (cases f t rule: linorder_cases)
      (auto simp: scan_from_def index_key_def le_append_same_length length_fmt20)
  have upper: "index_key p t i \<le> scan_to p u \<longleftrightarrow> t \<le> u"
    using assms fmt20_less [of u t] fmt20_less [of t u] i
    by (cases u t rule: linorder_cases)
      (auto simp: scan_to_def index_key_def le_append_same_length length_fmt20)
  show ?thesis using lower upper by (simp add: in_range_def scan_to_def)
qed

text \<open>What lies between two keys with a common prefix has that prefix.\<close>

lemma between_prefix: "p @ s \<le> k \<Longrightarrow> k \<le> p @ t \<Longrightarrow> \<exists>r. k = p @ (r :: bytes)"
proof (induction p arbitrary: k)
  case (Cons b p)
  then obtain c k' where k: "k = c # k'" by (cases k) auto
  then have "c = b" "p @ s \<le> k'" "k' \<le> p @ t" using Cons.prems by auto
  then show ?case using Cons.IH k by auto
qed simp

lemma in_range_prefix: "in_range (scan_from p f) (scan_to p u) k \<Longrightarrow> \<exists>r. k = p @ r"
  using between_prefix by (auto simp: in_range_def scan_from_def scan_to_def)

text \<open>The parts of an index key.\<close>

lemma length_Split: "length (Split c s) = Suc (count_list s c)"
proof (induction s)
  case (Cons b s)
  then show ?case by (cases "Split c s") auto
qed simp

lemma last_part: "58 \<notin> set i \<Longrightarrow> last (Split 58 (index_key p t i)) = i"
  using last_Split [of 58 i "p @ fmt20 t"] by (simp add: index_key_def)

lemma count_list_append: "count_list (xs @ ys) x = count_list xs x + count_list ys x"
  by (induction xs) simp_all

lemma enough_parts: "2 \<le> count_list p 58 \<Longrightarrow> 4 \<le> length (Split 58 (index_key p t i))"
  by (simp add: length_Split index_key_def count_list_append)

lemma prefix_colons:
  "p \<in> {timePrefix, lvlPrefix l, svcPrefix l, termPrefix l} \<Longrightarrow> 2 \<le> count_list p 58"
  by (auto simp: timePrefix_def lvlPrefix_def svcPrefix_def termPrefix_def count_list_append)

lemma colon_split: "58 \<notin> set a \<Longrightarrow> 58 \<notin> set b \<Longrightarrow> a @ 58 # x = b @ (58 :: byte) # y \<longleftrightarrow> a = b \<and> x = y"
proof (induction a arbitrary: b)
  case Nil
  then show ?case by (cases b) auto
next
  case (Cons c a)
  then show ?case by (cases b) auto
qed

section \<open>The map that ingestion builds\<close>

definition add_record :: "search_env \<Rightarrow> LogRecord \<Rightarrow> (bytes \<Rightarrow> bytes option) \<Rightarrow> bytes \<Rightarrow> bytes option" where
  "add_record S l v =
     (\<lambda>k. if k \<in> set (index_keys S l) then Some [] else if k = docKey (lrID l) then seMarshal S l else v k)"

definition index_map :: "search_env \<Rightarrow> LogRecord list \<Rightarrow> bytes \<Rightarrow> bytes option" where
  "index_map S ls = fold (add_record S) ls Map.empty"

text \<open>All writes of a list of keys are accepted.\<close>

fun accepted :: "'e Db \<Rightarrow> bytes list \<Rightarrow> 'e \<Rightarrow> bool" where
  "accepted D [] db \<longleftrightarrow> True"
| "accepted D (k # ks) db \<longleftrightarrow> fst (dbPut D k None db) = None \<and> accepted D ks (snd (dbPut D k None db))"

definition ingest_accepted :: "search_env \<Rightarrow> 'e Db \<Rightarrow> LogRecord \<Rightarrow> 'e \<Rightarrow> bool" where
  "ingest_accepted S D l db \<longleftrightarrow>
     (let (r, db1) = dbPut D (docKey (lrID l)) (seMarshal S l) db in r = None \<and> accepted D (index_keys S l) db1)"

context kv_store begin

lemma put_keys_view:
  assumes "ok db"
  shows "ok (put_keys D ks db) \<and> (\<exists>K\<subseteq>set ks. vw (put_keys D ks db) = (\<lambda>k. if k \<in> K then Some [] else vw db k) \<and>
    (accepted D ks db \<longrightarrow> K = set ks))"
  using assms
proof (induction ks arbitrary: db)
  case (Cons k ks)
  obtain r db1 where p: "dbPut D k None db = (r, db1)" by fastforce
  note p' = put [OF Cons.prems p]
  obtain K where K: "K \<subseteq> set ks" "vw (put_keys D ks db1) = (\<lambda>j. if j \<in> K then Some [] else vw db1 j)"
    "accepted D ks db1 \<longrightarrow> K = set ks" and ok1: "ok (put_keys D ks db1)"
    using Cons.IH [of db1] p' by auto
  let ?K = "if r = None then insert k K else K"
  have "vw (put_keys D (k # ks) db) = (\<lambda>j. if j \<in> ?K then Some [] else vw db j)"
    using p p' K(2) by (auto simp: fun_eq_iff)
  moreover have "?K \<subseteq> set (k # ks)" "accepted D (k # ks) db \<longrightarrow> ?K = set (k # ks)" using K p by auto
  moreover have "ok (put_keys D (k # ks) db)" using ok1 p by simp
  ultimately show ?case by blast
qed auto

lemma Ingest_view:
  assumes "ok db"
  shows "case Ingest S D l0 db of
      (Some err, db') \<Rightarrow> ok db' \<and> vw db' = vw db \<and>
        (\<forall>l. Validate S l0 = (None, l) \<longrightarrow> seMarshal S l = None \<or> \<not> ingest_accepted S D l db)
    | (None, db') \<Rightarrow> ok db' \<and> (\<exists>l p K. Validate S l0 = (None, l) \<and> seMarshal S l = Some p \<and>
        K \<subseteq> set (index_keys S l) \<and> (ingest_accepted S D l db \<longrightarrow> K = set (index_keys S l)) \<and>
        vw db' = (\<lambda>k. if k \<in> K then Some [] else ((vw db)(docKey (lrID l) \<mapsto> p)) k))"
proof -
  obtain err l where val: "Validate S l0 = (err, l)" by fastforce
  show ?thesis
  proof (cases "err = None \<and> seMarshal S l \<noteq> None")
    case True
    then obtain p where p: "seMarshal S l = Some p" by auto
    obtain r1 db1 where put1: "dbPut D (docKey (lrID l)) (Some p) db = (r1, db1)" by fastforce
    note pv = put [OF assms put1]
    show ?thesis
    proof (cases r1)
      case None
      obtain K where K: "K \<subseteq> set (index_keys S l)"
        "vw (put_keys D (index_keys S l) db1) = (\<lambda>k. if k \<in> K then Some [] else vw db1 k)"
        "accepted D (index_keys S l) db1 \<longrightarrow> K = set (index_keys S l)" "ok (put_keys D (index_keys S l) db1)"
        using put_keys_view [of db1 "index_keys S l"] pv by blast
      have "vw (put_keys D (index_keys S l) db1) = (\<lambda>k. if k \<in> K then Some [] else ((vw db)(docKey (lrID l) \<mapsto> p)) k)"
        using K(2) pv None by (simp cong: if_cong)
      moreover have "Validate S l0 = (None, l)" using val True by simp
      moreover have "ingest_accepted S D l db \<longrightarrow> K = set (index_keys S l)"
        using K(3) p put1 by (simp add: ingest_accepted_def)
      ultimately have "\<exists>m p K. Validate S l0 = (None, m) \<and> seMarshal S m = Some p \<and>
          K \<subseteq> set (index_keys S m) \<and> (ingest_accepted S D m db \<longrightarrow> K = set (index_keys S m)) \<and>
          vw (put_keys D (index_keys S l) db1) = (\<lambda>k. if k \<in> K then Some [] else ((vw db)(docKey (lrID m) \<mapsto> p)) k)"
        using K(1) p by (intro exI [of _ l] exI [of _ p] exI [of _ K] conjI)
      moreover have "Ingest S D l0 db = (None, put_keys D (index_keys S l) db1)"
        using None val True p put1 by (simp add: Ingest_def)
      ultimately show ?thesis using K(4) by (simp only: prod.case option.case simp_thms)
    next
      case (Some e)
      then show ?thesis using val True p put1 pv by (simp add: Ingest_def ingest_accepted_def)
    qed
  next
    case False
    then obtain x where "Ingest S D l0 db = (Some x, db)" using val by (cases err) (auto simp: Ingest_def)
    moreover have "\<forall>m. Validate S l0 = (None, m) \<longrightarrow> seMarshal S m = None \<or> \<not> ingest_accepted S D m db"
      using False val by auto
    ultimately show ?thesis using assms by simp
  qed
qed

end

end
