(* ===== verification/SearchProps.thy ===== *)
theory SearchProps
  imports SearchIndex
begin

text \<open>
  What queries answer: over the map that a sequence of ingested records builds, the index scans find the
  records indexed under the query, the filters are applied to the stored records, and the page is cut from the
  sorted matches.
\<close>

section \<open>Looking up the index\<close>

lemma index_map_simps: "index_map S [] = Map.empty" "index_map S (ls @ [l]) = add_record S l (index_map S ls)"
  by (simp_all add: index_map_def)

lemma index_prefix_cases:
  assumes "p \<in> set (index_prefixes S l)"
  obtains "p = timePrefix" | "p = lvlPrefix (lrLevel l)" | "p = svcPrefix (lrService l)"
  | c where "p = termPrefix c" "c \<in> set (Tokenize (seUnicode S) (lrMessage l))"
  | k v where "p = fldPrefix k v"
  using assms by (auto simp: index_prefixes_def split: option.splits)

lemmas prefix_defs = timePrefix_def lvlPrefix_def svcPrefix_def termPrefix_def fldPrefix_def

lemma index_key_not_doc: "p \<in> set (index_prefixes S l) \<Longrightarrow> index_key p t i \<noteq> docKey j"
  by (elim index_prefix_cases) (simp_all add: prefix_defs index_key_def docKey_def)

lemma docKey_not_index: "docKey j \<notin> set (index_keys S l)"
  using index_key_not_doc [of _ S l] by (auto simp: index_keys_def) metis

lemma docKey_inj [simp]: "docKey i = docKey j \<longleftrightarrow> i = j"
  by (simp add: docKey_def)

lemma index_map_doc:
  assumes "distinct (map lrID ls)"
  shows "index_map S ls (docKey i) = (case find (\<lambda>l. lrID l = i) ls of None \<Rightarrow> None | Some l \<Rightarrow> seMarshal S l)"
  using assms
proof (induction ls rule: rev_induct)
  case (snoc l ls)
  have "find (\<lambda>x. lrID x = i) ls = None" if "lrID l = i" using snoc.prems that by (auto simp: find_None_iff) (metis image_eqI)
  then show ?case using snoc by (auto simp: index_map_simps add_record_def docKey_not_index find_append split: option.splits)
qed (simp add: index_map_simps)

lemma index_map_index:
  assumes "\<forall>i. k \<noteq> docKey i"
  shows "index_map S ls k = (if \<exists>l\<in>set ls. k \<in> set (index_keys S l) then Some [] else None)"
  using assms by (induction ls rule: rev_induct) (auto simp: index_map_simps add_record_def)

section \<open>The ids that a scan gives\<close>

lemma scan_loop_ids:
  assumes "keys_sorted es" "set ids = seen" "distinct ids"
  shows "distinct (scan_loop u es seen ids) \<and> set (scan_loop u es seen ids) = seen \<union>
    {last (Split 58 (Key x)) |x. x \<in> set es \<and> Key x \<le> u \<and> 4 \<le> length (Split 58 (Key x))}"
  using assms
proof (induction es arbitrary: seen ids)
  case (Cons x es)
  have sorted: "keys_sorted es" and later: "\<forall>y\<in>set es. Key x < Key y"
    using Cons.prems(1) by auto
  show ?case
  proof (cases "Key x \<le> u")
    case False
    then have gt: "u < Key x" by simp
    then have "\<not> Key y \<le> u" if "y \<in> set (x # es)" for y using later that by auto
    then show ?thesis using gt Cons.prems by auto
  next
    case True
    define i where "i = last (Split 58 (Key x))"
    show ?thesis
    proof (cases "4 \<le> length (Split 58 (Key x)) \<and> i \<notin> seen")
      case add: True
      have "scan_loop u (x # es) seen ids = scan_loop u es (insert i seen) (ids @ [i])"
        using leD [OF True] add by (simp add: Let_def flip: i_def)
      then show ?thesis
        using Cons.IH [OF sorted, of "ids @ [i]" "insert i seen"] Cons.prems(2,3) add True by (auto simp: i_def)
    next
      case skip: False
      have "scan_loop u (x # es) seen ids = scan_loop u es seen ids"
        using leD [OF True] skip by (auto simp: Let_def simp flip: i_def)
      then show ?thesis using Cons.IH [OF sorted Cons.prems(2,3)] skip True by (auto simp: i_def)
    qed
  qed
qed auto

lemma scanned_keys:
  assumes "scanned v s u es" "u \<noteq> []"
  shows "(\<exists>x\<in>set es. Key x = k \<and> Key x \<le> u) \<longleftrightarrow> v k \<noteq> None \<and> in_range s u k"
proof
  assume "\<exists>x\<in>set es. Key x = k \<and> Key x \<le> u"
  then obtain x where x: "x \<in> set es" "Key x = k" "k \<le> u" by auto
  then have r: "in_range s u k" using assms by (auto simp: in_range_def scanned_def)
  moreover have "map_option (\<lambda>x. contents (Value x)) (find (\<lambda>x. Key x = k) es) = v k"
    using assms(1) r by (simp add: scanned_def)
  moreover have "find (\<lambda>x. Key x = k) es \<noteq> None" using x by (auto simp: find_None_iff)
  ultimately show "v k \<noteq> None \<and> in_range s u k" using r by (metis option.map_disc_iff)
next
  assume a: "v k \<noteq> None \<and> in_range s u k"
  then have "map_option (\<lambda>x. contents (Value x)) (find (\<lambda>x. Key x = k) es) = v k"
    using assms(1) by (simp add: scanned_def)
  then obtain x where "find (\<lambda>x. Key x = k) es = Some x" using a by auto
  then show "\<exists>x\<in>set es. Key x = k \<and> Key x \<le> u"
    using a assms(2) by (auto simp: find_Some_iff in_range_def)
qed

context kv_store begin

lemma scan_ids:
  assumes "ok db" "u \<noteq> []"
  shows "\<exists>ids. scanPrefixIDs D s u db = Inr ids \<and> distinct ids \<and>
    set ids = {last (Split 58 k) |k. vw db k \<noteq> None \<and> in_range s u k \<and> 4 \<le> length (Split 58 k)}"
proof -
  obtain es where es: "dbScan D s u db = Inr es" "scanned (vw db) s u es" using scan [OF assms(1)] by blast
  then have "keys_sorted es" by (simp add: scanned_def)
  moreover have "{last (Split 58 (Key x)) |x. x \<in> set es \<and> Key x \<le> u \<and> 4 \<le> length (Split 58 (Key x))} =
      {last (Split 58 k) |k. (\<exists>x\<in>set es. Key x = k \<and> Key x \<le> u) \<and> 4 \<le> length (Split 58 k)}"
    by blast
  ultimately show ?thesis
    using scan_loop_ids [of es "[]" "{}" u] unfolding scanned_keys [OF es(2) assms(2)]
    by (simp add: scanPrefixIDs_def es(1) conj_assoc)
qed

end

section \<open>Records that the index keeps apart\<close>

definition good_record :: "search_env \<Rightarrow> LogRecord \<Rightarrow> bool" where
  "good_record S l \<longleftrightarrow> 58 \<notin> set (lrID l) \<and> 0xFF \<notin> set (lrID l) \<and> 0 < lrTimestamp l \<and> lrTimestamp l < 2 ^ 63 \<and>
     58 \<notin> set (lrLevel l) \<and> 58 \<notin> set (lrService l) \<and>
     (\<exists>p. seMarshal S l = Some p \<and> ParseLogRecord S p = Inr l)"

definition good_logs :: "search_env \<Rightarrow> LogRecord list \<Rightarrow> bool" where
  "good_logs S ls \<longleftrightarrow> distinct (map lrID ls) \<and> list_all (good_record S) ls"

text \<open>The prefixes that queries scan.\<close>

definition own_prefix :: "search_env \<Rightarrow> bytes \<Rightarrow> bool" where
  "own_prefix S p \<longleftrightarrow> 2 \<le> count_list p 58 \<and> (\<forall>r j. p @ r \<noteq> docKey j) \<and>
     (\<forall>l p' t i r. good_record S l \<longrightarrow> p' \<in> set (index_prefixes S l) \<longrightarrow> index_key p' t i = p @ r \<longrightarrow> p' = p)"

lemma own_prefixes:
  "own_prefix S timePrefix" "58 \<notin> set l \<Longrightarrow> own_prefix S (lvlPrefix l)" "58 \<notin> set s \<Longrightarrow> own_prefix S (svcPrefix s)"
  "lower_ok (seUnicode S) \<Longrightarrow> 58 \<notin> set c \<Longrightarrow> own_prefix S (termPrefix c)"
  by (auto simp: own_prefix_def prefix_colons elim!: index_prefix_cases)
    (auto simp: prefix_defs index_key_def docKey_def colon_split good_record_def dest: token_no_colon)

lemma index_scan:
  assumes "list_all (good_record S) ls" "own_prefix S p" "0 \<le> f" "f < 2 ^ 63" "0 \<le> u" "u < 2 ^ 63"
  shows "{last (Split 58 k) |k. index_map S ls k \<noteq> None \<and> in_range (scan_from p f) (scan_to p u) k \<and> 4 \<le> length (Split 58 k)} =
    lrID ` {l \<in> set ls. p \<in> set (index_prefixes S l) \<and> f \<le> lrTimestamp l \<and> lrTimestamp l \<le> u}"
    (is "?L = ?R")
proof
  have good: "good_record S l" if "l \<in> set ls" for l using assms(1) that by (simp add: list_all_iff)
  have key: "in_range (scan_from p f) (scan_to p u) (index_key p (lrTimestamp l) (lrID l)) \<longleftrightarrow>
      f \<le> lrTimestamp l \<and> lrTimestamp l \<le> u" if "l \<in> set ls" for l
    using good [OF that] assms(3-6) by (intro index_key_in_range) (auto simp: good_record_def)
  show "?L \<subseteq> ?R"
  proof
    fix i assume "i \<in> ?L"
    then obtain k where k: "i = last (Split 58 k)" "index_map S ls k \<noteq> None" "in_range (scan_from p f) (scan_to p u) k"
      by blast
    obtain rest where rest: "k = p @ rest" using in_range_prefix [OF k(3)] by blast
    then have "\<forall>j. k \<noteq> docKey j" using assms(2) by (auto simp: own_prefix_def)
    then obtain l where l: "l \<in> set ls" "k \<in> set (index_keys S l)"
      using k(2) index_map_index [of k S ls] by (auto split: if_splits)
    then obtain p' where p': "p' \<in> set (index_prefixes S l)" "k = index_key p' (lrTimestamp l) (lrID l)"
      by (auto simp: index_keys_def)
    have "p' = p" using assms(2) good [OF l(1)] p' rest unfolding own_prefix_def by metis
    moreover have "i = lrID l" using k(1) p'(2) last_part good [OF l(1)] by (simp add: good_record_def)
    ultimately show "i \<in> ?R" using l(1) p' k(3) key [OF l(1)] by auto
  qed
  show "?R \<subseteq> ?L"
  proof
    fix i assume "i \<in> ?R"
    then obtain l where l: "i = lrID l" "l \<in> set ls" "p \<in> set (index_prefixes S l)" "f \<le> lrTimestamp l" "lrTimestamp l \<le> u"
      by blast
    let ?k = "index_key p (lrTimestamp l) (lrID l)"
    have "?k \<in> set (index_keys S l)" using l(3) by (auto simp: index_keys_def)
    moreover have "\<forall>j. ?k \<noteq> docKey j" using index_key_not_doc [OF l(3)] by blast
    ultimately have "index_map S ls ?k \<noteq> None" using l(2) index_map_index [of ?k S ls] by auto
    moreover have "last (Split 58 ?k) = i" using last_part good [OF l(2)] l(1) by (simp add: good_record_def)
    moreover have "4 \<le> length (Split 58 ?k)" using assms(2) by (intro enough_parts) (simp add: own_prefix_def)
    ultimately show "i \<in> ?L" using key [OF l(2)] l(4,5) by auto
  qed
qed

definition with_prefix :: "search_env \<Rightarrow> LogRecord list \<Rightarrow> Query \<Rightarrow> bytes \<Rightarrow> LogRecord list" where
  "with_prefix S ls q p = filter (\<lambda>l. p \<in> set (index_prefixes S l) \<and> from_time q \<le> lrTimestamp l \<and> lrTimestamp l \<le> to_time q) ls"

definition query_ok :: "search_env \<Rightarrow> Query \<Rightarrow> bool" where
  "query_ok S q \<longleftrightarrow> 58 \<notin> set (ToUpper (seUnicode S) (qLevel q)) \<and> 58 \<notin> set (qService q) \<and>
     qFromTime q < 2 ^ 63 \<and> qToTime q < 2 ^ 63"

lemma query_times: "query_ok S q \<Longrightarrow> 0 \<le> from_time q \<and> from_time q < 2 ^ 63 \<and> 0 \<le> to_time q \<and> to_time q < 2 ^ 63"
  by (auto simp: query_ok_def from_time_def to_time_def)

lemma scan_to_ne: "scan_to p u \<noteq> []"
  by (simp add: scan_to_def)

context kv_store begin

lemma scan_with_prefix:
  assumes "ok db" "vw db = index_map S ls" "list_all (good_record S) ls" "own_prefix S p" "query_ok S q"
  shows "\<exists>ids. scanPrefixIDs D (scan_from p (from_time q)) (scan_to p (to_time q)) db = Inr ids \<and> distinct ids \<and>
    set ids = lrID ` set (with_prefix S ls q p)"
proof -
  have "{last (Split 58 k) |k. vw db k \<noteq> None \<and> in_range (scan_from p (from_time q)) (scan_to p (to_time q)) k \<and>
      4 \<le> length (Split 58 k)} = lrID ` set (with_prefix S ls q p)"
    using index_scan [OF assms(3,4)] query_times [OF assms(5)] unfolding assms(2) with_prefix_def set_filter by blast
  then show ?thesis using scan_ids [OF assms(1) scan_to_ne, of "scan_from p (from_time q)" p "to_time q"] by simp
qed

lemma intersect_ids:
  assumes "ok db" "vw db = index_map S ls" "list_all (good_record S) ls" "query_ok S q" "\<forall>c\<in>set cs. own_prefix S (termPrefix c)"
  shows "distinct ids \<Longrightarrow> \<exists>r. intersect_loop D (from_time q) (to_time q) cs ids db = Inr r \<and> distinct r \<and>
    set r = {i \<in> set ids. \<forall>c\<in>set cs. i \<in> lrID ` set (with_prefix S ls q (termPrefix c))}"
  using assms(5)
proof (induction cs arbitrary: ids)
  case (Cons c cs)
  obtain js where js: "scanPrefixIDs D (scan_from (termPrefix c) (from_time q)) (scan_to (termPrefix c) (to_time q)) db = Inr js"
    "set js = lrID ` set (with_prefix S ls q (termPrefix c))"
    using scan_with_prefix [OF assms(1-3) _ assms(4), of "termPrefix c"] Cons.prems(2) by auto
  show ?case
  proof (cases "filter (\<lambda>i. i \<in> set js) ids = []")
    case True
    then show ?thesis using js by (auto simp: filter_empty_conv)
  next
    case False
    obtain r where "intersect_loop D (from_time q) (to_time q) cs (filter (\<lambda>i. i \<in> set js) ids) db = Inr r" "distinct r"
      "set r = {i \<in> set (filter (\<lambda>i. i \<in> set js) ids). \<forall>c\<in>set cs. i \<in> lrID ` set (with_prefix S ls q (termPrefix c))}"
      using Cons.IH [of "filter (\<lambda>i. i \<in> set js) ids"] Cons.prems by auto
    then show ?thesis using False js by (auto simp: Let_def)
  qed
qed auto

end

section \<open>The candidates and the matches\<close>

definition indexed :: "search_env \<Rightarrow> Query \<Rightarrow> LogRecord \<Rightarrow> bool" where
  "indexed S q l \<longleftrightarrow>
     (let U = seUnicode S; tokens = Tokenize U (qText q)
      in if tokens \<noteq> [] then set tokens \<subseteq> set (Tokenize U (lrMessage l))
         else if qLevel q \<noteq> [] then lrLevel l = ToUpper U (qLevel q)
         else if qService q \<noteq> [] then lrService l = qService q
         else True)"

definition matches :: "search_env \<Rightarrow> Query \<Rightarrow> LogRecord \<Rightarrow> bool" where
  "matches S q l \<longleftrightarrow> indexed S q l \<and> passes S q l"

definition in_time :: "Query \<Rightarrow> LogRecord \<Rightarrow> bool" where
  "in_time q l \<longleftrightarrow> from_time q \<le> lrTimestamp l \<and> lrTimestamp l \<le> to_time q"

lemma passes_in_time: "passes S q l \<Longrightarrow> in_time q l"
  by (auto simp: passes_def in_time_def Let_def)

text \<open>What is assumed of sorting, of the order of a set, and of the tables of runes.\<close>

definition search_env_ok :: "search_env \<Rightarrow> bool" where
  "search_env_ok S \<longleftrightarrow> lower_ok (seUnicode S) \<and> (\<forall>ids. mset (seSetOrder S ids) = mset ids) \<and>
     (\<forall>ls. mset (seSort S ls) = mset ls \<and> sorted_wrt (\<lambda>a b. lrTimestamp a \<ge> lrTimestamp b) (seSort S ls))"

lemma own_prefix_mem:
  assumes "good_record S l" "own_prefix S p" "q \<in> set (index_prefixes S l)" "\<exists>r. q = p @ r"
  shows "q = p"
  using assms unfolding own_prefix_def index_key_def by (metis append_assoc)

lemma prefix_mem:
  assumes "good_record S l" "lower_ok (seUnicode S)"
  shows "timePrefix \<in> set (index_prefixes S l)"
    "58 \<notin> set x \<Longrightarrow> lvlPrefix x \<in> set (index_prefixes S l) \<longleftrightarrow> lrLevel l = x"
    "58 \<notin> set x \<Longrightarrow> svcPrefix x \<in> set (index_prefixes S l) \<longleftrightarrow> lrService l = x"
    "58 \<notin> set x \<Longrightarrow> termPrefix x \<in> set (index_prefixes S l) \<longleftrightarrow> x \<in> set (Tokenize (seUnicode S) (lrMessage l))"
  by (auto simp: index_prefixes_def prefix_defs split: option.splits)

context kv_store begin

lemma candidate_ids:
  assumes db: "ok db" "vw db = index_map S ls" and good: "good_logs S ls" and env: "search_env_ok S" and q: "query_ok S q"
  shows "\<exists>ids. candidates S D q db = Inr ids \<and> distinct ids \<and>
    set ids = lrID ` {l \<in> set ls. indexed S q l \<and> in_time q l}"
proof -
  let ?U = "seUnicode S" and ?tokens = "Tokenize (seUnicode S) (qText q)"
  have low: "lower_ok ?U" using env by (simp add: search_env_ok_def)
  have rec: "good_record S l" if "l \<in> set ls" for l using good that by (simp add: good_logs_def list_all_iff)
  have all: "list_all (good_record S) ls" using good by (simp add: good_logs_def)
  note one = scan_with_prefix [OF db all _ q]
  have ids: "lrID ` set (with_prefix S ls q p) = lrID ` {l \<in> set ls. p \<in> set (index_prefixes S l) \<and> in_time q l}" for p
    by (simp add: with_prefix_def in_time_def)
  show ?thesis
  proof (cases ?tokens)
    case (Cons c cs)
    have own: "own_prefix S (termPrefix d)" if "d \<in> set ?tokens" for d
      using own_prefixes(4) [OF low] token_no_colon [OF low that] by blast
    obtain ids where ids': "scanPrefixIDs D (scan_from (termPrefix c) (from_time q)) (scan_to (termPrefix c) (to_time q)) db = Inr ids"
      "distinct ids" "set ids = lrID ` set (with_prefix S ls q (termPrefix c))"
      using one [of "termPrefix c"] own Cons by auto
    have owns: "\<forall>d\<in>set cs. own_prefix S (termPrefix d)" using own Cons by simp
    obtain r where r: "intersect_loop D (from_time q) (to_time q) cs ids db = Inr r" "distinct r"
      "set r = {i \<in> set ids. \<forall>d\<in>set cs. i \<in> lrID ` set (with_prefix S ls q (termPrefix d))}"
      using intersect_ids [OF db all q owns ids'(2)] by blast
    have perm: "mset (seSetOrder S r) = mset r" using env by (simp add: search_env_ok_def)
    have inj: "l = l'" if "l \<in> set ls" "l' \<in> set ls" "lrID l = lrID l'" for l l'
      using good that by (auto simp: good_logs_def distinct_map inj_on_def)
    have mem: "lrID l \<in> lrID ` {l \<in> set ls. P l} \<longleftrightarrow> P l" if "l \<in> set ls" for l P
      using inj [OF that] that by auto
    have "set r = lrID ` {l \<in> set ls. (\<forall>d\<in>set ?tokens. termPrefix d \<in> set (index_prefixes S l)) \<and> in_time q l}"
      unfolding r(3) ids'(3) ids Cons by (auto simp: mem intro!: imageI)
    also have "\<dots> = lrID ` {l \<in> set ls. indexed S q l \<and> in_time q l}"
    proof -
      have "(\<forall>d\<in>set ?tokens. termPrefix d \<in> set (index_prefixes S l)) \<longleftrightarrow> indexed S q l" if "l \<in> set ls" for l
      proof -
        have "termPrefix d \<in> set (index_prefixes S l) \<longleftrightarrow> d \<in> set (Tokenize ?U (lrMessage l))" if "d \<in> set ?tokens" for d
          using prefix_mem(4) [OF rec [OF \<open>l \<in> set ls\<close>] low] token_no_colon [OF low that] by blast
        moreover have "indexed S q l \<longleftrightarrow> set ?tokens \<subseteq> set (Tokenize ?U (lrMessage l))"
          using Cons by (simp add: indexed_def Let_def)
        ultimately show ?thesis by blast
      qed
      then show ?thesis by (metis (mono_tags, lifting) Collect_cong)
    qed
    finally have "set (seSetOrder S r) = lrID ` {l \<in> set ls. indexed S q l \<and> in_time q l}"
      using perm by (metis set_mset_mset)
    moreover have "distinct (seSetOrder S r)" using r(2) perm by (metis mset_eq_imp_distinct_iff)
    ultimately show ?thesis using Cons ids'(1) r(1) by (simp add: candidates_def intersectTerms_def Let_def)
  next
    case Nil
    define p where "p = (if qLevel q \<noteq> [] then lvlPrefix (ToUpper ?U (qLevel q))
      else if qService q \<noteq> [] then svcPrefix (qService q) else timePrefix)"
    have "own_prefix S p" using q by (simp add: p_def own_prefixes query_ok_def)
    from one [OF this] obtain ids where "scanPrefixIDs D (scan_from p (from_time q)) (scan_to p (to_time q)) db = Inr ids"
      "distinct ids" "set ids = lrID ` set (with_prefix S ls q p)" by blast
    moreover have "candidates S D q db = scanPrefixIDs D (scan_from p (from_time q)) (scan_to p (to_time q)) db"
      using Nil by (simp add: candidates_def p_def Let_def)
    moreover have "p \<in> set (index_prefixes S l) \<longleftrightarrow> indexed S q l" if "l \<in> set ls" for l
      using prefix_mem [OF rec [OF that] low] q Nil by (simp add: p_def indexed_def query_ok_def Let_def)
    then have "{l \<in> set ls. p \<in> set (index_prefixes S l) \<and> in_time q l} = {l \<in> set ls. indexed S q l \<and> in_time q l}" by blast
    ultimately show ?thesis unfolding ids by metis
  qed
qed

end

section \<open>Fetching and paging\<close>

definition the_log :: "LogRecord list \<Rightarrow> bytes \<Rightarrow> LogRecord" where
  "the_log ls i = hd (filter (\<lambda>l. lrID l = i) ls)"

lemma the_log: "distinct (map lrID ls) \<Longrightarrow> l \<in> set ls \<Longrightarrow> the_log ls (lrID l) = l"
proof (induction ls)
  case (Cons x ls)
  then show ?case by (cases "l = x") (force simp: the_log_def)+
qed simp

lemma find_the_log: "distinct (map lrID ls) \<Longrightarrow> l \<in> set ls \<Longrightarrow> find (\<lambda>x. lrID x = lrID l) ls = Some l"
  by (induction ls) auto

context kv_store begin

lemma GetByID_view:
  assumes "ok db" "vw db (docKey i) = Some p" "ParseLogRecord S p = Inr l"
  shows "\<exists>db'. GetByID S D i db = (Inr l, db') \<and> ok db' \<and> vw db' = vw db"
proof -
  obtain r db' where g: "dbGet D (docKey i) db = (r, db')" by fastforce
  have "docKey i \<noteq> []" by (simp add: docKey_def)
  then have "map_sum (\<lambda>err. err) contents r = (Inr p :: engine_error + bytes)"
    using get [OF assms(1) g] assms(2) by (simp add: map_answer_def)
  then obtain v where "r = Inr v" "contents v = p" by (cases r) auto
  then show ?thesis using get [OF assms(1) g] g assms(3) by (simp add: GetByID_def)
qed

lemma GetByID_log:
  assumes db: "ok db" "vw db = index_map S ls" and good: "good_logs S ls" and l: "l \<in> set ls"
  shows "\<exists>db'. GetByID S D (lrID l) db = (Inr l, db') \<and> ok db' \<and> vw db' = vw db"
proof -
  obtain p where p: "seMarshal S l = Some p" "ParseLogRecord S p = Inr l"
    using good l by (auto simp: good_logs_def list_all_iff good_record_def)
  then have "vw db (docKey (lrID l)) = Some p"
    using index_map_doc [of ls S "lrID l"] find_the_log [of ls l] good l by (simp add: db(2) good_logs_def)
  then show ?thesis using GetByID_view db(1) p(2) by blast
qed

lemma fetch_logs:
  assumes "ok db" "vw db = index_map S ls" "good_logs S ls" "set ids \<subseteq> lrID ` set ls"
  shows "\<exists>db'. fetch_loop S D q ids db = (filter (passes S q) (map (the_log ls) ids), db') \<and> ok db' \<and> vw db' = vw db"
  using assms
proof (induction ids arbitrary: db)
  case (Cons i ids)
  then obtain l where l: "l \<in> set ls" "i = lrID l" by auto
  obtain db1 where g: "GetByID S D i db = (Inr l, db1)" "ok db1" "vw db1 = vw db"
    using GetByID_log [OF Cons.prems(1-3) l(1)] l(2) by blast
  obtain db2 where "fetch_loop S D q ids db1 = (filter (passes S q) (map (the_log ls) ids), db2)" "ok db2" "vw db2 = vw db1"
    using Cons.IH [OF g(2)] g(3) Cons.prems by auto
  moreover have "the_log ls i = l" using the_log l Cons.prems(3) by (simp add: good_logs_def)
  ultimately show ?case using g by simp
qed simp

lemma Search_result:
  assumes db: "ok db" "vw db = index_map S ls" and good: "good_logs S ls" and env: "search_env_ok S" and q: "query_ok S q"
  shows "\<exists>db' hits. ok db' \<and> vw db' = vw db \<and> mset hits = mset (filter (matches S q) ls) \<and>
    sorted_wrt (\<lambda>a b. lrTimestamp a \<ge> lrTimestamp b) hits \<and>
    Search S D q db = (map_option (\<lambda>logs. Inr \<lparr>srTotalHits = int (length hits), srLogs = logs\<rparr>)
      (page (qLimit q) (qOffset q) hits), db')"
proof -
  obtain ids where ids: "candidates S D q db = Inr ids" "distinct ids"
    "set ids = lrID ` {l \<in> set ls. indexed S q l \<and> in_time q l}"
    using candidate_ids [OF assms] by blast
  let ?fetched = "filter (passes S q) (map (the_log ls) ids)"
  obtain db' where f: "fetch_loop S D q ids db = (?fetched, db')" "ok db'" "vw db' = vw db"
    using fetch_logs [OF db good, of ids q] ids(3) by blast
  have dist: "distinct (map lrID ls)" using good by (simp add: good_logs_def)
  have id: "the_log ls (lrID l) = l" if "l \<in> set ls" for l using the_log [OF dist that] .
  have "set (map (the_log ls) ids) = {l \<in> set ls. indexed S q l \<and> in_time q l}"
    using id unfolding set_map ids(3) by force
  then have "set ?fetched = set (filter (matches S q) ls)"
    using passes_in_time by (auto simp: matches_def)
  moreover have "distinct (map (the_log ls) ids)"
    using ids(2,3) id by (auto simp: distinct_map inj_on_def)
  moreover have "distinct ls" using dist by (simp add: distinct_map)
  ultimately have "mset ?fetched = mset (filter (matches S q) ls)"
    by (metis distinct_filter set_eq_iff_mset_eq_distinct)
  moreover have perm: "mset (seSort S ?fetched) = mset ?fetched" using env unfolding search_env_ok_def by blast
  ultimately have "mset (seSort S ?fetched) = mset (filter (matches S q) ls)" "length ?fetched = length (seSort S ?fetched)"
    using mset_eq_length [OF perm] by simp_all
  moreover have "sorted_wrt (\<lambda>a b. lrTimestamp a \<ge> lrTimestamp b) (seSort S ?fetched)"
    using env by (simp add: search_env_ok_def)
  moreover have "Search S D q db = (map_option (\<lambda>logs. Inr \<lparr>srTotalHits = int (length ?fetched), srLogs = logs\<rparr>)
      (page (qLimit q) (qOffset q) (seSort S ?fetched)), db')"
    using ids(1) f(1) by (simp add: Search_def del: filter_map split: option.split)
  ultimately show ?thesis using f(2,3) by metis
qed

text \<open>A document that was replaced is found under a term of its old text.\<close>

lemma Search_stale:
  assumes db: "ok db" "vw db = index_map S [l1, l2]" and good: "good_record S l1" "good_record S l2" "lrID l1 = lrID l2"
    and env: "search_env_ok S" and q: "query_ok S q"
    and c: "Tokenize (seUnicode S) (qText q) = [c]" "c \<in> set (Tokenize (seUnicode S) (lrMessage l1))" "in_time q l1"
    and pass: "passes S q l2"
  shows "\<exists>db'. Search S D q db = (map_option (\<lambda>logs. Inr \<lparr>srTotalHits = 1, srLogs = logs\<rparr>)
      (page (qLimit q) (qOffset q) [l2]), db')"
proof -
  have low: "lower_ok (seUnicode S)" using env by (simp add: search_env_ok_def)
  have nc: "58 \<notin> set c" using token_no_colon [OF low, of c "qText q"] c(1) by simp
  obtain ids where ids: "scanPrefixIDs D (scan_from (termPrefix c) (from_time q)) (scan_to (termPrefix c) (to_time q)) db = Inr ids"
    "distinct ids" "set ids = lrID ` set (with_prefix S [l1, l2] q (termPrefix c))"
    using scan_with_prefix [OF db _ own_prefixes(4) [OF low nc] q] good by auto
  have old: "l1 \<in> set (with_prefix S [l1, l2] q (termPrefix c))"
    using prefix_mem(4) [OF good(1) low nc] c(2,3) by (simp add: with_prefix_def in_time_def)
  have "set (with_prefix S [l1, l2] q (termPrefix c)) \<subseteq> {l1, l2}"
    by (auto simp: with_prefix_def split: if_splits)
  then have "set ids \<subseteq> {lrID l2}" unfolding ids(3) using good(3) by force
  moreover have "lrID l1 \<in> set ids" unfolding ids(3) using old by (rule imageI)
  ultimately have "set ids = {lrID l2}" using good(3) by auto
  then have one: "ids = [lrID l2]" using ids(2) by (cases ids; cases "tl ids") auto
  have perm: "seSetOrder S [lrID l2] = [lrID l2]"
    using env unfolding search_env_ok_def by (metis mset_single_iff mset.simps)
  obtain p where p: "seMarshal S l2 = Some p" "ParseLogRecord S p = Inr l2" using good(2) by (auto simp: good_record_def)
  have "vw db (docKey (lrID l2)) = Some p"
    using p(1) by (simp add: db(2) index_map_def add_record_def docKey_not_index)
  then obtain db' where "GetByID S D (lrID l2) db = (Inr l2, db')" using GetByID_view [OF db(1) _ p(2)] by blast
  then have "fetch_loop S D q [lrID l2] db = ([l2], db')" using pass by simp
  moreover have "candidates S D q db = Inr [lrID l2]"
    using c(1) ids(1) one perm by (simp add: candidates_def intersectTerms_def Let_def)
  moreover have "seSort S [l2] = [l2]" using env unfolding search_env_ok_def by (metis mset_single_iff mset.simps)
  ultimately show ?thesis by (simp add: Search_def split: option.split)
qed

end

section \<open>Ids with a colon\<close>

text \<open>The id taken from an index key is what follows its last colon, so it has none.\<close>

lemma Split_no_sep: "p \<in> set (Split c s) \<Longrightarrow> c \<notin> set p"
proof (induction s arbitrary: p)
  case (Cons b s)
  then show ?case by (cases "Split c s") (auto split: if_splits)
qed simp

lemma last_part_no_colon: "58 \<notin> set (last (Split 58 k))"
  using Split_no_sep [of "last (Split 58 k)" 58 k] length_Split [of 58 k] by (metis last_in_set length_0_conv nat.distinct(1))

lemma scan_loop_no_colon: "\<forall>i\<in>set ids. 58 \<notin> set i \<Longrightarrow> \<forall>i\<in>set (scan_loop u es seen ids). 58 \<notin> set i"
proof (induction es arbitrary: seen ids)
  case (Cons x es)
  let ?i = "last (Split 58 (Key x))"
  have "\<forall>i\<in>set (ids @ [?i]). 58 \<notin> set i" using Cons.prems last_part_no_colon by auto
  then have add: "\<forall>i\<in>set (scan_loop u es (insert ?i seen) (ids @ [?i])). 58 \<notin> set i" by (rule Cons.IH)
  have skip: "\<forall>i\<in>set (scan_loop u es seen ids). 58 \<notin> set i" by (rule Cons.IH [OF Cons.prems])
  show ?case unfolding scan_loop.simps Let_def using add skip Cons.prems by (simp only: split: if_split) blast
qed simp

lemma scanPrefixIDs_no_colon: "scanPrefixIDs D s u db = Inr ids \<Longrightarrow> \<forall>i\<in>set ids. 58 \<notin> set i"
  using scan_loop_no_colon [of "[]"] by (auto simp: scanPrefixIDs_def split: sum.splits)

lemma intersect_loop_subset: "intersect_loop D f u cs ids db = Inr r \<Longrightarrow> set r \<subseteq> set ids"
proof (induction cs arbitrary: ids)
  case (Cons c cs)
  then show ?case by (fastforce simp: Let_def split: sum.splits if_splits)
qed simp

lemma candidates_no_colon:
  assumes "search_env_ok S" "candidates S D q db = Inr ids"
  shows "\<forall>i\<in>set ids. 58 \<notin> set i"
proof (cases "Tokenize (seUnicode S) (qText q)")
  case Nil
  then show ?thesis using assms(2) scanPrefixIDs_no_colon by (fastforce simp: candidates_def Let_def split: if_splits)
next
  case (Cons c cs)
  then have terms: "intersectTerms S D (c # cs) (from_time q) (to_time q) db = Inr ids"
    using assms(2) by (simp add: candidates_def Let_def)
  then obtain js where js: "scanPrefixIDs D (scan_from (termPrefix c) (from_time q)) (scan_to (termPrefix c) (to_time q)) db = Inr js"
    by (auto simp: intersectTerms_def split: sum.splits)
  then obtain r where r: "intersect_loop D (from_time q) (to_time q) cs js db = Inr r" "ids = seSetOrder S r"
    using terms by (cases "intersect_loop D (from_time q) (to_time q) cs js db") (auto simp: intersectTerms_def)
  have "mset ids = mset r" using assms(1) r(2) by (simp add: search_env_ok_def)
  then have "set ids = set r" by (metis set_mset_mset)
  then show ?thesis using intersect_loop_subset [OF r(1)] scanPrefixIDs_no_colon [OF js] by blast
qed

lemma page_subset: "page m n xs = Some ys \<Longrightarrow> set ys \<subseteq> set xs"
  by (auto simp: page_def Let_def split: if_splits dest: in_set_dropD in_set_takeD)

context kv_store begin

lemma fetch_ids:
  assumes "ok db" "\<forall>i p l. vw db (docKey i) = Some p \<and> ParseLogRecord S p = Inr l \<longrightarrow> lrID l = i"
    and "fetch_loop S D q ids db = (ls, db')"
  shows "lrID ` set ls \<subseteq> set ids"
  using assms
proof (induction ids arbitrary: db ls)
  case (Cons i ids)
  obtain r db1 where g: "GetByID S D i db = (r, db1)" by fastforce
  obtain res dbg where d: "dbGet D (docKey i) db = (res, dbg)" by fastforce
  have "docKey i \<noteq> []" by (simp add: docKey_def)
  then have view: "map_sum (\<lambda>err. err) contents res =
      (case vw db (docKey i) of None \<Rightarrow> Inl KeyNotFound | Some v \<Rightarrow> Inr v)"
    using get [OF Cons.prems(1) d] by (simp add: map_answer_def)
  have db1: "ok db1" "vw db1 = vw db" using get [OF Cons.prems(1) d] g d by (auto simp: GetByID_def split: sum.splits)
  have own: "lrID l = i" if l: "r = Inr l" for l
  proof -
    obtain v where v: "res = Inr v" "ParseLogRecord S (contents v) = Inr l"
      using g d l by (cases res) (auto simp: GetByID_def)
    then have "vw db (docKey i) = Some (contents v)" using view by (auto split: option.splits)
    then show ?thesis using Cons.prems(2) v(2) by blast
  qed
  obtain ls1 where ls1: "fetch_loop S D q ids db1 = (ls1, db')" "set ls \<subseteq> set ls1 \<union> {l. r = Inr l}"
    using Cons.prems(3) g by (cases r) (auto split: prod.splits if_splits)
  have "lrID ` set ls1 \<subseteq> set ids" using Cons.IH [OF db1(1) _ ls1(1)] Cons.prems(2) db1(2) by simp
  then show ?case using ls1(2) own by auto
qed simp

lemma Search_no_colon:
  assumes "ok db" "\<forall>i p l. vw db (docKey i) = Some p \<and> ParseLogRecord S p = Inr l \<longrightarrow> lrID l = i"
    and "search_env_ok S" "Search S D q db = (Some (Inr res), db')"
  shows "\<forall>l\<in>set (srLogs res). 58 \<notin> set (lrID l)"
proof -
  obtain ids where ids: "candidates S D q db = Inr ids" using assms(4) by (auto simp: Search_def split: sum.splits)
  obtain ls db1 where ls: "fetch_loop S D q ids db = (ls, db1)" by fastforce
  have "page (qLimit q) (qOffset q) (seSort S ls) = Some (srLogs res)"
    using assms(4) ids ls by (auto simp: Search_def split: option.splits)
  then have "set (srLogs res) \<subseteq> set (seSort S ls)" by (rule page_subset)
  moreover have "set (seSort S ls) = set ls" using assms(3) unfolding search_env_ok_def by (metis set_mset_mset)
  ultimately show ?thesis using fetch_ids [OF assms(1,2) ls] candidates_no_colon [OF assms(3) ids] by blast
qed

end

section \<open>Pages\<close>

lemma wrap64_small: "0 \<le> x \<Longrightarrow> x < 2 ^ 63 \<Longrightarrow> wrap64 x = x"
  by (simp add: wrap64_def)

lemma wrap64_big: "2 ^ 63 \<le> x \<Longrightarrow> x < 2 ^ 64 \<Longrightarrow> wrap64 x = x - 2 ^ 64"
proof -
  assume "2 ^ 63 \<le> x" "x < 2 ^ 64"
  then have "(x + 2 ^ 63) mod 2 ^ 64 = x + 2 ^ 63 - 2 ^ 64"
    using mod_pos_geq [of "2 ^ 64" "x + 2 ^ 63"] by simp
  then show ?thesis by (simp add: wrap64_def)
qed

lemma page_no_overflow:
  assumes "0 < limit" "0 \<le> offset" "offset + limit < 2 ^ 63"
  shows "page limit offset xs = Some (take (nat limit) (drop (nat offset) xs))"
proof (cases "offset < int (length xs)")
  case True
  have w: "wrap64 (offset + limit) = offset + limit" using assms by (intro wrap64_small) auto
  have "nat (offset + limit) = nat offset + nat limit" using assms by simp
  then show ?thesis using True assms w by (auto simp: page_def Let_def drop_take)
qed (use assms in \<open>simp add: page_def Let_def\<close>)

lemma page_overflow:
  assumes "0 < limit" "limit < 2 ^ 63" "0 \<le> offset" "offset < int (length xs)" "offset < 2 ^ 63" "2 ^ 63 \<le> offset + limit"
  shows "page limit offset xs = None"
proof -
  have "wrap64 (offset + limit) = offset + limit - 2 ^ 64" using assms by (intro wrap64_big) auto
  then show ?thesis using assms by (simp add: page_def Let_def)
qed

end
