(* ===== verification/SearchDemo.thy ===== *)
theory SearchDemo
  imports SearchProps
begin

text \<open>
  Concrete data for the witnesses of the log search: engines with any finite contents, a codec for log
  records and an environment with it, two records.
\<close>

section \<open>Engines with given contents\<close>

lemma memtable_with:
  assumes "finite (dom v)"
  shows "\<exists>m. mem_ok m \<and> view [mem_entries m] = v"
  using assms
proof (induction rule: finite_Map_induct)
  case empty
  show ?case
    by (intro exI [of _ "MemTable_New (\<lambda>_. False) 1 1"]) (auto simp: view_def version_def value_of_def fun_eq_iff)
next
  case (update k w v)
  then obtain m where m: "mem_ok m" "view [mem_entries m] = v" by blast
  let ?x = "NewPutEntry 1 k (Some w)"
  obtain m' where m': "mem_ok m'" "mem_entries m' = put_entry ?x (mem_entries m)" using mem_Put [OF m(1), of ?x] by blast
  have "view [mem_entries m'] j = (v(k \<mapsto> w)) j" for j
    using m(2) put_entry_find [of "mem_entries m" j ?x] mem_sorted [OF m(1)]
    by (auto simp: view_def version_def m'(2) value_of_def)
  then show ?case using m'(1) by blast
qed

lemma engine_with:
  assumes "finite (dom v)"
  shows "\<exists>e. db_ok mem_manifest mem_used e \<and> engine_view e = v"
proof -
  obtain m where m: "mem_ok m" "view [mem_entries m] = v" using memtable_with [OF assms] by blast
  let ?e = "(opened 1)\<lparr>egActiveMem := m\<rparr>"
  have "db_ok mem_manifest mem_used ?e" using opened_ok [of 1] m(1)
    by (simp add: db_ok_def machine_ok_def engine_ok_def store_ok_def mems_ok_def readers_open_def opened_fields)
  moreover have "engine_runs ?e = [mem_entries m]"
    by (simp add: engine_runs_def mem_runs_def store_runs_empty opened_fields)
  ultimately show ?thesis using m(2) by metis
qed

lemma finite_index_map: "finite (dom (index_map S ls))"
proof (induction ls rule: rev_induct)
  case (snoc l ls)
  have "dom (add_record S l v) \<subseteq> insert (docKey (lrID l)) (set (index_keys S l) \<union> dom v)" for v
    by (auto simp: add_record_def split: if_splits)
  then show ?case using snoc by (simp add: index_map_simps) (metis finite.insertI finite_UnI finite_set finite_subset)
qed (simp add: index_map_simps)

section \<open>An environment\<close>

text \<open>Strings with their lengths in front of them.\<close>

definition frame :: "bytes \<Rightarrow> bytes" where "frame s = PutUint64 (word_of_nat (length s)) @ s"
definition unframe :: "bytes \<Rightarrow> bytes \<times> bytes" where
  "unframe d = (let n = unat (Uint64 (take 8 d)) in (take n (drop 8 d), drop (8 + n) d))"

lemma unframe_frame [simp]: "length s < 2 ^ 64 \<Longrightarrow> unframe (frame s @ d) = (s, d)"
  by (simp add: unframe_def frame_def unat_of_nat Let_def)

definition demo_marshal :: "LogRecord \<Rightarrow> bytes option" where
  "demo_marshal l =
     (case lrFields l of
        None \<Rightarrow> Some (frame (lrID l) @ frame (lrLevel l) @ frame (lrService l) @ frame (lrHost l) @ frame (lrMessage l) @
          PutUint64 (word_of_int (lrTimestamp l)))
      | Some _ \<Rightarrow> None)"

definition demo_unmarshal :: "bytes \<Rightarrow> LogRecord option" where
  "demo_unmarshal d0 =
     (case unframe d0 of (i, d1) \<Rightarrow> case unframe d1 of (lvl, d2) \<Rightarrow> case unframe d2 of (svc, d3) \<Rightarrow>
      case unframe d3 of (host, d4) \<Rightarrow> case unframe d4 of (msg, d5) \<Rightarrow>
        Some \<lparr>lrID = i, lrTimestamp = uint (Uint64 d5), lrLevel = lvl, lrService = svc, lrHost = host,
          lrMessage = msg, lrFields = None\<rparr>)"

lemma demo_codec:
  assumes "lrFields l = None" "0 \<le> lrTimestamp l" "lrTimestamp l < 2 ^ 63"
    "\<forall>s\<in>{lrID l, lrLevel l, lrService l, lrHost l, lrMessage l}. length s < 2 ^ 64"
  shows "\<exists>p. demo_marshal l = Some p \<and> demo_unmarshal p = Some l"
proof -
  have "uint (word_of_int (lrTimestamp l) :: int64) = lrTimestamp l"
    using assms(2,3) by (simp add: unsigned_of_int take_bit_int_eq_self)
  then show ?thesis using assms by (cases l) (simp add: demo_marshal_def demo_unmarshal_def)
qed

definition demo_env :: search_env where
  "demo_env = \<lparr>seUnicode = ascii_unicode, seMarshal = demo_marshal, seUnmarshal = demo_unmarshal,
     seRange = (\<lambda>m. map fst (sorted_list_of_fmap m)), seSetOrder = rev,
     seSort = sort_key (\<lambda>l. - lrTimestamp l), seDuration = (\<lambda>_. None), seNewID = ascii ''new'', seNow = 1\<rparr>"

lemma demo_env_simps [simp]:
  "seUnicode demo_env = ascii_unicode" "seMarshal demo_env = demo_marshal" "seUnmarshal demo_env = demo_unmarshal"
  "seDuration demo_env = (\<lambda>_. None)"
  by (simp_all add: demo_env_def)

lemma demo_env_ok: "search_env_ok demo_env"
proof -
  have "sorted_wrt (\<lambda>a b. lrTimestamp a \<ge> lrTimestamp b) (sort_key (\<lambda>l. - lrTimestamp l) ls)"
    for ls :: "LogRecord list"
    using sorted_sort_key [of "\<lambda>l. - lrTimestamp l" ls] by (simp add: sorted_wrt_map)
  then show ?thesis by (simp add: search_env_ok_def demo_env_def lower_ok_def ascii_unicode_def)
qed

section \<open>Records\<close>

lemma Validate_fixed:
  assumes "lrID l \<noteq> []" "0 < lrTimestamp l" "lrLevel l \<noteq> []" "lrMessage l \<noteq> []" "lrService l \<noteq> []"
    "ToUpper (seUnicode S) (TrimSpace (seUnicode S) (lrLevel l)) = lrLevel l"
  shows "Validate S l = (None, l)"
  using assms by (simp add: Validate_def Let_def)

definition record_a :: LogRecord where
  "record_a = \<lparr>lrID = ascii ''a'', lrTimestamp = 5, lrLevel = ascii ''ERROR'', lrService = ascii ''api'', lrHost = [],
     lrMessage = ascii ''Disk full'', lrFields = None\<rparr>"

definition record_b :: LogRecord where
  "record_b = \<lparr>lrID = ascii ''b'', lrTimestamp = 7, lrLevel = ascii ''INFO'', lrService = ascii ''db'', lrHost = [],
     lrMessage = ascii ''disk_ok: disk'', lrFields = None\<rparr>"

text \<open>The record \<open>record_a\<close> again with another text.\<close>

definition record_c :: LogRecord where
  "record_c = record_a\<lparr>lrMessage := ascii ''all fine''\<rparr>"

lemma demo_good:
  assumes "lrFields l = None" "lrID l \<noteq> []" "0 < lrTimestamp l" "lrTimestamp l < 2 ^ 63" "lrLevel l \<noteq> []" "lrMessage l \<noteq> []"
    "lrService l \<noteq> []" "ToUpper ascii_unicode (TrimSpace ascii_unicode (lrLevel l)) = lrLevel l"
    "\<forall>s\<in>{lrID l, lrLevel l, lrService l, lrHost l, lrMessage l}. length s < 2 ^ 64"
    "58 \<notin> set (lrID l)" "0xFF \<notin> set (lrID l)" "58 \<notin> set (lrLevel l)" "58 \<notin> set (lrService l)"
  shows "good_record demo_env l"
proof -
  have "Validate demo_env l = (None, l)" using assms by (intro Validate_fixed) (simp_all add: demo_env_def)
  moreover obtain p where "demo_marshal l = Some p" "demo_unmarshal p = Some l" using demo_codec [of l] assms by auto
  ultimately show ?thesis using assms by (auto simp: good_record_def ParseLogRecord_def demo_env_def)
qed

lemmas level_simps = TrimSpace_def trim_def IsSpace_def runes_ascii ToUpper_ascii upper_byte_def

lemma records_good: "good_record demo_env record_a" "good_record demo_env record_b" "good_record demo_env record_c"
  by (rule demo_good; simp add: record_a_def record_b_def record_c_def level_simps del: runes.simps)+

lemma records_fixed: "Validate demo_env record_a = (None, record_a)"
  by (rule Validate_fixed) (simp_all add: record_a_def demo_env_def level_simps del: runes.simps)

lemmas token_simps = Tokenize_terms fields_ascii separator_def IsLetter_def IsDigit_def ascii_upper_def ascii_lower_def
  cleaned_ascii trim_def lower_byte_def is_term_def defaultStopWords_def

lemma record_tokens:
  "Tokenize ascii_unicode (lrMessage record_a) = [ascii ''disk'', ascii ''full'']"
  "Tokenize ascii_unicode (lrMessage record_b) = [ascii ''disk_ok'', ascii ''disk'']"
  "Tokenize ascii_unicode (lrMessage record_c) = [ascii ''all'', ascii ''fine'']"
  "Tokenize ascii_unicode (ascii ''DISK'') = [ascii ''disk'']"
  by (simp_all add: record_a_def record_b_def record_c_def token_simps)

definition demo_query :: Query where
  "demo_query = \<lparr>qText = ascii ''DISK'', qLevel = [], qService = [], qHost = [], qFromTime = 0, qToTime = 0,
     qFields = fmempty, qLimit = 1, qOffset = 0\<rparr>"

lemma demo_query_ok: "query_ok demo_env (demo_query\<lparr>qLimit := m, qOffset := n\<rparr>)"
  by (simp add: query_ok_def demo_query_def ToUpper_def)

lemma empty_fields: "sorted_list_of_fmap (fmempty :: fields) = []"
proof -
  have "set (sorted_list_of_fset ({||} :: bytes fset)) = {}" by simp
  then show ?thesis by (simp only: set_empty sorted_list_of_fmap_def fmdom_empty list.map)
qed

lemma demo_matches:
  "matches demo_env (demo_query\<lparr>qLimit := m, qOffset := n\<rparr>) l \<longleftrightarrow>
     ascii ''disk'' \<in> set (Tokenize ascii_unicode (lrMessage l)) \<and> 0 \<le> lrTimestamp l \<and> lrTimestamp l < 2 ^ 62"
  using empty_fields
  by (auto simp: matches_def indexed_def passes_def demo_query_def demo_env_def record_tokens(4) [simplified] from_time_def to_time_def Let_def)

end
