(* ===== verification/ServerProps.thy ===== *)
theory ServerProps
  imports Server SearchDemo
begin

text \<open>
  What the key-value interface of the server promises over the storage engine, and what happens to a batch of
  records with a long line.
\<close>

section \<open>Deletion\<close>

locale kv_delete = kv_store +
  assumes delete: "ok db \<Longrightarrow> dbDelete D k db = (r, db') \<Longrightarrow>
      ok db' \<and> vw db' = (if r = None then (vw db)(k := None) else vw db)"

lemma Delete_readers: "Delete M E k e = (r, e') \<Longrightarrow> stReaders e' = stReaders e"
  by (auto simp: Delete_def write_entry_def flush_if_full_def Let_def triggerFlush_def rotate_readers
      split: if_splits prod.splits option.splits)

lemma engine_kv_delete: "manifest_laws M used \<Longrightarrow> kv_delete (engine_db M E) (db_ok M used) engine_view"
proof (rule kv_delete.intro)
  assume laws: "manifest_laws M used"
  show "kv_store (engine_db M E) (db_ok M used) engine_view" by (rule engine_kv_store [OF laws])
  show "kv_delete_axioms (engine_db M E) (db_ok M used) engine_view"
  proof
    fix db k r db'
    assume ok: "db_ok M used db" and del: "dbDelete (engine_db M E) k db = (r, db')"
    then show "db_ok M used db' \<and> engine_view db' = (if r = None then (engine_view db)(k := None) else engine_view db)"
      using Delete_spec [OF laws, of db "E db" k r db'] Delete_readers [of M "E db" k db r db']
      by (simp add: engine_db_def db_ok_def)
  qed
qed

interpretation mem_kv: kv_delete "engine_db mem_manifest E" "db_ok mem_manifest mem_used" engine_view
  by (rule engine_kv_delete [OF mem_manifest_laws])

section \<open>Pages of pairs\<close>

definition pairs_between :: "(bytes \<Rightarrow> bytes option) \<Rightarrow> bytes \<Rightarrow> bytes \<Rightarrow> (bytes \<times> bytes) list" where
  "pairs_between v s u = map (\<lambda>k. (k, the (v k))) (sorted_list_of_set {k. in_range s u k \<and> v k \<noteq> None})"

definition within :: "bytes \<Rightarrow> Entry \<Rightarrow> bool" where
  "within u x \<longleftrightarrow> u = [] \<or> Key x \<le> u"

lemma scan_pairs_take:
  "int (length res) \<le> limit \<Longrightarrow> scan_pairs u limit es res =
    res @ take (nat limit - length res) (map (\<lambda>x. (Key x, contents (Value x))) (takeWhile (within u) es))"
proof (induction es arbitrary: res)
  case (Cons x es)
  show ?case
  proof (cases "int (length res) < limit \<and> within u x")
    case True
    then have "nat limit - length res = Suc (nat limit - length (res @ [(Key x, contents (Value x))]))"
      by (simp add: Suc_diff_Suc zless_nat_conj flip: zless_nat_eq_int_zless)
    moreover have "scan_pairs u limit (x # es) res = scan_pairs u limit es (res @ [(Key x, contents (Value x))])"
      using True by (auto simp: within_def not_less)
    ultimately show ?thesis using True Cons.IH [of "res @ [(Key x, contents (Value x))]"] by simp
  next
    case False
    then show ?thesis using Cons.prems by (auto simp: within_def not_le)
  qed
qed simp

lemma takeWhile_within: "keys_sorted es \<Longrightarrow> takeWhile (within u) es = filter (within u) es"
proof (induction es)
  case (Cons x es)
  have "filter (within u) es = []" if "\<not> within u x"
  proof -
    have "u < Key x" "u \<noteq> []" using that by (simp_all add: within_def not_le)
    then show ?thesis using Cons.prems by (auto simp: within_def filter_empty_conv)
  qed
  then show ?case using Cons by auto
qed simp

lemma scanned_pairs:
  assumes "scanned v s u es"
  shows "map (\<lambda>x. (Key x, contents (Value x))) (takeWhile (within u) es) = pairs_between v s u"
proof -
  let ?fs = "filter (within u) es"
  have sorted: "keys_sorted es" using assms by (simp add: scanned_def)
  have val: "v (Key x) = Some (contents (Value x))" "in_range s u (Key x)" if "x \<in> set ?fs" for x
  proof -
    show r: "in_range s u (Key x)" using assms that by (auto simp: scanned_def in_range_def within_def)
    have "x \<in> set es" using that by simp
    then have "find (\<lambda>y. Key y = Key x) es = Some x" using sorted by (induction es) auto
    then show "v (Key x) = Some (contents (Value x))" using assms r by (force simp: scanned_def)
  qed
  have "Key ` set ?fs = {k. in_range s u k \<and> v k \<noteq> None}"
  proof
    show "{k. in_range s u k \<and> v k \<noteq> None} \<subseteq> Key ` set ?fs"
    proof
      fix k assume k: "k \<in> {k. in_range s u k \<and> v k \<noteq> None}"
      then have "map_option (\<lambda>x. contents (Value x)) (find (\<lambda>x. Key x = k) es) = v k"
        using assms by (simp add: scanned_def)
      then obtain x where "find (\<lambda>x. Key x = k) es = Some x" using k by auto
      then have "x \<in> set es" "Key x = k" by (auto simp: find_Some_iff)
      then show "k \<in> Key ` set ?fs" using k by (auto simp: within_def in_range_def)
    qed
  qed (use val in auto)
  moreover have "sorted_wrt (<) (map Key ?fs)" using sorted by (intro keys_sorted_filter)
  ultimately have "map Key ?fs = sorted_list_of_set {k. in_range s u k \<and> v k \<noteq> None}"
    using sorted_list_of_set.idem_if_sorted_distinct [of "map Key ?fs"] by (simp add: strict_sorted_iff)
  then have "pairs_between v s u = map (\<lambda>k. (k, the (v k))) (map Key ?fs)" by (simp add: pairs_between_def)
  also have "\<dots> = map (\<lambda>x. (Key x, contents (Value x))) ?fs" using val(1) by simp
  finally show ?thesis using takeWhile_within [OF sorted] by simp
qed

section \<open>Routes\<close>

abbreviation kv_path :: "bytes \<Rightarrow> bytes" where
  "kv_path key \<equiv> ascii ''/api/v1/kv/'' @ key"

lemma serve_scan: "rqPath r = kv_path (ascii ''scan'') \<Longrightarrow> serve_mux h r db = handleKVScan (ahDb h) r db"
  by (simp add: serve_mux_def CleanPath_def Let_def)

lemma serve_kv:
  "rqPath r = kv_path key \<Longrightarrow> CleanPath (kv_path key) = kv_path key \<Longrightarrow> key \<noteq> ascii ''scan'' \<Longrightarrow>
    serve_mux h r db = handleKV (ahDb h) r db"
  by (simp add: serve_mux_def HasPrefix_def Let_def)

lemma server_db_fields [simp]:
  "dbPut (server_db F M E C) = dbPut (engine_db M E)" "dbDelete (server_db F M E C) = dbDelete (engine_db M E)"
  "dbGet (server_db F M E C) = dbGet (engine_db M E)" "dbScan (server_db F M E C) = dbScan (engine_db M E)"
  by (simp_all add: server_db_def Db.defs)

text \<open>The specification of a key-value request: the map before, the response, the map after.\<close>

definition kv_answer :: "Request \<Rightarrow> bytes \<Rightarrow> (bytes \<Rightarrow> bytes option) \<Rightarrow> Response \<Rightarrow> (bytes \<Rightarrow> bytes option) \<Rightarrow> bool" where
  "kv_answer r key v resp v' \<longleftrightarrow>
     (case rqMethod r of
        GET \<Rightarrow> v' = v \<and> resp = (case v key of
            None \<Rightarrow> http_fail 404 (Message ''Key not found'')
          | Some w \<Rightarrow> \<lparr>rsStatus = 200, rsType = ''application/octet-stream'', rsBody = Text w\<rparr>)
      | DELETE \<Rightarrow> resp = written 200 ''deleted'' \<and> v' = v(key := None) \<or> rsStatus resp = 500 \<and> v' = v
      | HEAD \<Rightarrow> resp = bad_method \<and> v' = v
      | OtherMethod \<Rightarrow> resp = bad_method \<and> v' = v
      | _ \<Rightarrow> (case rqBody r of
            None \<Rightarrow> rsStatus resp = 400 \<and> v' = v
          | Some w \<Rightarrow> resp = written 201 ''created'' \<and> v' = v(key \<mapsto> w) \<or> rsStatus resp = 500 \<and> v' = v))"

text \<open>The engine behind the handlers, seen through the operations only.\<close>

lemma handleKV_answer:
  assumes "kv_delete D ok vw" "dbPut D' = dbPut D" "dbDelete D' = dbDelete D" "dbGet D' = dbGet D"
    and "ok db" "rqPath r = kv_path key" "key \<noteq> []"
  shows "\<exists>resp db'. handleKV D' r db = (Some resp, db') \<and> ok db' \<and> kv_answer r key (vw db) resp (vw db')"
proof -
  have key: "TrimPrefix (rqPath r) (ascii ''/api/v1/kv/'') = key" unfolding assms(6) by (rule affix_simps)
  have put: "kv_store D ok vw" using assms(1) by (rule kv_delete.axioms(1))
  note ops = kv_store.put [OF put assms(5)] kv_store.get [OF put assms(5)] kv_delete.delete [OF assms(1,5)]
  obtain rg dbg where g: "dbGet D key db = (rg, dbg)" by fastforce
  obtain rd dbd where d: "dbDelete D key db = (rd, dbd)" by fastforce
  obtain rp dbp where p: "dbPut D key (rqBody r) db = (rp, dbp)" by fastforce
  note spec = ops(1) [OF p] ops(2) [OF g] ops(3) [OF d]
  show ?thesis
  proof (cases "rqMethod r")
    case GET
    have get: "handleKV D' r db = (case rg of
        Inl err \<Rightarrow> (Some (if err = KeyNotFound then http_fail 404 (Message ''Key not found'') else http_fail 500 (OnEngine err)), dbg)
      | Inr w \<Rightarrow> (Some \<lparr>rsStatus = 200, rsType = ''application/octet-stream'', rsBody = Text (contents w)\<rparr>, dbg))"
      using GET g assms(4,7) unfolding handleKV_def key Let_def by (simp split: sum.split)
    show ?thesis
      using spec(2) assms(7) GET unfolding get
      by (cases rg; cases "vw db key") (auto simp: kv_answer_def map_answer_def)
  next
    case DELETE
    then show ?thesis using d spec(3) assms(3,7) unfolding handleKV_def key Let_def
      by (cases rd) (auto simp: kv_answer_def http_fail_def)
  next
    case HEAD
    then show ?thesis using assms(5,7) unfolding handleKV_def key Let_def by (simp add: kv_answer_def)
  next
    case OtherMethod
    then show ?thesis using assms(5,7) unfolding handleKV_def key Let_def by (simp add: kv_answer_def)
  next
    case POST
    then show ?thesis using p spec(1) assms(2,5,7) unfolding handleKV_def key Let_def
      by (cases "rqBody r"; cases rp) (auto simp: kv_answer_def http_fail_def)
  next
    case PUT
    then show ?thesis using p spec(1) assms(2,5,7) unfolding handleKV_def key Let_def
      by (cases "rqBody r"; cases rp) (auto simp: kv_answer_def http_fail_def)
  qed
qed

lemma serve_kv_answer:
  assumes "manifest_laws M used" "db_ok M used e" "ahDb h = server_db F M E C"
    and "rqPath r = kv_path key" "CleanPath (kv_path key) = kv_path key" "key \<noteq> []" "key \<noteq> ascii ''scan''"
  shows "\<exists>resp e'. serve_mux h r e = (Some resp, e') \<and> db_ok M used e' \<and>
    kv_answer r key (engine_view e) resp (engine_view e')"
  unfolding serve_kv [OF assms(4,5,7)]
  by (rule handleKV_answer [OF engine_kv_delete [OF assms(1), of E] _ _ _ assms(2,4,6)]) (simp_all add: assms(3))

text \<open>
  C5. The key-value interface. Over the storage engine a request for a key behaves like a map with the outcomes
  of the protocol: reading gives the value or 404, writing and deleting change exactly this key or fail with
  500, other methods are refused. It holds for every key whose path is clean, except the one whose path is
  that of the scan.
\<close>

theorem http_kv_is_map:
  assumes "manifest_laws M used" "db_ok M used e" "ahDb h = server_db F M E C"
    and "rqPath r = kv_path key" "CleanPath (kv_path key) = kv_path key" "key \<noteq> []" "key \<noteq> ascii ''scan''"
  shows "\<exists>resp e'. serve_mux h r e = (Some resp, e') \<and> db_ok M used e' \<and>
    kv_answer r key (engine_view e) resp (engine_view e')"
  by (rule serve_kv_answer [OF assms])

text \<open>A stored key is read with status 200.\<close>

definition demo_handler :: "'f float_ops \<Rightarrow> (mem_manifest Engine \<Rightarrow> compact_env) \<Rightarrow> (mem_manifest Engine, 'f) APIHandler" where
  "demo_handler F C = \<lparr>ahDb = server_db F mem_manifest (\<lambda>_. calm_env) C, ahEnv = (\<lambda>_. demo_env),
     ahJSON = \<lparr>jsRecords = (\<lambda>_. None), jsQuery = (\<lambda>_. None)\<rparr>\<rparr>"

definition demo_get :: "bytes \<Rightarrow> Request" where
  "demo_get path = \<lparr>rqMethod = GET, rqPath = path, rqQuery = (\<lambda>_. []), rqBody = Some []\<rparr>"

theorem http_kv_is_map_witness:
  "\<exists>(h :: (mem_manifest Engine, rat) APIHandler) e. fst (serve_mux h (demo_get (kv_path (ascii ''a''))) e) =
    Some \<lparr>rsStatus = 200, rsType = ''application/octet-stream'', rsBody = Text [7]\<rparr>"
proof -
  obtain e where e: "db_ok mem_manifest mem_used e" "engine_view e = [ascii ''a'' \<mapsto> [7]]"
    using engine_with [of "[ascii ''a'' \<mapsto> [7]]"] by auto
  let ?h = "demo_handler (undefined :: rat float_ops) undefined" and ?r = "demo_get (kv_path (ascii ''a''))"
  have "ahDb ?h = server_db undefined mem_manifest (\<lambda>_. calm_env) undefined" by (simp add: demo_handler_def)
  then obtain resp e' where "serve_mux ?h ?r e = (Some resp, e')"
    "kv_answer ?r (ascii ''a'') (engine_view e) resp (engine_view e')"
    using http_kv_is_map [OF mem_manifest_laws e(1), where h = ?h and F = undefined and E = "\<lambda>_. calm_env"
        and C = undefined and r = ?r and key = "ascii ''a''"]
    by (auto simp: demo_get_def CleanPath_def)
  then have "fst (serve_mux ?h ?r e) = Some \<lparr>rsStatus = 200, rsType = ''application/octet-stream'', rsBody = Text [7]\<rparr>"
    using e(2) by (simp add: kv_answer_def demo_get_def)
  then show ?thesis by blast
qed

text \<open>
  C24. The scan of pairs. Whatever its method, a request to the path of the scan is answered with the pairs of
  the engine between start and end in the order of the keys, as many as the limit allows, and the contents of
  the engine stay as they were.
\<close>

theorem http_scan_pages:
  assumes "manifest_laws M used" "db_ok M used e" "ahDb h = server_db F M E C" "rqPath r = kv_path (ascii ''scan'')"
  shows "serve_mux h r e = (Some (json_ok (Pairs (take (nat (scan_limit (rqQuery r ''limit'')))
      (pairs_between (engine_view e) (rqQuery r ''start'') (rqQuery r ''end''))))), e)"
proof -
  obtain es where es: "dbScan (engine_db M E) (rqQuery r ''start'') (rqQuery r ''end'') e = Inr es"
    "scanned (engine_view e) (rqQuery r ''start'') (rqQuery r ''end'') es"
    using kv_store.scan [OF engine_kv_store [OF assms(1)] assms(2)] by blast
  have "0 < scan_limit (rqQuery r ''limit'')" by (auto simp: scan_limit_def split: prod.split)
  then have "scan_pairs (rqQuery r ''end'') (scan_limit (rqQuery r ''limit'')) es [] =
      take (nat (scan_limit (rqQuery r ''limit''))) (pairs_between (engine_view e) (rqQuery r ''start'') (rqQuery r ''end''))"
    using scan_pairs_take [of "[]" _ "rqQuery r ''end''" es] scanned_pairs [OF es(2)] by simp
  then show ?thesis unfolding serve_scan [OF assms(4)] using es(1) by (simp add: handleKVScan_def assms(3))
qed

text \<open>A PUT to the key named scan answers with pairs and stores nothing.\<close>

theorem http_scan_pages_witness:
  "\<exists>(h :: (mem_manifest Engine, rat) APIHandler) e. engine_view e = [ascii ''a'' \<mapsto> [7], ascii ''b'' \<mapsto> [8]] \<and>
    serve_mux h ((demo_get (kv_path (ascii ''scan'')))\<lparr>rqMethod := PUT\<rparr>) e =
      (Some (json_ok (Pairs [(ascii ''a'', [7]), (ascii ''b'', [8])])), e)"
proof -
  let ?v = "[ascii ''a'' \<mapsto> [7], ascii ''b'' \<mapsto> [8]] :: bytes \<Rightarrow> bytes option"
  obtain e where e: "db_ok mem_manifest mem_used e" "engine_view e = ?v" using engine_with [of ?v] by auto
  let ?h = "demo_handler (undefined :: rat float_ops) undefined" and ?r = "(demo_get (kv_path (ascii ''scan'')))\<lparr>rqMethod := PUT\<rparr>"
  have keys: "{k. in_range [] [] k \<and> ?v k \<noteq> None} = {ascii ''a'', ascii ''b''}" by (auto simp: in_range_def)
  have "pairs_between ?v [] [] = [(ascii ''a'', [7]), (ascii ''b'', [8])]"
    unfolding pairs_between_def keys by simp
  moreover have "ahDb ?h = server_db undefined mem_manifest (\<lambda>_. calm_env) undefined" by (simp add: demo_handler_def)
  ultimately have "serve_mux ?h ?r e = (Some (json_ok (Pairs [(ascii ''a'', [7]), (ascii ''b'', [8])])), e)"
    using http_scan_pages [OF mem_manifest_laws e(1), where r = ?r and h = ?h] e(2)
    by (simp add: demo_get_def scan_limit_def)
  then show ?thesis using e(2) by blast
qed

section \<open>Batches with a long line\<close>

lemma Split_lines: "10 \<notin> set l \<Longrightarrow> Split 10 (p @ 10 # l @ rest) = Split 10 p @ (case Split 10 rest of [] \<Rightarrow> [l] | r # rs \<Rightarrow> (l @ r) # rs)"
proof (induction p)
  case Nil
  have "Split 10 (l @ rest) = (case Split 10 rest of [] \<Rightarrow> [l] | r # rs \<Rightarrow> (l @ r) # rs)" using Nil
    by (induction l) (auto split: list.split)
  then show ?case by simp
next
  case (Cons b p)
  then show ?case by (cases "Split 10 p") auto
qed

lemma takeWhile_stop: "list_all P xs \<Longrightarrow> \<not> P y \<Longrightarrow> takeWhile P (xs @ y # ys) = xs"
  by (induction xs) simp_all

lemma ingest_pointers_all:
  "ingest_pointers S D (map Some logs) db =
     (case IngestBatch S (Db.truncate D) logs db of (n, err, db') \<Rightarrow> (Some (n, err), db'))"
proof -
  have all: "takeWhile (\<lambda>l. l \<noteq> None) (map Some logs) = map Some logs" by (simp add: takeWhile_eq_all_conv)
  have vals: "map the (map Some logs) = logs" by (simp add: comp_def)
  show ?thesis unfolding ingest_pointers_def Let_def all vals by (simp split: prod.split)
qed

lemma ingest_loop_count: "ingest_loop S D ls n db = (m, None, db') \<Longrightarrow> m = n + length ls"
  by (induction ls arbitrary: n db) (fastforce split: prod.splits option.splits)+

text \<open>
  C25. Long lines of a batch. A batch of several lines is read up to the first line of 64 KB or more: if the
  lines before it parse, exactly their records are the records of the request. They are ingested as if the
  batch ended there: the answer is 200 with their number, or 500 when the ingestion of one of them fails, and
  nothing reports the rest.
\<close>

theorem long_line_ends_batch:
  assumes "TrimSpace (seUnicode (S 0)) body = first @ 10 # long @ rest" "hd first = 123" "first \<noteq> []"
    and "list_all (\<lambda>l. length l < 65536) (Split 10 first)" "10 \<notin> set long" "65536 \<le> length long"
    and "parse_lines S (map drop_cr (Split 10 first)) [] = Inr logs"
    and "rqMethod r = POST" "rqBody r = Some body"
  shows "request_logs S J body = Inr (map Some logs) \<and>
    (case IngestBatch S (Db.truncate D) logs db of
       (n, None, db') \<Rightarrow>
         n = length logs \<and> handleIngest S J D r db = (Some (json_ok (Ingested (length logs))), db')
     | (n, Some err, db') \<Rightarrow>
         handleIngest S J D r db = (Some (http_fail 500 (OnSearch ''Ingestion failed'' err)), db'))"
proof -
  obtain f where f: "first = 123 # f" using assms(2,3) by (cases first) auto
  obtain x xs where x: "Split 10 rest = x # xs" by (cases "Split 10 rest") auto
  have "takeWhile (\<lambda>l. length l < 65536) (Split 10 (first @ 10 # long @ rest)) = Split 10 first"
    unfolding Split_lines [OF assms(5)] x list.case
    using assms(4,6) by (intro takeWhile_stop) simp_all
  then have "scan_lines (first @ 10 # long @ rest) = map drop_cr (Split 10 first)" by (simp add: scan_lines_def)
  then have logs: "request_logs S J body = Inr (map Some logs)"
    using assms(1,7) unfolding f by (simp add: request_logs_def del: Split.simps)
  obtain n err db' where i: "IngestBatch S (Db.truncate D) logs db = (n, err, db')" by (metis prod_cases3)
  have "n = length logs" if "err = None" using ingest_loop_count [of S "Db.truncate D" logs 0 db n db'] i that
    by (simp add: IngestBatch_def)
  then show ?thesis
    using logs i assms(8,9)
    by (cases err) (simp_all add: handleIngest_def ingest_pointers_all)
qed

text \<open>A record on the first line, 64 KB on the second: one record is stored, and the answer is 200.\<close>

theorem long_line_ends_batch_witness:
  "\<exists>(D :: (mem_manifest Engine, rat) ServerDb) r e'. rqBody r = Some (ascii ''{}'' @ 10 # replicate 65536 120) \<and>
    handleIngest (\<lambda>_. demo_env\<lparr>seUnmarshal := (\<lambda>d. if d = ascii ''{}'' then Some record_a else None)\<rparr>)
      \<lparr>jsRecords = (\<lambda>_. None), jsQuery = (\<lambda>_. None)\<rparr> D r (opened 1) = (Some (json_ok (Ingested 1)), e')"
proof -
  let ?S = "\<lambda>_ :: nat. demo_env\<lparr>seUnmarshal := (\<lambda>d. if d = ascii ''{}'' then Some record_a else None)\<rparr>"
  let ?long = "replicate 65536 (120 :: byte)"
  let ?body = "ascii ''{}'' @ 10 # ?long"
  let ?D = "server_db undefined mem_manifest (\<lambda>_. calm_env) undefined :: (mem_manifest Engine, rat) ServerDb"
  define r where "r = \<lparr>rqMethod = POST, rqPath = [], rqQuery = (\<lambda>_. []), rqBody = Some ?body\<rparr>"
  have asc: "is_ascii ?body" by (simp add: is_ascii_def list_all_iff)
  have space: "\<not> IsSpace ascii_unicode 123" "\<not> IsSpace ascii_unicode 120" by (simp_all add: IsSpace_def)
  have "trim (\<lambda>(r, bs). IsSpace ascii_unicode r) (map (\<lambda>b. (unat b, [b])) ?body) = map (\<lambda>b. (unat b, [b])) ?body"
    using space by (intro trim_id) (simp add: hd_map last_map last_replicate)
  then have t: "TrimSpace (seUnicode (?S 0)) ?body = ascii ''{}'' @ 10 # ?long @ []"
    using asc by (simp add: TrimSpace_def runes_ascii comp_def del: runes.simps)
  have fixed: "Validate (?S 0) record_a = (None, record_a)"
    by (rule Validate_fixed) (simp_all add: record_a_def level_simps del: runes.simps)
  have line: "TrimSpace ascii_unicode (ascii ''{}'') = ascii ''{}''"
    by (simp add: TrimSpace_def runes_ascii trim_def IsSpace_def del: runes.simps)
  have parse: "parse_lines ?S (map drop_cr (Split 10 (ascii ''{}''))) [] = Inr [record_a]"
    using fixed line by (simp add: drop_cr_def ParseLogRecord_def Let_def)
  obtain p where p: "demo_marshal record_a = Some p" using demo_codec [of record_a] by (auto simp: record_a_def)
  have "engine_ok mem_manifest mem_used (opened 1)" using opened_ok [of 1] by (simp add: machine_ok_def)
  then obtain e1 where e1: "Put mem_manifest calm_env (docKey (lrID record_a)) (Some p) (opened 1) = (None, e1)"
    using Put_works [where M = mem_manifest and used = mem_used and e = "opened 1" and key = "docKey (lrID record_a)"
        and E = calm_env and v = "Some p"] opened_works by (auto simp: opened_fields docKey_def)
  have "\<exists>e'. IngestBatch ?S (Db.truncate ?D) [record_a] (opened 1) = (1, None, e')"
    using fixed p e1 by (auto simp: IngestBatch_def Ingest_def server_db_def Db.defs engine_db_def)
  then show ?thesis
    using long_line_ends_batch [OF t _ _ _ _ _ parse, of r "\<lparr>jsRecords = (\<lambda>_. None), jsQuery = (\<lambda>_. None)\<rparr>" ?D "opened 1"]
    by (intro exI [of _ ?D] exI [of _ r]) (auto simp: list_all_iff r_def)
qed

end
