(* ===== verification/LsmctlProps.thy ===== *)
theory LsmctlProps
  imports Lsmctl ServerProps
begin

text \<open>
  The command line client against the server over the storage engine: keys and values from the command line to
  the engine and back, and where the client reports what did not happen.
\<close>

section \<open>Requests for a key\<close>

text \<open>A key that the command line and the URL leave as it is.\<close>

definition plain_key :: "bytes \<Rightarrow> bool" where
  "plain_key key \<longleftrightarrow> key \<noteq> [] \<and> hd key \<noteq> 45 \<and>
     list_all (\<lambda>b. 32 \<le> b \<and> b \<noteq> 127 \<and> b \<noteq> 35 \<and> b \<noteq> 37 \<and> b \<noteq> 63) key"

lemma unescape_plain: "37 \<notin> set s \<Longrightarrow> unescape False s = Some s"
  by (induction s) auto

lemma target_plain:
  assumes "list_all (\<lambda>b. 32 \<le> b \<and> b \<noteq> 127 \<and> b \<noteq> 35 \<and> b \<noteq> 37 \<and> b \<noteq> 63) t"
  shows "parse_target t = Some (t, [])"
proof -
  have cuts: "takeWhile (\<lambda>b. b \<noteq> 35) t = t" "takeWhile (\<lambda>b. b \<noteq> 63) t = t"
    using assms by (auto simp: takeWhile_eq_all_conv list_all_iff)
  have "\<not> list_ex (\<lambda>b. b < 32 \<or> b = 127) t"
    using assms unfolding list_all_iff list_ex_iff by (metis leD)
  moreover have "unescape False t = Some t" using assms by (intro unescape_plain) (auto simp: list_all_iff)
  ultimately show ?thesis unfolding parse_target_def Let_def cuts by simp
qed

lemma plain_target: "plain_key key \<Longrightarrow> parse_target (kv_path key) = Some (kv_path key, [])"
  by (rule target_plain) (simp add: plain_key_def)

lemma plain_request:
  "plain_key key \<Longrightarrow> new_request server meth (kv_path key) body =
    Some \<lparr>crServer = server, crMethod = meth, crPath = kv_path key, crQuery = [], crBody = body\<rparr>"
  by (simp add: new_request_def plain_target del: ascii_simps)

lemma plain_args: "plain_key key \<Longrightarrow> parse_flags P fs (key # args) = Inr (fs, key # args)"
  by (simp add: plain_key_def)

lemma http_do_answer:
  "clSend c r w = (Some resp, w') \<Longrightarrow> rsStatus resp \<noteq> 301 \<Longrightarrow> http_do n c r w = (Some resp, w')"
  by (subst http_do.simps) (auto split: http_body.split)

lemma http_do_moved:
  "clSend c r w = (Some (moved meth path), w') \<Longrightarrow>
    http_do (Suc n) c r w = http_do n c (r\<lparr>crMethod := GET, crPath := path, crBody := NoBody\<rparr>) w'"
  by (subst http_do.simps) (simp add: moved_def)

lemma kv_answer_status: "kv_answer r key v resp v' \<Longrightarrow> rsStatus resp \<noteq> 301"
  by (auto simp: kv_answer_def written_def http_fail_def bad_method_def split: http_method.splits option.splits)

text \<open>One exchange for a key with a clean path.\<close>

lemma exchange:
  assumes "manifest_laws M used" "db_ok M used e" "ahDb h = server_db F M E C" "clSend c = local_send enc h"
    and "CleanPath (kv_path key) = kv_path key" "key \<noteq> []" "key \<noteq> ascii ''scan''"
    and "crPath r = kv_path key" "crQuery r = []"
  shows "\<exists>resp e'. http_do n c r e = (Some resp, e') \<and> db_ok M used e' \<and>
    kv_answer (server_request enc r) key (engine_view e) resp (engine_view e')"
proof -
  have "rqPath (server_request enc r) = kv_path key" using assms(8) by (simp add: server_request_def)
  then obtain resp e' where "serve_mux h (server_request enc r) e = (Some resp, e')" "db_ok M used e'"
    "kv_answer (server_request enc r) key (engine_view e) resp (engine_view e')"
    using serve_kv_answer [OF assms(1-3) _ assms(5-7)] by blast
  then show ?thesis using http_do_answer [of c r e resp e' n] kv_answer_status assms(4,9)
    by (auto simp: local_send_def)
qed

section \<open>The commands for keys\<close>

lemma lsmctl_command:
  "lsmctl c (ascii ''put'' # args) = lsmctl_put c args" "lsmctl c (ascii ''get'' # args) = lsmctl_get c args"
  "lsmctl c (ascii ''delete'' # args) = lsmctl_delete c args"
  by (simp_all add: lsmctl_def fun_eq_iff)

text \<open>What a command for a key prints and does to the map.\<close>

fun cli_answer :: "string \<Rightarrow> bytes \<Rightarrow> bytes \<Rightarrow> (bytes \<Rightarrow> bytes option) \<Rightarrow> cli_run \<Rightarrow> (bytes \<Rightarrow> bytes option) \<Rightarrow> bool" where
  "cli_answer cmd key val v run v' \<longleftrightarrow>
     (if cmd = ''get'' then v' = v \<and> run = printed [case v key of None \<Rightarrow> Line (ascii ''(nil)'') | Some w \<Rightarrow> Answer '''' (Text w)]
      else clErr run \<noteq> [] \<and> clOut run = [] \<and> v' = v \<or>
        (if cmd = ''put'' then run = printed [Line (ascii ''OK'')] \<and> v' = v(key \<mapsto> val)
         else run = printed [Line (ascii ''DELETED'')] \<and> v' = v(key := None)))"

lemma cli_answers:
  assumes base: "manifest_laws M used" "db_ok M used e" "ahDb h = server_db F M E C" "clSend c = local_send enc h"
    and key: "CleanPath (kv_path key) = kv_path key" "key \<noteq> ascii ''scan''" "plain_key key"
  shows "\<exists>run e'. lsmctl c [ascii ''put'', key, val] e = (Some run, e') \<and> db_ok M used e' \<and>
      cli_answer ''put'' key val (engine_view e) run (engine_view e')"
    "\<exists>run e'. lsmctl c [ascii ''get'', key] e = (Some run, e') \<and> db_ok M used e' \<and>
      cli_answer ''get'' key val (engine_view e) run (engine_view e')"
    "\<exists>run e'. lsmctl c [ascii ''delete'', key] e = (Some run, e') \<and> db_ok M used e' \<and>
      cli_answer ''delete'' key val (engine_view e) run (engine_view e')"
proof -
  have ne: "key \<noteq> []" using key(3) by (simp add: plain_key_def)
  let ?req = "\<lambda>meth body. \<lparr>crServer = str_flag [server_flag c] ''server'', crMethod = meth, crPath = kv_path key,
    crQuery = [], crBody = body\<rparr>"
  have send: "\<exists>resp e'. http_do n c (?req meth body) e = (Some resp, e') \<and> db_ok M used e' \<and>
      kv_answer (server_request enc (?req meth body)) key (engine_view e) resp (engine_view e')" for meth body n
    using exchange [OF base key(1) ne key(2), of "?req meth body" n] by simp
  note req = plain_request [OF key(3)] and args = plain_args [OF key(3)]
  show "\<exists>run e'. lsmctl c [ascii ''put'', key, val] e = (Some run, e') \<and> db_ok M used e' \<and>
      cli_answer ''put'' key val (engine_view e) run (engine_view e')"
    using send [of 9 PUT "RawBody val"]
    by (auto simp del: ascii_simps parse_flags.simps simp: lsmctl_command lsmctl_put_def with_flags_def args req kv_answer_def server_request_def
        written_def printed_def complains_def)
  show "\<exists>run e'. lsmctl c [ascii ''get'', key] e = (Some run, e') \<and> db_ok M used e' \<and>
      cli_answer ''get'' key val (engine_view e) run (engine_view e')"
    using send [of 9 GET NoBody]
    by (auto simp del: ascii_simps parse_flags.simps simp: lsmctl_command lsmctl_get_def with_flags_def args http_call_def req kv_answer_def server_request_def
        http_fail_def printed_def split: option.splits)
  show "\<exists>run e'. lsmctl c [ascii ''delete'', key] e = (Some run, e') \<and> db_ok M used e' \<and>
      cli_answer ''delete'' key val (engine_view e) run (engine_view e')"
    using send [of 9 DELETE NoBody]
    by (auto simp del: ascii_simps parse_flags.simps simp: lsmctl_command lsmctl_delete_def with_flags_def args req kv_answer_def server_request_def
        written_def printed_def complains_def)
qed

text \<open>
  C4. The commands for keys. For a plain key with a clean path, other than scan, and a server over the storage
  engine: put prints OK and stores the value, or reports an error and changes nothing; get prints the value or
  (nil) and changes nothing; delete prints DELETED and removes the key, or reports an error.
\<close>

theorem lsmctl_kv_is_map:
  assumes "manifest_laws M used" "db_ok M used e" "ahDb h = server_db F M E C" "clSend c = local_send enc h"
    and "CleanPath (kv_path key) = kv_path key" "key \<noteq> ascii ''scan''" "plain_key key"
  shows "(\<exists>run e'. lsmctl c [ascii ''put'', key, val] e = (Some run, e') \<and> db_ok M used e' \<and>
      cli_answer ''put'' key val (engine_view e) run (engine_view e')) \<and>
    (\<exists>run e'. lsmctl c [ascii ''get'', key] e = (Some run, e') \<and> db_ok M used e' \<and>
      cli_answer ''get'' key val (engine_view e) run (engine_view e')) \<and>
    (\<exists>run e'. lsmctl c [ascii ''delete'', key] e = (Some run, e') \<and> db_ok M used e' \<and>
      cli_answer ''delete'' key val (engine_view e) run (engine_view e'))"
  using cli_answers [OF assms, of val] by blast

definition demo_client :: "('e, 'f) APIHandler \<Rightarrow> 'e client" where
  "demo_client h = \<lparr>clServer = [], clParseInt = (\<lambda>_. None), clDuration = (\<lambda>_. None), clNow = 0,
     clFile = (\<lambda>_. None), clStdin = None, clSend = local_send (\<lambda>_. []) h\<rparr>"

lemma demo_fields:
  "ahDb (demo_handler undefined undefined) = server_db undefined mem_manifest (\<lambda>_. calm_env) undefined"
  "clSend (demo_client h) = local_send (\<lambda>_. []) h"
  by (simp_all add: demo_handler_def demo_client_def)

text \<open>A stored value is printed.\<close>

theorem lsmctl_kv_is_map_witness:
  "\<exists>(h :: (mem_manifest Engine, rat) APIHandler) e. fst (lsmctl (demo_client h) [ascii ''get'', ascii ''a''] e) =
    Some (printed [Answer '''' (Text [7])])"
proof -
  obtain e where e: "db_ok mem_manifest mem_used e" "engine_view e = [ascii ''a'' \<mapsto> [7]]"
    using engine_with [of "[ascii ''a'' \<mapsto> [7]]"] by auto
  let ?h = "demo_handler (undefined :: rat float_ops) undefined"
  have key: "CleanPath (kv_path (ascii ''a'')) = kv_path (ascii ''a'')" "ascii ''a'' \<noteq> ascii ''scan''" "plain_key (ascii ''a'')"
    by (simp_all add: CleanPath_def plain_key_def)
  obtain run e' where "lsmctl (demo_client ?h) [ascii ''get'', ascii ''a''] e = (Some run, e')"
    "cli_answer ''get'' (ascii ''a'') [] (engine_view e) run (engine_view e')"
    using lsmctl_kv_is_map [OF mem_manifest_laws e(1) demo_fields key, of "[]"] by blast
  then show ?thesis using e(2) by (intro exI [of _ ?h] exI [of _ e]) auto
qed

section \<open>A value that is not stored\<close>

lemma serve_moved:
  assumes "rqPath r = kv_path key" "CleanPath (kv_path key) = kv_path other" "kv_path other \<noteq> kv_path key"
  shows "serve_mux h r db = (Some (moved (rqMethod r) (kv_path other)), db)"
  using assms by (simp add: serve_mux_def Let_def)

text \<open>
  C23. A value that is not stored. When the path of a plain key is not clean, put is redirected, follows the
  redirect as a read of the cleaned key, and prints OK when that key has a value: nothing is stored.
\<close>

theorem lsmctl_put_unclean_key:
  assumes "manifest_laws M used" "db_ok M used e" "ahDb h = server_db F M E C" "clSend c = local_send enc h"
    and "plain_key key" "CleanPath (kv_path key) = kv_path other" "kv_path other \<noteq> kv_path key"
    and "CleanPath (kv_path other) = kv_path other" "other \<noteq> []" "other \<noteq> ascii ''scan''"
    and "engine_view e other \<noteq> None"
  shows "\<exists>e'. lsmctl c [ascii ''put'', key, val] e = (Some (printed [Line (ascii ''OK'')]), e') \<and>
    engine_view e' = engine_view e"
proof -
  define req where "req = \<lparr>crServer = str_flag [server_flag c] ''server'', crMethod = PUT, crPath = kv_path key,
    crQuery = [], crBody = RawBody val\<rparr>"
  let ?again = "req\<lparr>crMethod := GET, crPath := kv_path other, crBody := NoBody\<rparr>"
  have "serve_mux h (server_request enc req) e = (Some (moved PUT (kv_path other)), e)"
    using serve_moved [OF _ assms(6,7), of "server_request enc req" h e] by (simp add: server_request_def req_def)
  then have "clSend c req e = (Some (moved PUT (kv_path other)), e)" by (simp add: assms(4) local_send_def req_def)
  then have "http_do (Suc 8) c req e = http_do 8 c ?again e" by (rule http_do_moved)
  moreover obtain resp e' where get: "http_do 8 c ?again e = (Some resp, e')"
    "kv_answer (server_request enc ?again) other (engine_view e) resp (engine_view e')"
    using exchange [OF assms(1-4,8-10), of ?again 8] by (auto simp: req_def)
  ultimately have done_put: "http_do 9 c req e = (Some resp, e')" by (simp add: eval_nat_numeral)
  have "engine_view e' = engine_view e" "rsStatus resp = 200"
    using get(2) assms(11) by (auto simp: kv_answer_def server_request_def split: option.splits)
  then show ?thesis using done_put plain_args [OF assms(5)] plain_request [OF assms(5)]
    by (simp add: lsmctl_command lsmctl_put_def with_flags_def flip: req_def del: ascii_simps parse_flags.simps)
qed

text \<open>A key with two slashes, when the key with one slash has a value.\<close>

theorem lsmctl_put_unclean_key_witness:
  "\<exists>(h :: (mem_manifest Engine, rat) APIHandler) e e'. lsmctl (demo_client h) [ascii ''put'', ascii ''a//b'', [8]] e =
      (Some (printed [Line (ascii ''OK'')]), e') \<and> engine_view e' (ascii ''a//b'') = None"
proof -
  obtain e where e: "db_ok mem_manifest mem_used e" "engine_view e = [ascii ''a/b'' \<mapsto> [7]]"
    using engine_with [of "[ascii ''a/b'' \<mapsto> [7]]"] by auto
  let ?h = "demo_handler (undefined :: rat float_ops) undefined"
  have key: "plain_key (ascii ''a//b'')" "CleanPath (kv_path (ascii ''a//b'')) = kv_path (ascii ''a/b'')"
    "kv_path (ascii ''a/b'') \<noteq> kv_path (ascii ''a//b'')" "CleanPath (kv_path (ascii ''a/b'')) = kv_path (ascii ''a/b'')"
    "ascii ''a/b'' \<noteq> []" "ascii ''a/b'' \<noteq> ascii ''scan''"
    by (simp_all add: CleanPath_def plain_key_def)
  obtain e' where "lsmctl (demo_client ?h) [ascii ''put'', ascii ''a//b'', [8]] e = (Some (printed [Line (ascii ''OK'')]), e')"
    "engine_view e' = engine_view e"
    using lsmctl_put_unclean_key [OF mem_manifest_laws e(1) demo_fields key, of "[8]"] e(2) by auto
  then show ?thesis using e(2) by (intro exI [of _ ?h] exI [of _ e] exI [of _ e']) simp
qed

end
