(* ===== verification/Lsmd.thy ===== *)
theory Lsmd
  imports Client
begin

text \<open>
  The daemon (\<open>cmd/lsmd/main.go\<close>): its flags, the options of the engine it makes of them, the engine and the
  server it starts, and how it stops.
\<close>

section \<open>Flags and options\<close>

definition lsmd_flags :: flag_set where
  "lsmd_flags =
     [(ascii ''data-dir'', StrFlag (ascii ''./data'')), (ascii ''port'', IntFlag 8080), (ascii ''mem-size-mb'', IntFlag 4),
      (ascii ''sync-policy'', StrFlag (ascii ''always'')), (ascii ''auto-compact'', BoolFlag True)]"

definition resolve_policy :: "unicode \<Rightarrow> bytes \<Rightarrow> SyncPolicy" where
  "resolve_policy U s =
     (if ToLower U s = ascii ''batch'' then SyncBatch
      else if ToLower U s = ascii ''none'' then SyncNone
      else SyncAlways)"

text \<open>\<open>filepath.Clean\<close>: as for the paths of the server, but two dots at the start of a relative path stay.\<close>

fun rel_segments :: "bytes list \<Rightarrow> bytes list \<Rightarrow> bytes list" where
  "rel_segments acc [] = rev acc"
| "rel_segments acc (s # ss) =
     (if s = [] \<or> s = ascii ''.'' then rel_segments acc ss
      else if s = ascii ''..'' then
        (if acc = [] \<or> hd acc = ascii ''..'' then rel_segments (s # acc) ss else rel_segments (tl acc) ss)
      else rel_segments (s # acc) ss)"

fun join_segments :: "bytes list \<Rightarrow> bytes" where
  "join_segments [] = []"
| "join_segments [s] = s"
| "join_segments (s # ss) = s @ 47 # join_segments ss"

definition filepath_Clean :: "bytes \<Rightarrow> bytes" where
  "filepath_Clean p =
     (case p of
        [] \<Rightarrow> ascii ''.''
      | c # rest \<Rightarrow>
          (if c = 47 then 47 # join_segments (path_segments [] (Split 47 rest))
           else let q = join_segments (rel_segments [] (Split 47 p)) in if q = [] then ascii ''.'' else q))"

text \<open>What the process has besides its arguments: the library functions and the outcomes of the system calls.\<close>

record ('m, 'f) daemon_env =
  deUnicode :: unicode
  deParseInt :: "bytes \<Rightarrow> int option"
  deBloomBits :: "int \<Rightarrow> uint64"
  deBloomK :: "uint64 \<Rightarrow> int \<Rightarrow> uint32"
  deFloat :: "'f float_ops"
  deManifest :: "'m Manifest"
  deOpen :: engine_env
  deEngine :: "'m Engine \<Rightarrow> engine_env"
  deCompact :: "'m Engine \<Rightarrow> compact_env"
  deSearch :: "nat \<Rightarrow> search_env"
  deJSON :: json_env

definition daemon_options :: "('m, 'f) daemon_env \<Rightarrow> flag_set \<Rightarrow> Options" where
  "daemon_options d fs =
     (DefaultOptions (deBloomBits d) (deBloomK d)
        (map (\<lambda>b. char_of (unat b)) (filepath_Clean (str_flag fs ''data-dir''))))
     \<lparr>ogMemTableSize := wrap64 (wrap64 (int_flag fs ''mem-size-mb'' * 1024) * 1024),
      ogSyncPolicy := resolve_policy (deUnicode d) (str_flag fs ''sync-policy''),
      ogAutoCompaction := bool_flag fs ''auto-compact''\<rparr>"

section \<open>Start and stop\<close>

text \<open>What is in the data directory; \<open>odListing\<close> is the result of listing the logs.\<close>

record 'm on_disk =
  odManifest :: 'm
  odTables :: disk
  odWals :: "uint64 \<Rightarrow> bytes option"
  odListing :: "uint64 list option"

definition daemon_handler :: "('m, 'f) daemon_env \<Rightarrow> ('m Engine, 'f) APIHandler" where
  "daemon_handler d =
     \<lparr>ahDb = server_db (deFloat d) (deManifest d) (deEngine d) (deCompact d), ahEnv = deSearch d, ahJSON = deJSON d\<rparr>"

datatype ('e, 'f) daemon = Exited nat | Running 'e "('e, 'f) Server"

definition lsmd_start ::
  "('m, 'f) daemon_env \<Rightarrow> bytes list \<Rightarrow> 'm on_disk \<Rightarrow> ('m Engine, 'f) daemon" where
  "lsmd_start d args dir =
     (case parse_flags (deParseInt d) lsmd_flags args of
        Inl err \<Rightarrow> Exited (if err = HelpWanted then 0 else 2)
      | Inr (fs, _) \<Rightarrow>
          (case fst (Open (deManifest d) (deOpen d) (daemon_options d fs) (odManifest dir) (odTables dir) (odWals dir)
                  (odListing dir)) of
             Inl _ \<Rightarrow> Exited 1
           | Inr db \<Rightarrow>
               Running db (NewServer \<lparr>cfAddr = 58 # fmt_d (int_flag fs ''port''), cfReadTimeout = 10 * 10 ^ 9,
                             cfWriteTimeout = 30 * 10 ^ 9\<rparr> (daemon_handler d))))"

text \<open>After a signal, or when the server fails, the engine is closed and the process ends with status 0.\<close>

definition lsmd_stop :: "engine_env \<Rightarrow> ('m Engine, 'f) daemon \<Rightarrow> 'm Engine option \<times> nat" where
  "lsmd_stop E dm =
     (case dm of Exited code \<Rightarrow> (None, code) | Running db _ \<Rightarrow> (Some (Engine_Close E db), 0))"

end
