(* ===== verification/LsmdProps.thy ===== *)
theory LsmdProps
  imports Lsmd ServerProps EngineReopen SearchDemo
begin

text \<open>
  A daemon that is started again after a crash serves what was acknowledged before it.
\<close>

section \<open>The options of the daemon\<close>

lemma join_segments_Nil: "join_segments ss = [] \<Longrightarrow> ss = [] \<or> ss = [[]]"
  by (cases ss rule: join_segments.cases) auto



section \<open>Opened readers are open\<close>







section \<open>Restart after a crash\<close>





end
