(* ===== verification/SearchClaims.thy ===== *)
theory SearchClaims
  imports SearchDemo
begin

text \<open>
  The log search on the storage engine: ingestion extends the index, queries are exact, and the cases where
  they are not what a caller expects.
\<close>

section \<open>Ingestion\<close>

text \<open>
  C9. Ingestion. A failed ingestion leaves the contents of the engine as they were. One that reports success
  has stored the validated record under its document key and written some of its index keys, all of them when
  no write was refused; nothing else changes.
\<close>

theorem ingest_indexes_record:
  assumes "manifest_laws M used" "db_ok M used e"
  shows "case Ingest S (engine_db M E) l0 e of
      (Some err, e') \<Rightarrow> db_ok M used e' \<and> engine_view e' = engine_view e \<and>
        (\<forall>l. Validate S l0 = (None, l) \<longrightarrow> seMarshal S l = None \<or> \<not> ingest_accepted S (engine_db M E) l e)
    | (None, e') \<Rightarrow> db_ok M used e' \<and> (\<exists>l p K. Validate S l0 = (None, l) \<and> seMarshal S l = Some p \<and>
        K \<subseteq> set (index_keys S l) \<and> (ingest_accepted S (engine_db M E) l e \<longrightarrow> K = set (index_keys S l)) \<and>
        engine_view e' = (\<lambda>k. if k \<in> K then Some [] else ((engine_view e)(docKey (lrID l) \<mapsto> p)) k))"
  by (rule kv_store.Ingest_view [OF engine_kv_store [OF assms(1)] assms(2)])

text \<open>
  An engine whose memtable takes one byte: the document is stored, the report is success, and the document is
  there afterwards.
\<close>

theorem ingest_indexes_record_witness:
  "\<exists>e'. Ingest demo_env (engine_db mem_manifest (\<lambda>_. calm_env)) record_a (opened 1) = (None, e') \<and>
    engine_view e' (docKey (ascii ''a'')) = demo_marshal record_a"
proof -
  let ?D = "engine_db mem_manifest (\<lambda>_. calm_env)"
  have ok: "db_ok mem_manifest mem_used (opened 1)"
    using opened_ok [of 1] by (simp add: db_ok_def machine_ok_def readers_open_def opened_fields)
  obtain p where p: "demo_marshal record_a = Some p" using records_good(1) by (auto simp: good_record_def demo_env_def)
  have "docKey (lrID record_a) \<noteq> []" by (simp add: docKey_def)
  then obtain e1 where "Put mem_manifest calm_env (docKey (lrID record_a)) (Some p) (opened 1) = (None, e1)"
    using Put_works [where M = mem_manifest and used = mem_used and e = "opened 1" and E = calm_env] ok opened_works
    by (auto simp: db_ok_def opened_fields simp del: fun_upd_apply) metis
  then have "dbPut ?D (docKey (lrID record_a)) (Some p) (opened 1) = (None, e1)" by (simp add: engine_db_def)
  then obtain e' where e': "Ingest demo_env ?D record_a (opened 1) = (None, e')"
    using p by (simp add: Ingest_def records_fixed)
  then obtain K where K: "K \<subseteq> set (index_keys demo_env record_a)"
    "engine_view e' = (\<lambda>k. if k \<in> K then Some [] else ((engine_view (opened 1))(docKey (lrID record_a) \<mapsto> p)) k)"
    using ingest_indexes_record [OF mem_manifest_laws ok, where S = demo_env and E = "\<lambda>_. calm_env" and ?l0.0 = record_a] p records_fixed
    by auto
  have "docKey (lrID record_a) \<notin> K" using K(1) docKey_not_index by blast
  then show ?thesis using e' K(2) p by (simp add: record_a_def)
qed

section \<open>Queries\<close>

text \<open>
  C8. Queries are exact. Let the engine hold what the ingestion of some records writes whose ids are distinct
  and contain neither a colon nor the byte 255, whose levels and services contain no colon, whose timestamps
  are positive, and which JSON gives back as they were. A query whose level and service contain no colon finds
  exactly the records that are indexed under it and pass its filters, each once, newest first, reports their
  number, returns the page asked for, and leaves the contents of the engine as they were. The code accepts
  records with a colon in them; a record with a colon in its id is never found, as the last lemma of this
  theory shows.
\<close>

theorem search_exact:
  assumes "manifest_laws M used" "db_ok M used e" "engine_view e = index_map S ls"
    and "good_logs S ls" "search_env_ok S" "query_ok S q"
  shows "\<exists>e' hits. db_ok M used e' \<and> engine_view e' = engine_view e \<and> mset hits = mset (filter (matches S q) ls) \<and>
    sorted_wrt (\<lambda>a b. lrTimestamp a \<ge> lrTimestamp b) hits \<and>
    Search S (engine_db M E) q e = (map_option (\<lambda>logs. Inr \<lparr>srTotalHits = int (length hits), srLogs = logs\<rparr>)
      (page (qLimit q) (qOffset q) hits), e')"
  using kv_store.Search_result [OF engine_kv_store [OF assms(1)] assms(2-6)] by metis

text \<open>Two records about a disk, a page of one: the newer record, and two hits.\<close>

theorem search_exact_witness:
  "\<exists>e. fst (Search demo_env (engine_db mem_manifest (\<lambda>_. calm_env)) demo_query e) =
    Some (Inr \<lparr>srTotalHits = 2, srLogs = [record_b]\<rparr>)"
proof -
  let ?ls = "[record_a, record_b]"
  obtain e where e: "db_ok mem_manifest mem_used e" "engine_view e = index_map demo_env ?ls"
    using engine_with [OF finite_index_map] by blast
  have good: "good_logs demo_env ?ls"
    using records_good by (simp add: good_logs_def) (simp add: record_a_def record_b_def)
  have q: "query_ok demo_env demo_query" using demo_query_ok [where m = 1 and n = 0] by (simp add: demo_query_def)
  have "filter (matches demo_env demo_query) ?ls = ?ls"
    using demo_matches [where m = 1 and n = 0] record_tokens by (simp add: demo_query_def record_a_def record_b_def)
  then obtain hits where h: "mset hits = mset ?ls" "sorted_wrt (\<lambda>a b. lrTimestamp a \<ge> lrTimestamp b) hits"
    "fst (Search demo_env (engine_db mem_manifest (\<lambda>_. calm_env)) demo_query e) =
      map_option (\<lambda>logs. Inr \<lparr>srTotalHits = int (length hits), srLogs = logs\<rparr>) (page 1 0 hits)"
    using search_exact [OF mem_manifest_laws e good demo_env_ok q, where E = "\<lambda>_. calm_env"] by (auto simp: demo_query_def)
  have "hits = [record_b, record_a]"
    using h(1,2) mset_eq_length [OF h(1)]
    by (cases hits; cases "tl hits") (auto simp: record_a_def record_b_def add_eq_conv_ex)
  then show ?thesis using h(3) by (auto simp: page_def wrap64_def)
qed

section \<open>Where queries surprise\<close>

text \<open>
  C19. The page of a query. When the offset is inside the matches and offset plus limit exceeds the range of
  \<open>int\<close>, the sum wraps around to a negative number and the slice expression panics.
\<close>

theorem search_page_panics:
  assumes "manifest_laws M used" "db_ok M used e" "engine_view e = index_map S ls"
    and "good_logs S ls" "search_env_ok S" "query_ok S q"
    and "0 < qLimit q" "qLimit q < 2 ^ 63" "0 \<le> qOffset q" "qOffset q < 2 ^ 63" "2 ^ 63 \<le> qOffset q + qLimit q"
    and "qOffset q < int (length (filter (matches S q) ls))"
  shows "fst (Search S (engine_db M E) q e) = None"
proof -
  obtain e' hits where h: "mset hits = mset (filter (matches S q) ls)"
    "Search S (engine_db M E) q e = (map_option (\<lambda>logs. Inr \<lparr>srTotalHits = int (length hits), srLogs = logs\<rparr>)
      (page (qLimit q) (qOffset q) hits), e')"
    using kv_store.Search_result [OF engine_kv_store [OF assms(1)] assms(2-6)] by metis
  have "page (qLimit q) (qOffset q) hits = None"
    using assms(7-12) mset_eq_length [OF h(1)] by (intro page_overflow) auto
  then show ?thesis using h(2) by simp
qed

text \<open>Two matches, the second one and as many as there are asked for.\<close>

theorem search_page_panics_witness:
  "\<exists>e. fst (Search demo_env (engine_db mem_manifest (\<lambda>_. calm_env)) (demo_query\<lparr>qLimit := 2 ^ 63 - 1, qOffset := 1\<rparr>) e) = None"
proof -
  let ?ls = "[record_a, record_b]" and ?q = "demo_query\<lparr>qLimit := 2 ^ 63 - 1, qOffset := 1\<rparr>"
  obtain e where e: "db_ok mem_manifest mem_used e" "engine_view e = index_map demo_env ?ls"
    using engine_with [OF finite_index_map] by blast
  have good: "good_logs demo_env ?ls"
    using records_good by (simp add: good_logs_def) (simp add: record_a_def record_b_def)
  have "filter (matches demo_env ?q) ?ls = ?ls"
    using demo_matches [where m = "2 ^ 63 - 1" and n = 1] record_tokens by (simp add: record_a_def record_b_def)
  then have "fst (Search demo_env (engine_db mem_manifest (\<lambda>_. calm_env)) ?q e) = None"
    by (intro search_page_panics [OF mem_manifest_laws e good demo_env_ok demo_query_ok]) simp_all
  then show ?thesis by blast
qed

text \<open>
  C20. Stale terms. A record ingested again under its id with another text stays in the index under the terms
  of the old text: a query for such a term finds the new record, whatever its text is.
\<close>

theorem search_stale_term:
  assumes "manifest_laws M used" "db_ok M used e" "engine_view e = index_map S [l1, l2]"
    and "good_record S l1" "good_record S l2" "lrID l1 = lrID l2" "search_env_ok S" "query_ok S q"
    and "Tokenize (seUnicode S) (qText q) = [c]" "c \<in> set (Tokenize (seUnicode S) (lrMessage l1))" "in_time q l1"
    and "passes S q l2"
  shows "\<exists>e'. Search S (engine_db M E) q e = (map_option (\<lambda>logs. Inr \<lparr>srTotalHits = 1, srLogs = logs\<rparr>)
      (page (qLimit q) (qOffset q) [l2]), e')"
  using kv_store.Search_stale [OF engine_kv_store [OF assms(1)] assms(2-12)] by metis

text \<open>The text of the record is replaced by one without the word, and a query for the word finds it.\<close>

theorem search_stale_term_witness:
  "\<exists>e. engine_view e = index_map demo_env [record_a, record_c] \<and>
    fst (Search demo_env (engine_db mem_manifest (\<lambda>_. calm_env)) demo_query e) =
      Some (Inr \<lparr>srTotalHits = 1, srLogs = [record_c]\<rparr>) \<and>
    ascii ''disk'' \<notin> set (Tokenize ascii_unicode (lrMessage record_c))"
proof -
  obtain e where e: "db_ok mem_manifest mem_used e" "engine_view e = index_map demo_env [record_a, record_c]"
    using engine_with [OF finite_index_map] by blast
  have q: "query_ok demo_env demo_query" using demo_query_ok [where m = 1 and n = 0] by (simp add: demo_query_def)
  have none: "sorted_list_of_fmap (fmempty :: fields) = []" by (rule empty_fields)
  have "fst (Search demo_env (engine_db mem_manifest (\<lambda>_. calm_env)) demo_query e) =
      map_option (\<lambda>logs. Inr \<lparr>srTotalHits = 1, srLogs = logs\<rparr>) (page 1 0 [record_c])"
  proof -
    have "passes demo_env demo_query record_c"
      using none by (simp add: passes_def demo_query_def demo_env_def from_time_def to_time_def record_c_def record_a_def Let_def)
    moreover have "in_time demo_query record_a"
      by (simp add: in_time_def demo_query_def from_time_def to_time_def record_a_def)
    moreover have "Tokenize (seUnicode demo_env) (qText demo_query) = [ascii ''disk'']"
      using record_tokens(4) by (simp add: demo_query_def)
    moreover have "ascii ''disk'' \<in> set (Tokenize (seUnicode demo_env) (lrMessage record_a))" using record_tokens(1) by simp
    moreover have "lrID record_a = lrID record_c" by (simp add: record_c_def)
    ultimately obtain e' where "Search demo_env (engine_db mem_manifest (\<lambda>_. calm_env)) demo_query e =
        (map_option (\<lambda>logs. Inr \<lparr>srTotalHits = 1, srLogs = logs\<rparr>) (page (qLimit demo_query) (qOffset demo_query) [record_c]), e')"
      using search_stale_term [OF mem_manifest_laws e records_good(1,3) _ demo_env_ok q] by blast
    then show ?thesis by (simp add: demo_query_def)
  qed
  then show ?thesis using e(2) record_tokens(3) by (auto simp: page_def wrap64_def)
qed

section \<open>Aggregation\<close>

text \<open>The bucket of a timestamp.\<close>

definition bucket_start :: "int \<Rightarrow> int \<Rightarrow> int" where
  "bucket_start interval t = (t sdiv interval) * interval"

definition in_bucket :: "int \<Rightarrow> int \<Rightarrow> LogRecord \<Rightarrow> bool" where
  "in_bucket interval b l \<longleftrightarrow> bucket_start interval (lrTimestamp l) = b"

lemma bucket_interval:
  assumes "0 < interval" "0 \<le> t"
  shows "bucket_start interval t \<le> t \<and> t < bucket_start interval t + interval"
proof -
  have "bucket_start interval t = t - t mod interval"
    using assms by (simp add: bucket_start_def signed_divide_int_def sgn_if minus_mod_eq_div_mult)
  then show ?thesis using assms pos_mod_bound [of interval t] pos_mod_sign [of interval t] by simp
qed

definition count_level :: "LogRecord \<Rightarrow> (bytes, int) fmap \<Rightarrow> (bytes, int) fmap" where
  "count_level l m = fmupd (lrLevel l) ((case fmlookup m (lrLevel l) of None \<Rightarrow> 0 | Some n \<Rightarrow> n) + 1) m"

definition bucket_of :: "int \<Rightarrow> LogRecord list \<Rightarrow> Bucket" where
  "bucket_of b ls = \<lparr>bkTimestamp = b, bkCount = int (length ls), bkByLevel = fold count_level ls fmempty\<rparr>"

definition level_total :: "bytes \<Rightarrow> LogRecord list \<Rightarrow> nat" where
  "level_total lvl ls = length (filter (\<lambda>l. lrLevel l = lvl) ls)"

lemma count_levels:
  "fmlookup (fold count_level ls fmempty) lvl = (if level_total lvl ls = 0 then None else Some (int (level_total lvl ls)))"
  by (induction ls rule: rev_induct) (auto simp: count_level_def level_total_def)

lemma fold_add_log:
  "fmlookup (fold (add_log interval) logs fmempty) b =
    (let ls = filter (in_bucket interval b) logs in if ls = [] then None else Some (bucket_of b ls))"
proof (induction logs arbitrary: b rule: rev_induct)
  case (snoc l logs)
  let ?m = "fold (add_log interval) logs fmempty" and ?s = "bucket_start interval (lrTimestamp l)"
  let ?ls = "filter (in_bucket interval ?s) logs"
  have "(case fmlookup ?m ?s of None \<Rightarrow> \<lparr>bkTimestamp = ?s, bkCount = 0, bkByLevel = fmempty\<rparr> | Some b \<Rightarrow> b) = bucket_of ?s ?ls"
    using snoc.IH [of ?s] by (auto simp: Let_def bucket_of_def)
  then have "add_log interval l ?m = fmupd ?s (bucket_of ?s (?ls @ [l])) ?m"
    by (simp add: add_log_def Let_def bucket_of_def count_level_def add.commute flip: bucket_start_def)
  moreover have "filter (in_bucket interval b) (logs @ [l]) = (if b = ?s then ?ls @ [l] else filter (in_bucket interval b) logs)"
    by (auto simp: in_bucket_def)
  ultimately show ?case using snoc.IH [of b] by (simp add: Let_def)
qed simp

lemma sum_buckets:
  assumes "distinct ks" "\<forall>l\<in>set logs. bucket_start interval (lrTimestamp l) \<in> set ks"
  shows "sum_list (map (\<lambda>k. int (length (filter (in_bucket interval k) logs))) ks) = int (length logs)"
  using assms(2)
proof (induction logs)
  case (Cons l logs)
  let ?s = "bucket_start interval (lrTimestamp l)"
  have "sum_list (map (\<lambda>k. int (length (filter (in_bucket interval k) (l # logs)))) ks) =
      sum_list (map (\<lambda>k. (if k = ?s then 1 else 0) + int (length (filter (in_bucket interval k) logs))) ks)"
    by (intro arg_cong [where f = sum_list] map_cong) (auto simp: in_bucket_def)
  also have "\<dots> = sum_list (map (\<lambda>k. if k = ?s then 1 else 0) ks) + int (length logs)"
    using Cons by (simp add: sum_list_addf)
  also have "sum_list (map (\<lambda>k. if k = ?s then 1 else 0) ks) = (1 :: int)"
  proof -
    have "sum_list (map (\<lambda>k. if k = ?s then 1 else 0) ks) = (\<Sum>k\<in>set ks. if k = ?s then 1 else (0 :: int))"
      using assms(1) by (simp add: sum_list_distinct_conv_sum_set)
    also have "\<dots> = 1" using Cons.prems by simp
    finally show ?thesis .
  qed
  finally show ?case by simp
qed simp

lemma buckets_eq:
  fixes logs interval
  defines "ks \<equiv> sorted_list_of_set (bucket_start interval ` lrTimestamp ` set logs)"
  shows "sort_key bkTimestamp (map snd (sorted_list_of_fmap (fold (add_log interval) logs fmempty))) =
    map (\<lambda>k. bucket_of k (filter (in_bucket interval k) logs)) ks"
proof -
  let ?m = "fold (add_log interval) logs fmempty"
  have look: "fmlookup ?m b \<noteq> None \<longleftrightarrow> b \<in> bucket_start interval ` lrTimestamp ` set logs" for b
    by (auto simp: fold_add_log Let_def filter_empty_conv in_bucket_def)
  have dom: "fset (fmdom ?m) = bucket_start interval ` lrTimestamp ` set logs"
    using look by (auto simp: fmlookup_dom_iff)
  have "sorted_list_of_fset (fmdom ?m) = ks" by (simp add: sorted_list_of_fset.rep_eq dom ks_def)
  then have "map snd (sorted_list_of_fmap ?m) = map (\<lambda>k. the (fmlookup ?m k)) ks"
    by (simp add: sorted_list_of_fmap_def comp_def)
  also have "\<dots> = map (\<lambda>k. bucket_of k (filter (in_bucket interval k) logs)) ks"
  proof (rule map_cong [OF refl])
    fix k assume "k \<in> set ks"
    then have "fmlookup ?m k \<noteq> None" using look by (simp add: ks_def)
    then show "the (fmlookup ?m k) = bucket_of k (filter (in_bucket interval k) logs)"
      by (auto simp: fold_add_log Let_def split: if_splits)
  qed
  moreover have "sort_key bkTimestamp (map (\<lambda>k. bucket_of k (filter (in_bucket interval k) logs)) ks) =
      map (\<lambda>k. bucket_of k (filter (in_bucket interval k) logs)) ks"
    by (rule sort_key_id_if_sorted) (simp add: bucket_of_def comp_def ks_def)
  ultimately show ?thesis by simp
qed

lemma aggregation_spec:
  fixes logs n
  defines "interval \<equiv> (if n \<le> 0 then minute else n)" and "res \<equiv> AggregateGroups logs n"
  shows "agTotal res = int (length logs) \<and> sum_list (map bkCount (agBuckets res)) = agTotal res \<and>
    sorted_wrt (<) (map bkTimestamp (agBuckets res)) \<and>
    bkTimestamp ` set (agBuckets res) = bucket_start interval ` lrTimestamp ` set logs \<and>
    list_all (\<lambda>b. let ls = filter (in_bucket interval (bkTimestamp b)) logs in bkCount b = int (length ls) \<and>
      (\<forall>lvl. fmlookup (bkByLevel b) lvl = (if level_total lvl ls = 0 then None else Some (int (level_total lvl ls)))))
      (agBuckets res) \<and>
    (\<forall>t\<ge>0. bucket_start interval t \<le> t \<and> t < bucket_start interval t + interval)"
proof -
  let ?ks = "sorted_list_of_set (bucket_start interval ` lrTimestamp ` set logs)"
  have b: "agBuckets res = map (\<lambda>k. bucket_of k (filter (in_bucket interval k) logs)) ?ks"
    using buckets_eq [of interval logs] by (simp add: res_def AggregateGroups_def interval_def Let_def)
  have "agTotal res = int (length logs)" by (simp add: res_def AggregateGroups_def Let_def)
  moreover have "sum_list (map bkCount (agBuckets res)) = int (length logs)"
    using sum_buckets [of ?ks logs interval] by (simp add: b comp_def bucket_of_def)
  moreover have ks: "map bkTimestamp (agBuckets res) = ?ks" by (simp add: b comp_def bucket_of_def)
  then have "sorted_wrt (<) (map bkTimestamp (agBuckets res))" by simp
  moreover have "bkTimestamp ` set (agBuckets res) = bucket_start interval ` lrTimestamp ` set logs"
    using arg_cong [OF ks, of set] by simp
  moreover have "list_all (\<lambda>b. let ls = filter (in_bucket interval (bkTimestamp b)) logs in bkCount b = int (length ls) \<and>
      (\<forall>lvl. fmlookup (bkByLevel b) lvl = (if level_total lvl ls = 0 then None else Some (int (level_total lvl ls)))))
      (agBuckets res)"
    by (auto simp: b list_all_iff bucket_of_def count_levels Let_def)
  moreover have "\<forall>t\<ge>0. bucket_start interval t \<le> t \<and> t < bucket_start interval t + interval"
    using bucket_interval [of interval] by (simp add: interval_def minute_def)
  ultimately show ?thesis by (simp only: simp_thms)
qed

text \<open>
  C21. Aggregation. The buckets are in ascending order, one for each interval with a record in it; a bucket
  counts the records of its interval, in total and by level, and the counts add up to the total, which is the
  number of records. A record is in the interval its timestamp falls in.
\<close>

theorem aggregation_counts:
  "let interval = (if n \<le> 0 then minute else n); res = AggregateGroups logs n in
    agTotal res = int (length logs) \<and> sum_list (map bkCount (agBuckets res)) = agTotal res \<and>
    sorted_wrt (<) (map bkTimestamp (agBuckets res)) \<and>
    bkTimestamp ` set (agBuckets res) = bucket_start interval ` lrTimestamp ` set logs \<and>
    list_all (\<lambda>b. let ls = filter (in_bucket interval (bkTimestamp b)) logs in bkCount b = int (length ls) \<and>
      (\<forall>lvl. fmlookup (bkByLevel b) lvl = (if level_total lvl ls = 0 then None else Some (int (level_total lvl ls)))))
      (agBuckets res) \<and>
    (\<forall>t\<ge>0. bucket_start interval t \<le> t \<and> t < bucket_start interval t + interval)"
  unfolding Let_def [of "if n \<le> 0 then minute else n"] Let_def [of "AggregateGroups logs n"] by (rule aggregation_spec)

text \<open>Two records in one interval of four nanoseconds and one in another.\<close>

theorem aggregation_counts_witness:
  "agTotal (AggregateGroups [record_a, record_b, record_a\<lparr>lrTimestamp := 9\<rparr>] 4) = 3 \<and>
   map bkTimestamp (agBuckets (AggregateGroups [record_a, record_b, record_a\<lparr>lrTimestamp := 9\<rparr>] 4)) = [4, 8] \<and>
   bucket_start 4 9 = 8 \<and> 9 < bucket_start 4 9 + 4"
proof -
  let ?ls = "[record_a, record_b, record_a\<lparr>lrTimestamp := 9\<rparr>]" and ?r = "AggregateGroups [record_a, record_b, record_a\<lparr>lrTimestamp := 9\<rparr>] 4"
  have s: "bucket_start 4 ` lrTimestamp ` set ?ls = {4, 8}" "bucket_start 4 9 = 8"
    by (auto simp: bucket_start_def record_a_def record_b_def signed_divide_int_def)
  have "agTotal ?r = 3" "sorted_wrt (<) (map bkTimestamp (agBuckets ?r))" "set (map bkTimestamp (agBuckets ?r)) = {4, 8}"
    "9 < bucket_start 4 9 + 4"
    using aggregation_counts [of 4 ?ls] s by (simp_all add: Let_def)
  moreover from this have "map bkTimestamp (agBuckets ?r) = sorted_list_of_set {4, 8}"
    by (metis sorted_list_of_set_unique finite_set strict_sorted_iff list.set_finite sorted_list_of_set.idem_if_sorted_distinct)
  ultimately show ?thesis using s(2) by simp
qed

section \<open>Ids with a colon\<close>

text \<open>
  The search takes what follows the last colon of an index key as the id. Whatever the engine holds, as long as
  every document is stored under the id of its record, no query returns a record whose id contains a colon.
\<close>

lemma search_misses_colon_ids:
  assumes "manifest_laws M used" "db_ok M used e"
    and "\<forall>i p l. engine_view e (docKey i) = Some p \<and> ParseLogRecord S p = Inr l \<longrightarrow> lrID l = i"
    and "search_env_ok S" "Search S (engine_db M E) q e = (Some (Inr res), e')"
  shows "\<forall>l\<in>set (srLogs res). 58 \<notin> set (lrID l)"
  using kv_store.Search_no_colon [OF engine_kv_store [OF assms(1)] assms(2-5)] .

end
